(* ===== verification/Prelude.thy ===== *)
theory Prelude
  imports Main "HOL-Library.Word"
begin

unbundle bit_operations_syntax

text \<open>
  What every component of the development shares: the names of the machine types, the
  little-endian layout of integers in memory, and the interface of a fixed-width codec, by
  which the structs of the file format and the components that read and write them are
  connected.
\<close>

section \<open>Machine types\<close>

type_synonym u8 = "8 word"
type_synonym u16 = "16 word"
type_synonym u32 = "32 word"
type_synonym u64 = "64 word"

text \<open>
  An IEEE-754 \<open>double\<close> is its bit pattern. The recorder stores, copies and compares
  doubles byte by byte; no arithmetic of them decides what the log holds.
\<close>

type_synonym f64 = "64 word"

type_synonym bytes = "8 word list"

named_theorems codec_simps \<open>lengths and inverses of the byte codecs\<close>

section \<open>Lists\<close>

lemma take_drop_append_drop: "take a (drop p xs) @ drop (p + a) xs = drop p xs"
  by (metis add.commute append_take_drop_id drop_drop)

lemma take_append_slice: "take p xs @ take a (drop p xs) = take (p + a) xs"
  by (simp add: take_add)

lemma slices: "xs = take p xs @ take a (drop p xs) @ drop (p + a) xs"
  by (simp add: take_drop_append_drop)

lemma drop_append_length [simp]: "length xs = n \<Longrightarrow> drop n (xs @ ys) = ys"
  by auto

lemma take_append_length [simp]: "length xs = n \<Longrightarrow> take n (xs @ ys) = xs"
  by auto

section \<open>Decimal output\<close>

text \<open>How an output stream prints an unsigned integer.\<close>

fun show_nat :: "nat \<Rightarrow> string" where
  "show_nat n = (if n < 10 then [char_of (48 + n)] else show_nat (n div 10) @ [char_of (48 + n mod 10)])"

declare show_nat.simps [simp del]

definition show_word :: "'a::len word \<Rightarrow> string" where
  "show_word w = show_nat (unat w)"

section \<open>Little-endian integers\<close>

text \<open>\<open>le n w\<close> are the \<open>n\<close> low bytes of \<open>w\<close> in memory order, \<open>un_le\<close> reads them back.\<close>

primrec le :: "nat \<Rightarrow> 'a::len word \<Rightarrow> bytes" where
  "le 0 w = []"
| "le (Suc n) w = ucast w # le n (drop_bit 8 w)"

primrec un_le :: "bytes \<Rightarrow> 'a::len word" where
  "un_le [] = 0"
| "un_le (b # bs) = ucast b OR push_bit 8 (un_le bs)"

lemma length_le [simp]: "length (le n w) = n"
  by (induction n arbitrary: w) auto

lemma bit_un_le_bound: "bit (un_le bs :: 'a::len word) k \<Longrightarrow> k < 8 * length bs"
proof (induction bs arbitrary: k)
  case Nil
  then show ?case by simp
next
  case (Cons b bs)
  show ?case
  proof (cases "k < 8")
    case True
    then show ?thesis by simp
  next
    case False
    with Cons.prems have "bit (un_le bs :: 'a word) (k - 8)"
      by (auto simp: bit_simps dest: bit_imp_le_length)
    then have "k - 8 < 8 * length bs" by (rule Cons.IH)
    then show ?thesis by simp
  qed
qed

lemma un_le_le: "un_le (le n w) = take_bit (8 * n) (w :: 'a::len word)"
proof (induction n arbitrary: w)
  case 0
  then show ?case by simp
next
  case (Suc n)
  have "ucast (ucast w :: 8 word) OR push_bit 8 (take_bit (8 * n) (drop_bit 8 w)) = take_bit (8 * Suc n) w"
    by (rule bit_word_eqI) (auto simp: bit_simps)
  with Suc show ?case by simp
qed

lemma le_un_le:
  assumes "length bs = n" and "8 * n \<le> LENGTH('a::len)"
  shows "le n (un_le bs :: 'a word) = bs"
  using assms
proof (induction n arbitrary: bs)
  case 0
  then show ?case by simp
next
  case (Suc n)
  then obtain b cs where bs: "bs = b # cs" and len: "length cs = n"
    by (cases bs) auto
  have low: "ucast (ucast b OR push_bit 8 (un_le cs) :: 'a word) = b"
    using Suc.prems by (intro bit_word_eqI) (auto simp: bit_simps)
  have high: "drop_bit 8 (ucast b OR push_bit 8 (un_le cs)) = (un_le cs :: 'a word)"
    using Suc.prems len
    by (intro bit_word_eqI) (auto simp: bit_simps dest: bit_un_le_bound bit_imp_le_length)
  from Suc.IH [OF len] Suc.prems have "le n (un_le cs :: 'a word) = cs" by simp
  then show ?case
    by (simp only: bs un_le.simps le.simps low high)
qed

lemma un_le_inject:
  assumes "length u = length v" and "8 * length u \<le> LENGTH('a::len)"
  shows "(un_le u :: 'a word) = un_le v \<longleftrightarrow> u = v"
  using assms by (metis le_un_le)

section \<open>Fixed-width codecs\<close>

text \<open>
  The interface by which a component writes a packed struct with \<open>memcpy\<close> and another reads
  it back: an encoding into exactly \<open>width\<close> bytes and its inverse on blocks of that size.
\<close>

locale codec =
  fixes enc :: "'a \<Rightarrow> bytes" and dec :: "bytes \<Rightarrow> 'a" and width :: nat
  assumes enc_length: "length (enc x) = width"
    and dec_enc: "dec (enc x) = x"
    and enc_dec: "length bs = width \<Longrightarrow> enc (dec bs) = bs"
begin

lemma enc_inject: "enc x = enc y \<longleftrightarrow> x = y"
  by (metis dec_enc)

lemma dec_inject: "length u = width \<Longrightarrow> length v = width \<Longrightarrow> dec u = dec v \<longleftrightarrow> u = v"
  by (metis enc_dec)

lemma take_enc: "take width (enc x @ r) = enc x"
  by (simp add: enc_length)

lemma drop_enc: "drop width (enc x @ r) = r"
  by (simp add: enc_length)

lemma dec_take_enc: "dec (take width (enc x @ r)) = x"
  by (simp only: take_enc dec_enc)

text \<open>Arrays of structs: \<open>n\<close> consecutive blocks.\<close>

lemma length_concat_enc: "length (concat (map enc xs)) = length xs * width"
  by (induction xs) (auto simp: enc_length)

lemma drop_concat_enc: "drop (n * width) (concat (map enc xs)) = concat (map enc (drop n xs))"
proof (induction n arbitrary: xs)
  case 0
  then show ?case by simp
next
  case (Suc n)
  show ?case
  proof (cases xs)
    case Nil
    then show ?thesis by simp
  next
    case (Cons x ys)
    have "drop (Suc n * width) (concat (map enc xs)) = drop (n * width) (drop width (enc x @ concat (map enc ys)))"
      by (simp add: Cons add.commute [of width] del: drop_append)
    also have "\<dots> = concat (map enc (drop n ys))"
      by (simp only: drop_enc Suc.IH)
    finally show ?thesis by (simp add: Cons)
  qed
qed

lemma take_concat_enc: "take (n * width) (concat (map enc xs)) = concat (map enc (take n xs))"
proof -
  have "concat (map enc xs) = concat (map enc (take n xs)) @ concat (map enc (drop n xs))"
    by (metis append_take_drop_id concat_append map_append)
  then show ?thesis
    by (cases "n \<le> length xs") (auto simp: length_concat_enc)
qed

lemma block_concat_enc:
  assumes "i < length xs"
  shows "take width (drop (i * width) (concat (map enc xs) @ r)) = enc (xs ! i)"
proof -
  have le: "i * width \<le> length (concat (map enc xs))"
    using assms by (simp add: length_concat_enc)
  have "drop (i * width) (concat (map enc xs) @ r) = concat (map enc (drop i xs)) @ r"
    using le by (simp add: drop_concat_enc)
  also have "\<dots> = enc (xs ! i) @ concat (map enc (drop (Suc i) xs)) @ r"
    using assms by (simp add: Cons_nth_drop_Suc [symmetric])
  finally show ?thesis by (simp only: take_enc)
qed

end

lemma un_le_le_full: "8 * n = LENGTH('a::len) \<Longrightarrow> un_le (le n w) = (w :: 'a word)"
  by (simp add: un_le_le)

interpretation le16: codec "le 2 :: u16 \<Rightarrow> bytes" un_le 2
  by unfold_locales (auto simp: un_le_le_full le_un_le)

interpretation le32: codec "le 4 :: u32 \<Rightarrow> bytes" un_le 4
  by unfold_locales (auto simp: un_le_le_full le_un_le)

interpretation le64: codec "le 8 :: u64 \<Rightarrow> bytes" un_le 8
  by unfold_locales (auto simp: un_le_le_full le_un_le)

lemmas le_codecs [codec_simps] =
  le16.dec_enc le16.enc_dec le32.dec_enc le32.enc_dec le64.dec_enc le64.enc_dec length_le

end
