(* ===== verification/Crc32.thy ===== *)
theory Crc32
  imports Prelude
begin

text \<open>
  The checksum of the file format, \<open>crc32.hpp\<close>: the table of the 256 byte remainders and the
  table-driven update, the bit-serial definition it stands for, and the errors it detects. The
  interface \<open>burst_checksum\<close> is what the log format relies on.
\<close>

section \<open>The code\<close>

definition crc32_poly :: u32 where
  "crc32_poly = 0xEDB88320"

definition crc_bit :: "u32 \<Rightarrow> u32" where
  "crc_bit value = drop_bit 1 value XOR (if value AND 1 \<noteq> 0 then crc32_poly else 0)"

definition crc32_entry :: "nat \<Rightarrow> u32" where
  "crc32_entry index = (crc_bit ^^ 8) (word_of_nat index)"

definition crc32_table :: "u32 list" where
  "crc32_table = map crc32_entry [0..<256]"

primrec update_crc32 :: "u32 \<Rightarrow> bytes \<Rightarrow> u32" where
  "update_crc32 crc [] = crc"
| "update_crc32 crc (d # data) =
     update_crc32 (crc32_table ! unat ((crc XOR ucast d) AND 0xFF) XOR drop_bit 8 crc) data"

definition compute_crc32 :: "bytes \<Rightarrow> u32" where
  "compute_crc32 data = update_crc32 0xFFFFFFFF data XOR 0xFFFFFFFF"

definition compute_crc32_segments :: "bytes \<Rightarrow> bytes \<Rightarrow> u32" where
  "compute_crc32_segments first second =
     update_crc32 (update_crc32 0xFFFFFFFF first) second XOR 0xFFFFFFFF"

section \<open>One bit\<close>

lemma crc_bit_alt: "crc_bit v = drop_bit 1 v XOR (if bit v 0 then crc32_poly else 0)"
  by (simp add: crc_bit_def and_one_eq mod_2_eq_odd bit_0)

lemma bit_crc_bit:
  "bit (crc_bit v) k \<longleftrightarrow> bit v (Suc k) \<noteq> (bit v 0 \<and> bit crc32_poly k)"
  by (simp add: crc_bit_alt bit_xor_iff bit_drop_bit_eq)

lemma crc_bit_xor: "crc_bit (x XOR y) = crc_bit x XOR crc_bit y"
  by (rule bit_word_eqI) (auto simp: bit_crc_bit bit_xor_iff)

lemma crc_bit_0 [simp]: "crc_bit 0 = 0"
  by (simp add: crc_bit_alt)

lemma crc_bit_top: "bit (crc_bit x) 31 \<longleftrightarrow> bit x 0"
proof -
  have "bit crc32_poly 31" by (simp add: crc32_poly_def)
  moreover have "\<not> bit x (Suc 31)"
    using bit_imp_le_length [of x "Suc 31"] by auto
  ultimately show ?thesis by (simp only: bit_crc_bit) blast
qed

lemma crc_bit_inject: "crc_bit x = crc_bit y \<longleftrightarrow> x = y"
proof
  assume eq: "crc_bit x = crc_bit y"
  then have low: "bit x 0 = bit y 0" by (metis crc_bit_top)
  have "bit x (Suc k) = bit y (Suc k)" for k
    using low arg_cong [OF eq, of "\<lambda>w. bit w k"] by (auto simp: bit_crc_bit)
  with low have "bit x k = bit y k" for k
    by (cases k) auto
  then show "x = y" by (simp add: bit_word_eqI)
qed simp

lemma crc_bits_xor: "(crc_bit ^^ n) (x XOR y) = (crc_bit ^^ n) x XOR (crc_bit ^^ n) y"
  by (induction n arbitrary: x y) (simp_all add: crc_bit_xor)

lemma crc_bits_inject: "(crc_bit ^^ n) x = (crc_bit ^^ n) y \<longleftrightarrow> x = y"
  by (induction n arbitrary: x y) (simp_all add: crc_bit_inject)

section \<open>One byte\<close>

text \<open>
  Bits above the lowest eight only move down: a word whose low byte is zero is shifted.
\<close>

lemma crc_bits_shift: "n \<le> 31 \<Longrightarrow> (\<And>k. bit x k \<Longrightarrow> n \<le> k) \<Longrightarrow> (crc_bit ^^ n) x = drop_bit n x"
proof (induction n arbitrary: x)
  case 0
  then show ?case by simp
next
  case (Suc n)
  have low: "\<not> bit x 0" using Suc.prems(2) [of 0] by auto
  then have step: "crc_bit x = drop_bit 1 x" by (simp add: crc_bit_alt)
  have "(crc_bit ^^ n) (drop_bit 1 x) = drop_bit n (drop_bit 1 x)"
  proof (rule Suc.IH)
    show "n \<le> 31" using Suc.prems(1) by simp
    show "n \<le> k" if "bit (drop_bit 1 x) k" for k
      using that Suc.prems(2) [of "Suc k"] by (simp add: bit_drop_bit_eq)
  qed
  then show ?case
    by (simp only: funpow_Suc_right o_apply step) simp
qed

lemma crc_byte_shift: "(crc_bit ^^ 8) (push_bit 8 (y :: u32)) = drop_bit 8 (push_bit 8 y)"
  by (rule crc_bits_shift) (auto simp: bit_push_bit_iff)

lemma crc32_table_nth: "i < 256 \<Longrightarrow> crc32_table ! i = (crc_bit ^^ 8) (word_of_nat i)"
  by (simp add: crc32_table_def crc32_entry_def del: upt_Suc)

lemma mask_255: "(0xFF :: u32) = mask 8"
  by (simp add: mask_eq_exp_minus_1)

lemma low_byte: "unat (x AND 0xFF :: u32) < 256"
  using word_and_le1 [of x "0xFF"] by (simp add: word_le_nat_alt)

text \<open>The table look-up is eight steps of the bit-serial division.\<close>

lemma crc_byte_step:
  "crc32_table ! unat ((crc XOR ucast d) AND 0xFF) XOR drop_bit 8 crc = (crc_bit ^^ 8) (crc XOR ucast (d :: u8))"
proof -
  let ?x = "crc XOR ucast d :: u32"
  have split: "?x = (?x AND 0xFF) XOR push_bit 8 (drop_bit 8 crc)"
    by (rule bit_word_eqI)
      (auto simp: mask_255 bit_simps dest: bit_imp_le_length)
  have "(crc_bit ^^ 8) ?x = (crc_bit ^^ 8) (?x AND 0xFF) XOR (crc_bit ^^ 8) (push_bit 8 (drop_bit 8 crc))"
    by (subst split) (rule crc_bits_xor)
  moreover have "drop_bit 8 (push_bit 8 (drop_bit 8 crc)) = drop_bit 8 crc"
    by (rule bit_word_eqI) (auto simp: bit_simps dest: bit_imp_le_length)
  ultimately show ?thesis
    by (simp add: crc32_table_nth [OF low_byte] crc_byte_shift)
qed

section \<open>The whole message\<close>

text \<open>
  The reference definition: the polynomial division one bit at a time, with no table.
\<close>

primrec crc_serial :: "u32 \<Rightarrow> bytes \<Rightarrow> u32" where
  "crc_serial crc [] = crc"
| "crc_serial crc (d # data) = crc_serial ((crc_bit ^^ 8) (crc XOR ucast d)) data"

lemma update_crc32_serial: "update_crc32 crc data = crc_serial crc data"
  by (induction data arbitrary: crc) (simp_all only: update_crc32.simps crc_serial.simps crc_byte_step)

lemma crc_serial_append: "crc_serial crc (a @ b) = crc_serial (crc_serial crc a) b"
  by (induction a arbitrary: crc) simp_all

lemma compute_crc32_serial: "compute_crc32 data = crc_serial 0xFFFFFFFF data XOR 0xFFFFFFFF"
  by (simp add: compute_crc32_def update_crc32_serial)

lemma segments_append: "compute_crc32_segments a b = compute_crc32 (a @ b)"
  by (simp add: compute_crc32_segments_def compute_crc32_def update_crc32_serial crc_serial_append)

lemma xor_left_cancel: "(x :: u32) XOR y = x XOR z \<longleftrightarrow> y = z"
proof
  assume "x XOR y = x XOR z"
  then have "(x XOR x) XOR y = (x XOR x) XOR z" by (simp only: xor.assoc)
  then show "y = z" by simp
qed simp

lemma xor_right_cancel: "(y :: u32) XOR x = z XOR x \<longleftrightarrow> y = z"
  by (simp only: xor.commute [of _ x] xor_left_cancel)

text \<open>Both arguments of the state update can be recovered, so a difference never vanishes.\<close>

lemma crc_serial_inject_state: "crc_serial x data = crc_serial y data \<longleftrightarrow> x = y"
proof (induction data arbitrary: x y)
  case Nil
  show ?case by simp
next
  case (Cons d data)
  show ?case
    by (simp add: Cons.IH crc_bits_inject xor_right_cancel)
qed

text \<open>Up to four bytes at once are one word that enters the register together.\<close>

lemma crc_serial_word:
  "length data \<le> 4 \<Longrightarrow> crc_serial crc data = (crc_bit ^^ (8 * length data)) (crc XOR un_le data)"
proof (induction data arbitrary: crc)
  case Nil
  show ?case by simp
next
  case (Cons d data)
  let ?n = "8 * length data" and ?w = "un_le data :: u32"
  have fits: "drop_bit 8 (push_bit 8 ?w) = ?w"
    using Cons.prems
    by (intro bit_word_eqI) (auto simp: bit_simps dest: bit_un_le_bound bit_imp_le_length)
  have disjoint: "un_le (d # data) = ucast d XOR push_bit 8 ?w"
    by (rule bit_word_eqI) (auto simp: bit_simps dest: bit_imp_le_length)
  have "crc_serial crc (d # data) = (crc_bit ^^ ?n) ((crc_bit ^^ 8) (crc XOR ucast d) XOR ?w)"
    using Cons by simp
  also have "?w = (crc_bit ^^ 8) (push_bit 8 ?w)"
    by (simp add: crc_byte_shift fits)
  also have "(crc_bit ^^ 8) (crc XOR ucast d) XOR (crc_bit ^^ 8) (push_bit 8 ?w)
      = (crc_bit ^^ 8) (crc XOR un_le (d # data))"
    by (simp only: disjoint crc_bits_xor [symmetric] xor.assoc)
  finally show ?case
    by (simp only: length_Cons mult_Suc_right add.commute [of 8] funpow_add o_apply)
qed

lemma crc_serial_inject_burst:
  assumes "length u = length v" and "length u \<le> 4"
  shows "crc_serial crc u = crc_serial crc v \<longleftrightarrow> u = v"
proof -
  have "8 * length u \<le> LENGTH(32)" using assms(2) by simp
  then show ?thesis
    using assms un_le_inject [of u v, where 'a = 32]
    by (simp add: crc_serial_word crc_bits_inject xor_left_cancel)
qed

text \<open>
  Data followed by its own checksum leaves a constant in the register, so a burst that reaches
  over the boundary between the two is detected as well.
\<close>

lemma crc_serial_residue:
  assumes "length v = 4"
  shows "crc_serial crc v = (crc_bit ^^ 32) 0xFFFFFFFF \<longleftrightarrow> un_le v = crc XOR 0xFFFFFFFF"
proof -
  have "crc_serial crc v = (crc_bit ^^ 32) (crc XOR un_le v)"
    using crc_serial_word [of v crc] assms by simp
  then have "crc_serial crc v = (crc_bit ^^ 32) 0xFFFFFFFF \<longleftrightarrow> crc XOR un_le v = 0xFFFFFFFF"
    by (simp only: crc_bits_inject)
  also have "\<dots> \<longleftrightarrow> crc XOR un_le v = crc XOR (crc XOR 0xFFFFFFFF)"
    by (simp only: xor.assoc [symmetric] xor_self_eq xor.left_neutral)
  finally show ?thesis by (simp only: xor_left_cancel)
qed

lemma compute_crc32_residue:
  assumes "length v = 4"
  shows "un_le v = compute_crc32 data \<longleftrightarrow>
    crc_serial 0xFFFFFFFF (data @ v) = (crc_bit ^^ 32) 0xFFFFFFFF"
  using crc_serial_residue [OF assms, of "crc_serial 0xFFFFFFFF data"]
  by (simp only: compute_crc32_serial crc_serial_append)

lemma compute_crc32_residue_burst:
  assumes "length v = 4" and "length v' = 4" and "data @ v = p @ a @ s" and "data' @ v' = p @ b @ s"
    and "length a = length b" and "length a \<le> 4" and "a \<noteq> b"
    and "un_le v = compute_crc32 data"
  shows "un_le v' \<noteq> compute_crc32 data'"
  using assms(5-8) unfolding compute_crc32_residue [OF assms(1)] compute_crc32_residue [OF assms(2)]
    assms(3,4)
  by (metis crc_serial_append crc_serial_inject_burst crc_serial_inject_state)

section \<open>The interface the log format uses\<close>

text \<open>
  A checksum of byte strings that detects every change confined to four consecutive bytes:
  the writer stores it beside the data, and the scan and the recovery compare it.
\<close>

locale burst_checksum =
  fixes checksum :: "bytes \<Rightarrow> u32"
  assumes burst: "length u = length v \<Longrightarrow> length u \<le> 4 \<Longrightarrow>
    checksum (p @ u @ s) = checksum (p @ v @ s) \<longleftrightarrow> u = v"
begin

lemma same_checksum_differs_wide:
  assumes "checksum (p @ u @ s) = checksum (p @ v @ s)" and "length u = length v" and "u \<noteq> v"
  shows "4 < length u"
  using assms burst [of u v p s] by (cases "length u \<le> 4") auto

lemma one_byte_detected:
  assumes "i < length data" and "b \<noteq> data ! i"
  shows "checksum (data[i := b]) \<noteq> checksum data"
proof -
  have "data = take i data @ [data ! i] @ drop (Suc i) data"
    using assms(1) by (simp add: id_take_nth_drop)
  moreover have "data[i := b] = take i data @ [b] @ drop (Suc i) data"
    using assms(1) by (simp add: upd_conv_take_nth_drop)
  ultimately show ?thesis
    using burst [of "[b]" "[data ! i]" "take i data" "drop (Suc i) data"] assms(2) by force
qed

end

interpretation crc32: burst_checksum compute_crc32
proof
  fix u v p s :: bytes
  assume "length u = length v" and "length u \<le> 4"
  then show "compute_crc32 (p @ u @ s) = compute_crc32 (p @ v @ s) \<longleftrightarrow> u = v"
    by (simp add: compute_crc32_serial crc_serial_append crc_serial_inject_state
        crc_serial_inject_burst xor_right_cancel)
qed

section \<open>Properties\<close>

text \<open>C1. The table-driven checksum of the source is the bit-serial division by the reflected
  polynomial, and checksumming two segments in turn is checksumming their concatenation: the
  record checksum over header and payload is the checksum of the 80 bytes as they lie in the log.\<close>

theorem table_driven_crc:
  "compute_crc32 data = crc_serial 0xFFFFFFFF data XOR 0xFFFFFFFF \<and>
   compute_crc32_segments first second = compute_crc32 (first @ second)"
  by (simp add: compute_crc32_serial segments_append)

text \<open>C2. Two messages that differ only within four consecutive bytes have different checksums.\<close>

theorem crc_detects_bursts:
  assumes "length u = length v" and "length u \<le> 4" and "u \<noteq> v"
  shows "compute_crc32 (p @ u @ s) \<noteq> compute_crc32 (p @ v @ s)"
  using assms crc32.burst by blast

theorem crc_detects_bursts_witness:
  "compute_crc32 ([1, 2] @ [3, 4] @ [5]) \<noteq> compute_crc32 ([1, 2] @ [3, 5] @ [5])"
  by (rule crc_detects_bursts) simp_all

text \<open>The published check value of this checksum, the digits 1 to 9.\<close>

lemma crc_byte_unfold:
  "(crc_bit ^^ 8) x = crc_bit (crc_bit (crc_bit (crc_bit (crc_bit (crc_bit (crc_bit (crc_bit x)))))))"
  by (simp add: eval_nat_numeral)

lemma crc_check_value:
  "compute_crc32 [0x31, 0x32, 0x33, 0x34, 0x35, 0x36, 0x37, 0x38, 0x39] = 0xCBF43926"
  unfolding compute_crc32_serial crc_serial.simps crc_byte_unfold
  by (simp add: crc_bit_def crc32_poly_def)

end
