(* ===== verification/Log_Format.thy ===== *)
theory Log_Format
  imports Crc32
begin

text \<open>
  The on-disk layout, \<open>log_format.hpp\<close> and \<open>flight_record.hpp\<close>: the packed structs with their
  byte encodings, the checksums over them and the validity of a checkpoint slot. Each struct is
  an interpretation of the codec interface, so what is read back is what was written.
\<close>

section \<open>Run-time records\<close>

definition StatusNominal :: u32 where "StatusNominal = push_bit 0 1"
definition StatusEngineWarning :: u32 where "StatusEngineWarning = push_bit 1 1"
definition StatusLowOilPressure :: u32 where "StatusLowOilPressure = push_bit 2 1"
definition StatusPitotDisagree :: u32 where "StatusPitotDisagree = push_bit 3 1"
definition StatusRecorderBufferOverrun :: u32 where "StatusRecorderBufferOverrun = push_bit 4 1"
definition StatusSensorGlitch :: u32 where "StatusSensorGlitch = push_bit 5 1"
definition StatusAltitudeDeviation :: u32 where "StatusAltitudeDeviation = push_bit 6 1"
definition StatusFlightPhaseTransition :: u32 where "StatusFlightPhaseTransition = push_bit 7 1"

record flight_record =
  timestamp_us :: u64
  altitude_m :: f64
  airspeed_kts :: f64
  heading_deg :: f64
  vertical_speed_fpm :: f64
  engine_temperature_c :: f64
  engine_rpm :: f64
  system_status :: u32

text \<open>The default member initialisers: every number is zero, the status nominal.\<close>

definition default_flight_record :: flight_record where
  "default_flight_record = \<lparr>timestamp_us = 0, altitude_m = 0, airspeed_kts = 0, heading_deg = 0,
     vertical_speed_fpm = 0, engine_temperature_c = 0, engine_rpm = 0, system_status = StatusNominal\<rparr>"

section \<open>Packed structs\<close>

record persisted_file_header =
  fh_magic :: u32
  fh_version :: u16
  fh_header_size :: u16
  fh_recorder_start_time_us :: u64
  fh_record_size :: u32
  fh_header_crc32 :: u32

record persisted_flight_payload =
  pl_altitude_m :: f64
  pl_airspeed_kts :: f64
  pl_heading_deg :: f64
  pl_vertical_speed_fpm :: f64
  pl_engine_temperature_c :: f64
  pl_engine_rpm :: f64
  pl_system_status :: u32

record persisted_record_header =
  rh_magic :: u32
  rh_version :: u16
  rh_header_size :: u16
  rh_payload_size :: u32
  rh_sequence :: u64
  rh_timestamp_us :: u64

record persisted_journal_entry =
  je_magic :: u32
  je_version :: u16
  je_header_size :: u16
  je_state :: u32
  je_entry_size :: u32
  je_sequence :: u64
  je_record_header :: persisted_record_header
  je_payload :: persisted_flight_payload
  je_record_crc32 :: u32
  je_journal_crc32 :: u32

record persisted_checkpoint_slot =
  ck_magic :: u32
  ck_version :: u16
  ck_slot_size :: u16
  ck_generation :: u64
  ck_recorder_start_time_us :: u64
  ck_committed_length :: u64
  ck_record_count :: u64
  ck_last_sequence :: u64
  ck_checkpoint_crc32 :: u32

text \<open>The sizes the \<open>static_assert\<close>s state.\<close>

definition sizeof_file_header :: nat where [simp]: "sizeof_file_header = 24"
definition sizeof_payload :: nat where [simp]: "sizeof_payload = 52"
definition sizeof_record_header :: nat where [simp]: "sizeof_record_header = 28"
definition sizeof_journal_entry :: nat where [simp]: "sizeof_journal_entry = 112"
definition sizeof_checkpoint_slot :: nat where [simp]: "sizeof_checkpoint_slot = 52"

section \<open>Format constants\<close>

named_theorems format_consts \<open>values of the format constants\<close>

definition kLogFileMagic :: u32 where [format_consts]: "kLogFileMagic = 0x464C4F47"
definition kLogRecordMagic :: u32 where [format_consts]: "kLogRecordMagic = 0x46524344"
definition kJournalMagic :: u32 where [format_consts]: "kJournalMagic = 0x464A4E4C"
definition kLogFormatVersion :: u16 where [format_consts]: "kLogFormatVersion = 1"
definition kJournalStatePending :: u32 where [format_consts]: "kJournalStatePending = 1"
definition kCheckpointJournalVersion :: u16 where [format_consts]: "kCheckpointJournalVersion = 2"
definition kCheckpointSlotCount :: nat where [simp]: "kCheckpointSlotCount = 2"
definition kCheckpointJournalSize :: nat where
  [simp]: "kCheckpointJournalSize = kCheckpointSlotCount * sizeof_checkpoint_slot"
definition kPersistedRecordSize :: nat where
  [simp]: "kPersistedRecordSize = sizeof_record_header + sizeof_payload + 4"

section \<open>Memory layout\<close>

definition field :: "nat \<Rightarrow> nat \<Rightarrow> bytes \<Rightarrow> 'a::len word" where
  "field n off bs = un_le (take n (drop off bs))"

definition enc_file_header :: "persisted_file_header \<Rightarrow> bytes" where
  "enc_file_header h = le 4 (fh_magic h) @ le 2 (fh_version h) @ le 2 (fh_header_size h) @
     le 8 (fh_recorder_start_time_us h) @ le 4 (fh_record_size h) @ le 4 (fh_header_crc32 h)"

definition dec_file_header :: "bytes \<Rightarrow> persisted_file_header" where
  "dec_file_header bs = \<lparr>fh_magic = field 4 0 bs, fh_version = field 2 4 bs,
     fh_header_size = field 2 6 bs, fh_recorder_start_time_us = field 8 8 bs,
     fh_record_size = field 4 16 bs, fh_header_crc32 = field 4 20 bs\<rparr>"

definition enc_payload :: "persisted_flight_payload \<Rightarrow> bytes" where
  "enc_payload p = le 8 (pl_altitude_m p) @ le 8 (pl_airspeed_kts p) @ le 8 (pl_heading_deg p) @
     le 8 (pl_vertical_speed_fpm p) @ le 8 (pl_engine_temperature_c p) @ le 8 (pl_engine_rpm p) @
     le 4 (pl_system_status p)"

definition dec_payload :: "bytes \<Rightarrow> persisted_flight_payload" where
  "dec_payload bs = \<lparr>pl_altitude_m = field 8 0 bs, pl_airspeed_kts = field 8 8 bs,
     pl_heading_deg = field 8 16 bs, pl_vertical_speed_fpm = field 8 24 bs,
     pl_engine_temperature_c = field 8 32 bs, pl_engine_rpm = field 8 40 bs,
     pl_system_status = field 4 48 bs\<rparr>"

definition enc_record_header :: "persisted_record_header \<Rightarrow> bytes" where
  "enc_record_header h = le 4 (rh_magic h) @ le 2 (rh_version h) @ le 2 (rh_header_size h) @
     le 4 (rh_payload_size h) @ le 8 (rh_sequence h) @ le 8 (rh_timestamp_us h)"

definition dec_record_header :: "bytes \<Rightarrow> persisted_record_header" where
  "dec_record_header bs = \<lparr>rh_magic = field 4 0 bs, rh_version = field 2 4 bs,
     rh_header_size = field 2 6 bs, rh_payload_size = field 4 8 bs,
     rh_sequence = field 8 12 bs, rh_timestamp_us = field 8 20 bs\<rparr>"

definition enc_journal_entry :: "persisted_journal_entry \<Rightarrow> bytes" where
  "enc_journal_entry e = le 4 (je_magic e) @ le 2 (je_version e) @ le 2 (je_header_size e) @
     le 4 (je_state e) @ le 4 (je_entry_size e) @ le 8 (je_sequence e) @
     enc_record_header (je_record_header e) @ enc_payload (je_payload e) @
     le 4 (je_record_crc32 e) @ le 4 (je_journal_crc32 e)"

definition dec_journal_entry :: "bytes \<Rightarrow> persisted_journal_entry" where
  "dec_journal_entry bs = \<lparr>je_magic = field 4 0 bs, je_version = field 2 4 bs,
     je_header_size = field 2 6 bs, je_state = field 4 8 bs, je_entry_size = field 4 12 bs,
     je_sequence = field 8 16 bs, je_record_header = dec_record_header (take 28 (drop 24 bs)),
     je_payload = dec_payload (take 52 (drop 52 bs)), je_record_crc32 = field 4 104 bs,
     je_journal_crc32 = field 4 108 bs\<rparr>"

definition enc_checkpoint_slot :: "persisted_checkpoint_slot \<Rightarrow> bytes" where
  "enc_checkpoint_slot s = le 4 (ck_magic s) @ le 2 (ck_version s) @ le 2 (ck_slot_size s) @
     le 8 (ck_generation s) @ le 8 (ck_recorder_start_time_us s) @ le 8 (ck_committed_length s) @
     le 8 (ck_record_count s) @ le 8 (ck_last_sequence s) @ le 4 (ck_checkpoint_crc32 s)"

definition dec_checkpoint_slot :: "bytes \<Rightarrow> persisted_checkpoint_slot" where
  "dec_checkpoint_slot bs = \<lparr>ck_magic = field 4 0 bs, ck_version = field 2 4 bs,
     ck_slot_size = field 2 6 bs, ck_generation = field 8 8 bs,
     ck_recorder_start_time_us = field 8 16 bs, ck_committed_length = field 8 24 bs,
     ck_record_count = field 8 32 bs, ck_last_sequence = field 8 40 bs,
     ck_checkpoint_crc32 = field 4 48 bs\<rparr>"

text \<open>A record as it lies in the log: its header, its payload and the checksum of the two.\<close>

type_synonym log_frame = "persisted_record_header \<times> persisted_flight_payload \<times> u32"

definition enc_frame :: "log_frame \<Rightarrow> bytes" where
  "enc_frame f = (case f of (header, payload, crc) \<Rightarrow>
     enc_record_header header @ enc_payload payload @ le 4 crc)"

definition dec_frame :: "bytes \<Rightarrow> log_frame" where
  "dec_frame bs = (dec_record_header (take 28 bs), dec_payload (take 52 (drop 28 bs)), field 4 80 bs)"

lemma le_field_within:
  "off + n \<le> length bs \<Longrightarrow> 8 * n \<le> LENGTH('a::len) \<Longrightarrow>
    le n (field n off bs :: 'a word) = take n (drop off bs)"
  by (simp add: field_def le_un_le)

lemma slice_join: "q = p + a \<Longrightarrow> take a (drop p bs) @ drop q bs = drop p bs"
  by (simp add: take_drop_append_drop)

lemmas enc_defs = enc_file_header_def enc_payload_def enc_record_header_def
  enc_journal_entry_def enc_checkpoint_slot_def
lemmas dec_defs = dec_file_header_def dec_payload_def dec_record_header_def
  dec_journal_entry_def dec_checkpoint_slot_def

interpretation fhc: codec enc_file_header dec_file_header 24
proof
  show "length (enc_file_header x) = 24" for x by (simp add: enc_defs)
  show "dec_file_header (enc_file_header x) = x" for x
    by (simp add: enc_defs dec_defs field_def un_le_le_full)
  show "enc_file_header (dec_file_header bs) = bs" if "length bs = 24" for bs
    using that by (simp add: enc_defs dec_defs le_field_within slice_join)
qed

interpretation plc: codec enc_payload dec_payload 52
proof
  show "length (enc_payload x) = 52" for x by (simp add: enc_defs)
  show "dec_payload (enc_payload x) = x" for x
    by (simp add: enc_defs dec_defs field_def un_le_le_full)
  show "enc_payload (dec_payload bs) = bs" if "length bs = 52" for bs
    using that by (simp add: enc_defs dec_defs le_field_within slice_join)
qed

interpretation rhc: codec enc_record_header dec_record_header 28
proof
  show "length (enc_record_header x) = 28" for x by (simp add: enc_defs)
  show "dec_record_header (enc_record_header x) = x" for x
    by (simp add: enc_defs dec_defs field_def un_le_le_full)
  show "enc_record_header (dec_record_header bs) = bs" if "length bs = 28" for bs
    using that by (simp add: enc_defs dec_defs le_field_within slice_join)
qed

interpretation ckc: codec enc_checkpoint_slot dec_checkpoint_slot 52
proof
  show "length (enc_checkpoint_slot x) = 52" for x by (simp add: enc_defs)
  show "dec_checkpoint_slot (enc_checkpoint_slot x) = x" for x
    by (simp add: enc_defs dec_defs field_def un_le_le_full)
  show "enc_checkpoint_slot (dec_checkpoint_slot bs) = bs" if "length bs = 52" for bs
    using that by (simp add: enc_defs dec_defs le_field_within slice_join)
qed

interpretation jec: codec enc_journal_entry dec_journal_entry 112
proof
  show "length (enc_journal_entry x) = 112" for x
    by (simp add: enc_journal_entry_def rhc.enc_length plc.enc_length)
  show "dec_journal_entry (enc_journal_entry x) = x" for x
    by (simp add: enc_journal_entry_def dec_journal_entry_def field_def un_le_le_full
        rhc.enc_length plc.enc_length rhc.dec_enc plc.dec_enc)
  show "enc_journal_entry (dec_journal_entry bs) = bs" if "length bs = 112" for bs
    using that by (simp add: enc_journal_entry_def dec_journal_entry_def le_field_within slice_join
        rhc.enc_dec plc.enc_dec)
qed

interpretation frc: codec enc_frame dec_frame 84
proof
  show "length (enc_frame x) = 84" for x
    by (simp add: enc_frame_def rhc.enc_length plc.enc_length split: prod.splits)
  show "dec_frame (enc_frame x) = x" for x
    by (simp add: enc_frame_def dec_frame_def field_def un_le_le_full rhc.enc_length plc.enc_length
        rhc.dec_enc plc.dec_enc split: prod.splits)
  show "enc_frame (dec_frame bs) = bs" if "length bs = 84" for bs
    using that by (simp add: enc_frame_def dec_frame_def le_field_within slice_join
        rhc.enc_dec plc.enc_dec)
qed

lemmas enc_lengths [codec_simps] = fhc.enc_length plc.enc_length rhc.enc_length ckc.enc_length
  jec.enc_length frc.enc_length
lemmas dec_encs [codec_simps] = fhc.dec_enc plc.dec_enc rhc.dec_enc ckc.dec_enc jec.dec_enc frc.dec_enc

section \<open>Operations\<close>

definition make_persisted_payload :: "flight_record \<Rightarrow> persisted_flight_payload" where
  "make_persisted_payload record = \<lparr>pl_altitude_m = altitude_m record,
     pl_airspeed_kts = airspeed_kts record, pl_heading_deg = heading_deg record,
     pl_vertical_speed_fpm = vertical_speed_fpm record,
     pl_engine_temperature_c = engine_temperature_c record,
     pl_engine_rpm = engine_rpm record, pl_system_status = system_status record\<rparr>"

definition make_runtime_record ::
  "persisted_record_header \<Rightarrow> persisted_flight_payload \<Rightarrow> flight_record" where
  "make_runtime_record header payload = \<lparr>timestamp_us = rh_timestamp_us header,
     altitude_m = pl_altitude_m payload, airspeed_kts = pl_airspeed_kts payload,
     heading_deg = pl_heading_deg payload, vertical_speed_fpm = pl_vertical_speed_fpm payload,
     engine_temperature_c = pl_engine_temperature_c payload,
     engine_rpm = pl_engine_rpm payload, system_status = pl_system_status payload\<rparr>"

definition compute_file_header_crc :: "persisted_file_header \<Rightarrow> u32" where
  "compute_file_header_crc header = compute_crc32 (enc_file_header (header\<lparr>fh_header_crc32 := 0\<rparr>))"

definition compute_record_crc :: "persisted_record_header \<Rightarrow> persisted_flight_payload \<Rightarrow> u32" where
  "compute_record_crc header payload =
     compute_crc32_segments (enc_record_header header) (enc_payload payload)"

definition compute_journal_crc :: "persisted_journal_entry \<Rightarrow> u32" where
  "compute_journal_crc entry = compute_crc32 (enc_journal_entry (entry\<lparr>je_journal_crc32 := 0\<rparr>))"

definition compute_checkpoint_crc :: "persisted_checkpoint_slot \<Rightarrow> u32" where
  "compute_checkpoint_crc slot = compute_crc32 (enc_checkpoint_slot (slot\<lparr>ck_checkpoint_crc32 := 0\<rparr>))"

definition checkpoint_metadata_valid :: "persisted_checkpoint_slot \<Rightarrow> bool" where
  "checkpoint_metadata_valid slot \<longleftrightarrow>
     ck_magic slot = kJournalMagic \<and>
     ck_version slot = kCheckpointJournalVersion \<and>
     ck_slot_size slot = word_of_nat sizeof_checkpoint_slot \<and>
     ck_generation slot \<noteq> 0 \<and>
     compute_checkpoint_crc slot = ck_checkpoint_crc32 slot"

section \<open>What the writer puts in a log\<close>

definition new_file_header :: "u64 \<Rightarrow> persisted_file_header" where
  "new_file_header start_time =
    (let header = \<lparr>fh_magic = kLogFileMagic, fh_version = kLogFormatVersion,
           fh_header_size = word_of_nat sizeof_file_header, fh_recorder_start_time_us = start_time,
           fh_record_size = word_of_nat kPersistedRecordSize, fh_header_crc32 = 0\<rparr>
     in header\<lparr>fh_header_crc32 := compute_file_header_crc header\<rparr>)"

definition make_frame :: "flight_record \<Rightarrow> u64 \<Rightarrow> log_frame" where
  "make_frame record sequence =
    (let payload = make_persisted_payload record;
         header = \<lparr>rh_magic = kLogRecordMagic, rh_version = kLogFormatVersion,
           rh_header_size = word_of_nat sizeof_record_header,
           rh_payload_size = word_of_nat sizeof_payload, rh_sequence = sequence,
           rh_timestamp_us = timestamp_us record\<rparr>
     in (header, payload, compute_record_crc header payload))"

definition seal_slot :: "persisted_checkpoint_slot \<Rightarrow> persisted_checkpoint_slot" where
  "seal_slot slot = slot\<lparr>ck_checkpoint_crc32 := compute_checkpoint_crc slot\<rparr>"

definition make_slot :: "u64 \<Rightarrow> u64 \<Rightarrow> u64 \<Rightarrow> u64 \<Rightarrow> u64 \<Rightarrow> persisted_checkpoint_slot" where
  "make_slot generation start_time committed_length record_count last_sequence =
    seal_slot \<lparr>ck_magic = kJournalMagic, ck_version = kCheckpointJournalVersion,
      ck_slot_size = word_of_nat sizeof_checkpoint_slot, ck_generation = generation,
      ck_recorder_start_time_us = start_time, ck_committed_length = committed_length,
      ck_record_count = record_count, ck_last_sequence = last_sequence, ck_checkpoint_crc32 = 0\<rparr>"

lemma compute_file_header_crc_sealed [simp]:
  "compute_file_header_crc (h\<lparr>fh_header_crc32 := c\<rparr>) = compute_file_header_crc h"
  by (simp add: compute_file_header_crc_def)

lemma compute_checkpoint_crc_sealed [simp]:
  "compute_checkpoint_crc (slot\<lparr>ck_checkpoint_crc32 := c\<rparr>) = compute_checkpoint_crc slot"
  by (simp add: compute_checkpoint_crc_def)

lemma make_slot_fields [simp]:
  "ck_generation (make_slot g t c n q) = g" "ck_recorder_start_time_us (make_slot g t c n q) = t"
  "ck_committed_length (make_slot g t c n q) = c" "ck_record_count (make_slot g t c n q) = n"
  "ck_last_sequence (make_slot g t c n q) = q"
  by (simp_all add: make_slot_def seal_slot_def)

lemma make_slot_valid [simp]: "checkpoint_metadata_valid (make_slot g t c n q) \<longleftrightarrow> g \<noteq> 0"
  by (auto simp: checkpoint_metadata_valid_def make_slot_def seal_slot_def compute_checkpoint_crc_def)

section \<open>Damaged slots\<close>

lemma slot_crc_bytes:
  assumes "length bs = 52"
  shows "compute_checkpoint_crc (dec_checkpoint_slot bs) = compute_crc32 (take 48 bs @ [0, 0, 0, 0])"
proof -
  have "enc_checkpoint_slot ((dec_checkpoint_slot bs)\<lparr>ck_checkpoint_crc32 := 0\<rparr>) =
      take 48 (enc_checkpoint_slot (dec_checkpoint_slot bs)) @ [0, 0, 0, 0]"
    by (simp add: enc_checkpoint_slot_def eval_nat_numeral)
  then show ?thesis by (simp add: compute_checkpoint_crc_def ckc.enc_dec [OF assms])
qed

lemma slot_crc_field: "ck_checkpoint_crc32 (dec_checkpoint_slot bs) = un_le (take 4 (drop 48 bs))"
  by (simp add: dec_checkpoint_slot_def field_def)

lemma slot_burst_detected:
  assumes "checkpoint_metadata_valid slot" and "enc_checkpoint_slot slot = p @ a @ s"
    and "length b = length a" and "length a \<le> 4" and "b \<noteq> a"
    and "length p + length a \<le> 48 \<or> 48 \<le> length p"
  shows "\<not> checkpoint_metadata_valid (dec_checkpoint_slot (p @ b @ s))"
proof -
  let ?x = "p @ a @ s" and ?y = "p @ b @ s"
  have x: "length ?x = 52" using ckc.enc_length [of slot] assms(2) by simp
  then have y: "length ?y = 52" using assms(3) by simp
  have slot: "slot = dec_checkpoint_slot ?x" using assms(2) by (metis ckc.dec_enc)
  have valid: "compute_crc32 (take 48 ?x @ [0, 0, 0, 0]) = un_le (take 4 (drop 48 ?x))"
    using assms(1) unfolding slot checkpoint_metadata_valid_def slot_crc_bytes [OF x] slot_crc_field by blast
  have "compute_crc32 (take 48 ?y @ [0, 0, 0, 0]) \<noteq> un_le (take 4 (drop 48 ?y))"
    using assms(6)
  proof
    assume in_data: "length p + length a \<le> 48"
    then have cut: "take 48 (p @ u @ s) = p @ u @ take (48 - length p - length a) s"
      "drop 48 (p @ u @ s) = drop (48 - length p - length a) s" if "length u = length a" for u
      using that by simp_all
    show ?thesis
      using valid crc32.burst [of b a p "take (48 - length p - length a) s @ [0, 0, 0, 0]"] assms(3-5)
      unfolding cut [OF assms(3)] cut [OF refl] append_assoc by auto
  next
    assume in_crc: "48 \<le> length p"
    then have cut: "take 48 (p @ u @ s) = take 48 p" "drop 48 (p @ u @ s) = drop 48 p @ u @ s" for u
      by simp_all
    have "length (drop 48 p @ a @ s) = 4" "length (drop 48 p @ b @ s) = 4"
      using x y in_crc by simp_all
    then have "(un_le (drop 48 p @ a @ s) :: u32) \<noteq> un_le (drop 48 p @ b @ s)"
      using assms(5) by (subst un_le_inject) auto
    then show ?thesis
      using valid x y in_crc unfolding cut by auto
  qed
  then show ?thesis
    unfolding checkpoint_metadata_valid_def slot_crc_bytes [OF y] slot_crc_field by blast
qed

section \<open>Properties\<close>


text \<open>A run-time record goes through the log unchanged: the header and payload bytes written
  for it decode to the same record, whatever its floating-point values.\<close>

theorem record_round_trip:
  "make_runtime_record
     (dec_record_header (take 28 (enc_frame (make_frame record sequence))))
     (dec_payload (take 52 (drop 28 (enc_frame (make_frame record sequence))))) = record"
  by (simp add: make_frame_def enc_frame_def Let_def codec_simps make_runtime_record_def
      make_persisted_payload_def)



end
