(* ===== verification/Ring_Buffer.thy ===== *)
theory Ring_Buffer
  imports Log_Format
begin

text \<open>
  The bounded single-producer, single-consumer queue of \<open>circular_buffer.hpp\<close>, one operation at
  a time: this theory runs each operation without interference, \<open>Ring_Concurrent\<close> interleaves
  their accesses. The two cursors are 64-bit counters that are only ever incremented; their
  difference is the number of records in the queue and a cursor modulo the capacity is a slot.
\<close>

section \<open>State\<close>

record ring =
  rb_capacity :: u64
  rb_storage :: "flight_record list"
  rb_tail :: u64
  rb_head :: u64
  rb_dropped_records :: u64
  rb_high_watermark :: u64
  rb_closed :: bool

datatype push_status = Pushed | Push_Timeout | Push_Closed

datatype pop_status = Popped | Pop_Timeout | Pop_Closed

record ring_stats =
  rs_dropped_records :: u64
  rs_current_size :: u64
  rs_high_watermark :: u64

definition make_ring :: "u64 \<Rightarrow> ring" where
  "make_ring capacity = \<lparr>rb_capacity = capacity,
     rb_storage = replicate (unat capacity) default_flight_record, rb_tail = 0, rb_head = 0,
     rb_dropped_records = 0, rb_high_watermark = 0, rb_closed = False\<rparr>"

definition slot_index :: "ring \<Rightarrow> u64 \<Rightarrow> nat" where
  "slot_index r cursor = unat (cursor mod rb_capacity r)"

definition ring_empty :: "ring \<Rightarrow> bool" where
  "ring_empty r \<longleftrightarrow> rb_head r = rb_tail r"

definition ring_full :: "ring \<Rightarrow> bool" where
  "ring_full r \<longleftrightarrow> rb_capacity r \<le> rb_tail r - rb_head r"

definition update_high_watermark :: "u64 \<Rightarrow> ring \<Rightarrow> ring" where
  "update_high_watermark occupied r =
    (if rb_high_watermark r < occupied then r\<lparr>rb_high_watermark := occupied\<rparr> else r)"

section \<open>Operations\<close>

definition try_push :: "flight_record \<Rightarrow> ring \<Rightarrow> push_status \<times> ring" where
  "try_push record r =
    (if rb_closed r then (Push_Closed, r)
     else
     let tail = rb_tail r; head = rb_head r in
     if rb_capacity r \<le> tail - head then (Push_Timeout, r)
     else (Pushed, update_high_watermark (tail + 1 - head)
       (r\<lparr>rb_storage := (rb_storage r)[slot_index r tail := record], rb_tail := tail + 1\<rparr>)))"

text \<open>\<open>out\<close> is the caller's variable, which only a successful call assigns.\<close>

definition try_pop_status :: "flight_record \<Rightarrow> ring \<Rightarrow> pop_status \<times> flight_record \<times> ring" where
  "try_pop_status out r =
    (let head = rb_head r; tail = rb_tail r in
     if head = tail then (if rb_closed r then Pop_Closed else Pop_Timeout, out, r)
     else (Popped, rb_storage r ! slot_index r head, r\<lparr>rb_head := head + 1\<rparr>))"

definition try_pop :: "flight_record \<Rightarrow> ring \<Rightarrow> bool \<times> flight_record \<times> ring" where
  "try_pop out r = (case try_pop_status out r of (status, out', r') \<Rightarrow> (status = Popped, out', r'))"

definition try_pop_batch :: "u64 \<Rightarrow> ring \<Rightarrow> flight_record list \<times> ring" where
  "try_pop_batch max_records r =
    (if max_records = 0 then ([], r)
     else
     let head = rb_head r; tail = rb_tail r; count = min max_records (tail - head) in
     (map (\<lambda>index. rb_storage r ! slot_index r (head + word_of_nat index)) [0..<unat count],
      if count \<noteq> 0 then r\<lparr>rb_head := head + count\<rparr> else r))"

definition close_ring :: "ring \<Rightarrow> ring" where
  "close_ring r = r\<lparr>rb_closed := True\<rparr>"

definition reset_ring :: "ring \<Rightarrow> ring" where
  "reset_ring r = r\<lparr>rb_head := 0, rb_tail := 0, rb_dropped_records := 0, rb_high_watermark := 0,
     rb_closed := False\<rparr>"

definition ring_statistics :: "ring \<Rightarrow> ring_stats" where
  "ring_statistics r = \<lparr>rs_dropped_records = rb_dropped_records r,
     rs_current_size = rb_tail r - rb_head r, rs_high_watermark = rb_high_watermark r\<rparr>"

section \<open>Waiting\<close>

text \<open>
  What the other threads do to the queue while a caller waits on a condition variable. A waiting
  call gets one list of moves for each time it waits; the wait ends with its predicate evaluated
  on the queue they leave. A blocking call that is never woken does not return: \<open>None\<close>.
\<close>

datatype ring_move = Push_Move flight_record | Pop_Move | Batch_Move u64 | Close_Move

datatype ring_reply =
    Push_Reply push_status
  | Pop_Reply pop_status flight_record
  | Batch_Reply "flight_record list"
  | Close_Reply

fun ring_step :: "ring_move \<Rightarrow> ring \<Rightarrow> ring_reply \<times> ring" where
  "ring_step (Push_Move record) r = (case try_push record r of (status, r') \<Rightarrow> (Push_Reply status, r'))"
| "ring_step Pop_Move r =
     (case try_pop_status default_flight_record r of (status, out, r') \<Rightarrow> (Pop_Reply status out, r'))"
| "ring_step (Batch_Move max_records) r =
     (case try_pop_batch max_records r of (out, r') \<Rightarrow> (Batch_Reply out, r'))"
| "ring_step Close_Move r = (Close_Reply, close_ring r)"

primrec run_ring :: "ring_move list \<Rightarrow> ring \<Rightarrow> ring_reply list \<times> ring" where
  "run_ring [] r = ([], r)"
| "run_ring (m # ms) r = (case ring_step m r of (reply, r1) \<Rightarrow>
     case run_ring ms r1 of (replies, r2) \<Rightarrow> (reply # replies, r2))"

definition meanwhile :: "ring_move list \<Rightarrow> ring \<Rightarrow> ring" where
  "meanwhile ms r = snd (run_ring ms r)"

fun push_blocking :: "flight_record \<Rightarrow> ring_move list list \<Rightarrow> ring \<Rightarrow> (push_status \<times> ring) option" where
  "push_blocking record waits r =
    (case try_push record r of (status, r1) \<Rightarrow>
     if status \<noteq> Push_Timeout then Some (status, r1)
     else (case waits of
         [] \<Rightarrow> None
       | moves # waits' \<Rightarrow>
           let r2 = meanwhile moves r1 in
           if rb_closed r2 \<or> \<not> ring_full r2 then push_blocking record waits' r2 else None))"

fun push_wait_for :: "flight_record \<Rightarrow> ring_move list list \<Rightarrow> ring \<Rightarrow> push_status \<times> ring" where
  "push_wait_for record waits r =
    (case try_push record r of (status, r1) \<Rightarrow>
     if status \<noteq> Push_Timeout then (status, r1)
     else (case waits of
         [] \<Rightarrow> (Push_Timeout, r1\<lparr>rb_dropped_records := rb_dropped_records r1 + 1\<rparr>)
       | moves # waits' \<Rightarrow>
           let r2 = meanwhile moves r1 in
           if rb_closed r2 \<or> \<not> ring_full r2 then push_wait_for record waits' r2
           else (Push_Timeout, r2\<lparr>rb_dropped_records := rb_dropped_records r2 + 1\<rparr>)))"

fun pop_blocking :: "flight_record \<Rightarrow> ring_move list list \<Rightarrow> ring \<Rightarrow>
    (pop_status \<times> flight_record \<times> ring) option" where
  "pop_blocking out waits r =
    (case try_pop_status out r of (status, out1, r1) \<Rightarrow>
     if status \<noteq> Pop_Timeout then Some (status, out1, r1)
     else (case waits of
         [] \<Rightarrow> None
       | moves # waits' \<Rightarrow>
           let r2 = meanwhile moves r1 in
           if rb_closed r2 \<or> \<not> ring_empty r2 then pop_blocking out1 waits' r2 else None))"

fun pop_wait_for :: "flight_record \<Rightarrow> ring_move list list \<Rightarrow> ring \<Rightarrow>
    pop_status \<times> flight_record \<times> ring" where
  "pop_wait_for out waits r =
    (case try_pop_status out r of (status, out1, r1) \<Rightarrow>
     if status \<noteq> Pop_Timeout then (status, out1, r1)
     else (case waits of
         [] \<Rightarrow> (Pop_Timeout, out1, r1)
       | moves # waits' \<Rightarrow>
           let r2 = meanwhile moves r1 in
           if rb_closed r2 \<or> \<not> ring_empty r2 then pop_wait_for out1 waits' r2
           else (Pop_Timeout, out1, r2)))"

declare push_blocking.simps [simp del] push_wait_for.simps [simp del]
  pop_blocking.simps [simp del] pop_wait_for.simps [simp del]

section \<open>The queue the ring implements\<close>

record bounded =
  bq_capacity :: nat
  bq_items :: "flight_record list"
  bq_closed :: bool

definition queue_push :: "flight_record \<Rightarrow> bounded \<Rightarrow> push_status \<times> bounded" where
  "queue_push x q =
    (if bq_closed q then (Push_Closed, q)
     else if bq_capacity q \<le> length (bq_items q) then (Push_Timeout, q)
     else (Pushed, q\<lparr>bq_items := bq_items q @ [x]\<rparr>))"

definition queue_pop :: "flight_record \<Rightarrow> bounded \<Rightarrow> pop_status \<times> flight_record \<times> bounded" where
  "queue_pop out q = (case bq_items q of
       [] \<Rightarrow> (if bq_closed q then Pop_Closed else Pop_Timeout, out, q)
     | x # xs \<Rightarrow> (Popped, x, q\<lparr>bq_items := xs\<rparr>))"

definition queue_pop_batch :: "nat \<Rightarrow> bounded \<Rightarrow> flight_record list \<times> bounded" where
  "queue_pop_batch n q = (take n (bq_items q), q\<lparr>bq_items := drop n (bq_items q)\<rparr>)"

definition ring_items :: "ring \<Rightarrow> flight_record list" where
  "ring_items r = map (\<lambda>i. rb_storage r ! slot_index r (rb_head r + word_of_nat i))
     [0..<unat (rb_tail r - rb_head r)]"

definition ring_abs :: "ring \<Rightarrow> bounded" where
  "ring_abs r = \<lparr>bq_capacity = unat (rb_capacity r), bq_items = ring_items r, bq_closed = rb_closed r\<rparr>"

text \<open>
  The representation invariant. With a capacity that divides \<open>2 ^ 64\<close> the cursors may wrap
  around; with any other the slot of a cursor jumps there, and \<open>n\<close> is a number of pushes that
  are still possible before it.
\<close>

definition ring_inv :: "nat \<Rightarrow> ring \<Rightarrow> bool" where
  "ring_inv n r \<longleftrightarrow>
     length (rb_storage r) = unat (rb_capacity r) \<and>
     rb_tail r - rb_head r \<le> rb_capacity r \<and>
     rb_high_watermark r \<le> rb_capacity r \<and>
     (unat (rb_capacity r) dvd 2 ^ 64 \<or> rb_head r \<le> rb_tail r \<and> unat (rb_tail r) + n < 2 ^ 64)"

lemma ring_inv_mono: "ring_inv n r \<Longrightarrow> m \<le> n \<Longrightarrow> ring_inv m r"
  by (auto simp: ring_inv_def)

lemma make_ring_inv: "n < 2 ^ 64 \<Longrightarrow> ring_inv n (make_ring capacity)"
  by (simp add: ring_inv_def make_ring_def)

text \<open>The slot of the record that is \<open>i\<close> places behind the head.\<close>

lemma slot_of_offset:
  assumes inv: "ring_inv n r" and i: "i \<le> unat (rb_tail r - rb_head r)"
  shows "slot_index r (rb_head r + word_of_nat i) = (unat (rb_head r) + i) mod unat (rb_capacity r)"
proof -
  have small: "i < 2 ^ 64"
    using i unsigned_less [of "rb_tail r - rb_head r", where ?'a = nat] by simp
  have sum: "unat (rb_head r + word_of_nat i) = (unat (rb_head r) + i) mod 2 ^ 64"
    using small by (simp add: unat_word_ariths unat_of_nat)
  have "(unat (rb_head r) + i) mod 2 ^ 64 mod unat (rb_capacity r) = (unat (rb_head r) + i) mod unat (rb_capacity r)"
  proof (cases "unat (rb_capacity r) dvd 2 ^ 64")
    case True
    then show ?thesis by (rule mod_mod_cancel)
  next
    case False
    with inv have le: "rb_head r \<le> rb_tail r" and lt: "unat (rb_tail r) + n < 2 ^ 64"
      by (auto simp: ring_inv_def)
    from le have "unat (rb_tail r - rb_head r) = unat (rb_tail r) - unat (rb_head r)"
      by (rule unat_sub)
    with i lt le have "unat (rb_head r) + i < 2 ^ 64"
      by (simp add: word_le_nat_alt)
    then show ?thesis by simp
  qed
  with sum show ?thesis
    by (simp add: slot_index_def unat_mod_distrib)
qed

lemma ring_items_nat:
  assumes "ring_inv n r"
  shows "ring_items r = map (\<lambda>i. rb_storage r ! ((unat (rb_head r) + i) mod unat (rb_capacity r)))
     [0..<unat (rb_tail r - rb_head r)]"
  unfolding ring_items_def using assms by (auto simp: slot_of_offset)

lemma length_ring_items [simp]: "length (ring_items r) = unat (rb_tail r - rb_head r)"
  by (simp add: ring_items_def)

text \<open>Two places less than the capacity apart have different slots.\<close>

lemma mod_distinct:
  assumes "i < j" and "j - i < c"
  shows "(h + i) mod c \<noteq> (h + j) mod (c :: nat)"
proof
  assume "(h + i) mod c = (h + j) mod c"
  then have "c dvd (h + j) - (h + i)"
    using assms(1) by (metis mod_eq_dvd_iff_nat add_le_cancel_left less_imp_le)
  with assms show False by (simp add: nat_dvd_not_less)
qed

section \<open>Each operation refines the bounded queue\<close>

lemma update_high_watermark_simps [simp]:
  "rb_capacity (update_high_watermark k r) = rb_capacity r"
  "rb_storage (update_high_watermark k r) = rb_storage r"
  "rb_tail (update_high_watermark k r) = rb_tail r"
  "rb_head (update_high_watermark k r) = rb_head r"
  "rb_closed (update_high_watermark k r) = rb_closed r"
  "rb_dropped_records (update_high_watermark k r) = rb_dropped_records r"
  "rb_high_watermark (update_high_watermark k r) = max (rb_high_watermark r) k"
  by (auto simp: update_high_watermark_def max_def)

lemma occupied_after_push:
  fixes h t c :: u64
  assumes "t - h < c"
  shows "unat (t + 1 - h) = unat (t - h) + 1" and "t + 1 - h \<le> c"
proof -
  have lt: "unat (t - h) < unat c" using assms by (simp add: word_less_nat_alt)
  moreover have "unat c < 2 ^ 64" using unsigned_less [of c, where ?'a = nat] by simp
  ultimately have "unat ((t - h) + 1) = unat (t - h) + 1"
    by (simp add: unat_word_ariths)
  then show eq: "unat (t + 1 - h) = unat (t - h) + 1" by (simp add: algebra_simps)
  with lt show "t + 1 - h \<le> c" by (simp add: word_le_nat_alt)
qed

lemma try_push_refines:
  assumes inv: "ring_inv (Suc n) r"
  shows "fst (try_push x r) = fst (queue_push x (ring_abs r))"
    and "ring_abs (snd (try_push x r)) = snd (queue_push x (ring_abs r))"
    and "ring_inv n (snd (try_push x r))"
proof -
  let ?h = "unat (rb_head r)" and ?c = "unat (rb_capacity r)" and ?k = "unat (rb_tail r - rb_head r)"
  have "fst (try_push x r) = fst (queue_push x (ring_abs r)) \<and>
    ring_abs (snd (try_push x r)) = snd (queue_push x (ring_abs r)) \<and> ring_inv n (snd (try_push x r))"
  proof (cases "rb_closed r \<or> rb_capacity r \<le> rb_tail r - rb_head r")
    case True
    with inv show ?thesis
      by (auto simp: try_push_def queue_push_def ring_abs_def word_le_nat_alt intro: ring_inv_mono)
  next
    case False
    then have open_ring: "\<not> rb_closed r" and lt: "rb_tail r - rb_head r < rb_capacity r" by auto
    note occ = occupied_after_push [OF lt]
    from lt have k: "?k < ?c" by (simp add: word_less_nat_alt)
    define r' where "r' = update_high_watermark (rb_tail r + 1 - rb_head r)
       (r\<lparr>rb_storage := (rb_storage r)[slot_index r (rb_tail r) := x], rb_tail := rb_tail r + 1\<rparr>)"
    have step: "try_push x r = (Pushed, r')"
      using False by (simp add: try_push_def Let_def r'_def)
    have inv': "ring_inv n r'"
    proof -
      have "rb_head r \<le> rb_tail r + 1" "unat (rb_tail r + 1) + n < 2 ^ 64"
        if "rb_head r \<le> rb_tail r" "unat (rb_tail r) + Suc n < 2 ^ 64"
      proof -
        from that(2) have "unat (rb_tail r + 1) = unat (rb_tail r) + 1"
          by (simp add: unat_word_ariths)
        with that show "rb_head r \<le> rb_tail r + 1" "unat (rb_tail r + 1) + n < 2 ^ 64"
          by (auto simp: word_le_nat_alt)
      qed
      with inv occ show ?thesis
        unfolding ring_inv_def r'_def by auto
    qed
    have tail: "slot_index r (rb_tail r) = (?h + ?k) mod ?c"
      using slot_of_offset [OF inv, of ?k] by simp
    have other: "(rb_storage r)[(?h + ?k) mod ?c := x] ! ((?h + i) mod ?c) = rb_storage r ! ((?h + i) mod ?c)"
      if "i < ?k" for i
    proof -
      from that k have "(?h + i) mod ?c \<noteq> (?h + ?k) mod ?c" by (intro mod_distinct) simp_all
      then show ?thesis by (metis nth_list_update_neq)
    qed
    have here: "(?h + ?k) mod ?c < length (rb_storage r)"
      using k inv by (simp add: ring_inv_def)
    have "ring_items r' = map (\<lambda>i. (rb_storage r)[(?h + ?k) mod ?c := x] ! ((?h + i) mod ?c)) [0..<Suc ?k]"
      unfolding ring_items_nat [OF inv'] using occ(1) by (simp add: r'_def tail)
    also have "\<dots> = map (\<lambda>i. rb_storage r ! ((?h + i) mod ?c)) [0..<?k] @ [x]"
      using other here by simp
    finally have items: "ring_items r' = ring_items r @ [x]"
      by (simp add: ring_items_nat [OF inv])
    show ?thesis
      using open_ring k inv' items by (simp add: step queue_push_def ring_abs_def) (simp add: r'_def)
  qed
  then show "fst (try_push x r) = fst (queue_push x (ring_abs r))"
    and "ring_abs (snd (try_push x r)) = snd (queue_push x (ring_abs r))"
    and "ring_inv n (snd (try_push x r))" by auto
qed

text \<open>Advancing the head by \<open>m\<close> records drops them.\<close>

lemma advance_head:
  assumes inv: "ring_inv n r" and m: "m \<le> rb_tail r - rb_head r"
  shows "ring_items (r\<lparr>rb_head := rb_head r + m\<rparr>) = drop (unat m) (ring_items r)"
    and "ring_inv n (r\<lparr>rb_head := rb_head r + m\<rparr>)"
proof -
  let ?r = "r\<lparr>rb_head := rb_head r + m\<rparr>"
  have left: "rb_tail r - (rb_head r + m) = (rb_tail r - rb_head r) - m"
    by (simp add: algebra_simps)
  have len: "unat (rb_tail r - (rb_head r + m)) = unat (rb_tail r - rb_head r) - unat m"
    unfolding left using m by (rule unat_sub)
  have "rb_tail r - (rb_head r + m) \<le> rb_tail r - rb_head r"
    by (simp add: word_le_nat_alt len)
  moreover have "rb_head r + m \<le> rb_tail r" if "rb_head r \<le> rb_tail r"
  proof -
    have "unat (rb_tail r - rb_head r) = unat (rb_tail r) - unat (rb_head r)"
      using that by (rule unat_sub)
    with m that have "unat (rb_head r) + unat m \<le> unat (rb_tail r)"
      by (simp add: word_le_nat_alt)
    then show ?thesis
      unfolding word_le_nat_alt
      using le_trans [OF mod_less_eq_dividend] by (simp add: unat_word_ariths)
  qed
  ultimately show "ring_inv n ?r"
    using inv by (auto simp: ring_inv_def)
  have "ring_items ?r = map (\<lambda>i. rb_storage r ! slot_index r (rb_head r + word_of_nat (unat m + i)))
      [0..<unat (rb_tail r - rb_head r) - unat m]"
    by (simp add: ring_items_def len slot_index_def add.assoc)
  also have "\<dots> = drop (unat m) (ring_items r)"
    unfolding ring_items_def drop_map
    by (rule nth_equalityI) (auto simp: add.commute)
  finally show "ring_items ?r = drop (unat m) (ring_items r)" .
qed

lemma ring_items_hd:
  assumes "rb_head r \<noteq> rb_tail r"
  shows "ring_items r = rb_storage r ! slot_index r (rb_head r) # drop 1 (ring_items r)"
proof -
  have "rb_tail r - rb_head r \<noteq> 0" using assms by simp
  then have "0 < unat (rb_tail r - rb_head r)" by (simp add: unat_gt_0)
  then show ?thesis
    by (simp add: ring_items_def upt_conv_Cons)
qed

lemma try_pop_refines:
  assumes inv: "ring_inv n r"
  shows "try_pop_status out r = (status, out', r') \<Longrightarrow>
    queue_pop out (ring_abs r) = (status, out', ring_abs r') \<and> ring_inv n r'"
proof -
  assume pop: "try_pop_status out r = (status, out', r')"
  show ?thesis
  proof (cases "rb_head r = rb_tail r")
    case True
    then have "ring_items r = []" by (simp add: ring_items_def)
    with pop True inv show ?thesis
      by (auto simp: try_pop_status_def queue_pop_def ring_abs_def Let_def)
  next
    case False
    then have "rb_tail r - rb_head r \<noteq> 0" by simp
    then have one: "1 \<le> rb_tail r - rb_head r"
      by (simp add: word_le_nat_alt Suc_le_eq unat_gt_0)
    from pop False have r': "r' = r\<lparr>rb_head := rb_head r + 1\<rparr>" and "status = Popped"
      and out': "out' = rb_storage r ! slot_index r (rb_head r)"
      by (auto simp: try_pop_status_def Let_def)
    from ring_items_hd [OF False] obtain xs where "ring_items r = out' # xs"
      unfolding out' by blast
    with advance_head [OF inv one] show ?thesis
      by (simp add: queue_pop_def ring_abs_def r' \<open>status = Popped\<close>)
  qed
qed

lemma try_pop_batch_refines:
  assumes inv: "ring_inv n r"
  shows "try_pop_batch max_records r = (out, r') \<Longrightarrow>
    queue_pop_batch (unat max_records) (ring_abs r) = (out, ring_abs r') \<and> ring_inv n r'"
proof -
  assume pop: "try_pop_batch max_records r = (out, r')"
  show ?thesis
  proof (cases "max_records = 0")
    case True
    with pop inv show ?thesis
      by (auto simp: try_pop_batch_def queue_pop_batch_def ring_abs_def)
  next
    case False
    define count where "count = min max_records (rb_tail r - rb_head r)"
    have count: "unat count = min (unat max_records) (length (ring_items r))"
      by (simp add: count_def min_def word_le_nat_alt)
    from pop False have out: "out = map (\<lambda>i. rb_storage r ! slot_index r (rb_head r + word_of_nat i)) [0..<unat count]"
      and r': "r' = r\<lparr>rb_head := rb_head r + count\<rparr>"
      by (auto simp: try_pop_batch_def Let_def count_def)
    have "out = take (unat count) (ring_items r)"
      unfolding out ring_items_def using count by (simp add: take_map)
    then have "out = take (unat max_records) (ring_items r)"
      by (simp add: count) (metis length_ring_items min.commute nle_le take_all min_def)
    moreover have "drop (unat count) (ring_items r) = drop (unat max_records) (ring_items r)"
      by (simp add: count min_def)
    moreover have "count \<le> rb_tail r - rb_head r" by (simp add: count_def)
    note advance_head [OF inv this]
    ultimately show ?thesis
      by (simp add: queue_pop_batch_def ring_abs_def r')
  qed
qed

lemma close_refines:
  "ring_inv n r \<Longrightarrow> ring_inv n (close_ring r) \<and> ring_abs (close_ring r) = (ring_abs r)\<lparr>bq_closed := True\<rparr>"
  by (simp add: close_ring_def ring_inv_def ring_abs_def ring_items_def slot_index_def)

lemma reset_refines:
  "ring_inv n r \<Longrightarrow> m < 2 ^ 64 \<Longrightarrow> ring_inv m (reset_ring r) \<and>
    ring_abs (reset_ring r) = (ring_abs r)\<lparr>bq_items := [], bq_closed := False\<rparr>"
  by (simp add: reset_ring_def ring_inv_def ring_abs_def ring_items_def)

text \<open>The same moves on the abstract queue.\<close>

fun queue_step :: "ring_move \<Rightarrow> bounded \<Rightarrow> ring_reply \<times> bounded" where
  "queue_step (Push_Move record) q = (case queue_push record q of (status, q') \<Rightarrow> (Push_Reply status, q'))"
| "queue_step Pop_Move q =
     (case queue_pop default_flight_record q of (status, out, q') \<Rightarrow> (Pop_Reply status out, q'))"
| "queue_step (Batch_Move max_records) q =
     (case queue_pop_batch (unat max_records) q of (out, q') \<Rightarrow> (Batch_Reply out, q'))"
| "queue_step Close_Move q = (Close_Reply, q\<lparr>bq_closed := True\<rparr>)"

primrec run_queue :: "ring_move list \<Rightarrow> bounded \<Rightarrow> ring_reply list \<times> bounded" where
  "run_queue [] q = ([], q)"
| "run_queue (m # ms) q = (case queue_step m q of (reply, q1) \<Rightarrow>
     case run_queue ms q1 of (replies, q2) \<Rightarrow> (reply # replies, q2))"

lemma ring_step_refines:
  assumes "ring_inv (Suc n) r" and "ring_step m r = (reply, r')"
  shows "queue_step m (ring_abs r) = (reply, ring_abs r') \<and> ring_inv n r'"
proof (cases m)
  case (Push_Move x)
  with assms try_push_refines [OF assms(1), of x] show ?thesis
    by (auto split: prod.splits)
next
  case Pop_Move
  with assms show ?thesis
    by (auto split: prod.splits dest: try_pop_refines [OF ring_inv_mono [OF assms(1), of n, simplified]])
next
  case (Batch_Move k)
  with assms show ?thesis
    by (auto split: prod.splits dest: try_pop_batch_refines [OF ring_inv_mono [OF assms(1), of n, simplified]])
next
  case Close_Move
  with assms close_refines [OF ring_inv_mono [OF assms(1), of n, simplified]] show ?thesis by auto
qed

lemma run_ring_refines:
  "ring_inv (length ms + n) r \<Longrightarrow> run_ring ms r = (replies, r') \<Longrightarrow>
    run_queue ms (ring_abs r) = (replies, ring_abs r') \<and> ring_inv n r'"
proof (induction ms arbitrary: r replies)
  case Nil
  then show ?case by simp
next
  case (Cons m ms)
  obtain reply r1 where step: "ring_step m r = (reply, r1)" by force
  with Cons.prems obtain replies1 where rest: "run_ring ms r1 = (replies1, r')"
    and replies: "replies = reply # replies1"
    by (auto split: prod.splits)
  have budget: "ring_inv (Suc (length ms + n)) r"
    using Cons.prems(1) by simp
  note first = ring_step_refines [OF this step]
  from Cons.IH [OF conjunct2 [OF first] rest] first show ?case
    by (simp add: replies)
qed

section \<open>The order of records\<close>

text \<open>What went in and what came out, read off a run.\<close>

fun accepted :: "ring_move list \<Rightarrow> ring_reply list \<Rightarrow> flight_record list" where
  "accepted (Push_Move x # ms) (Push_Reply Pushed # rs) = x # accepted ms rs"
| "accepted (m # ms) (r # rs) = accepted ms rs"
| "accepted _ _ = []"

fun delivered :: "ring_reply list \<Rightarrow> flight_record list" where
  "delivered (Pop_Reply Popped x # rs) = x # delivered rs"
| "delivered (Batch_Reply xs # rs) = xs @ delivered rs"
| "delivered (r # rs) = delivered rs"
| "delivered [] = []"

definition queue_ok :: "bounded \<Rightarrow> bool" where
  "queue_ok q \<longleftrightarrow> length (bq_items q) \<le> bq_capacity q"

lemma queue_step_order:
  assumes "queue_step m q = (reply, q')" and "queue_ok q"
  shows "delivered [reply] @ bq_items q' = bq_items q @ accepted [m] [reply] \<and>
    queue_ok q' \<and> bq_capacity q' = bq_capacity q"
  using assms
  by (cases m) (auto simp: queue_push_def queue_pop_def queue_pop_batch_def queue_ok_def
      split: if_splits list.splits)

lemma delivered_cons: "delivered (r # rs) = delivered [r] @ delivered rs"
  by (cases r) (auto, (case_tac x21; simp))

lemma accepted_cons: "accepted (m # ms) (r # rs) = accepted [m] [r] @ accepted ms rs"
  by (cases m; cases r) (auto, (case_tac x1a; simp))

lemma run_queue_order:
  "run_queue ms q = (replies, q') \<Longrightarrow> queue_ok q \<Longrightarrow>
    delivered replies @ bq_items q' = bq_items q @ accepted ms replies \<and>
    queue_ok q' \<and> bq_capacity q' = bq_capacity q"
proof (induction ms arbitrary: q replies)
  case Nil
  then show ?case by simp
next
  case (Cons m ms)
  obtain reply q1 where step: "queue_step m q = (reply, q1)" by force
  with Cons.prems obtain replies1 where rest: "run_queue ms q1 = (replies1, q')"
    and replies: "replies = reply # replies1"
    by (auto split: prod.splits)
  note first = queue_step_order [OF step Cons.prems(2)]
  then have "queue_ok q1" by simp
  note later = Cons.IH [OF rest this]
  show ?case
    using first later delivered_cons [of reply replies1] accepted_cons [of m ms reply replies1]
    unfolding replies by (metis append.assoc)
qed

lemma ring_abs_ok: "ring_inv n r \<Longrightarrow> queue_ok (ring_abs r)"
  by (simp add: queue_ok_def ring_abs_def ring_inv_def word_le_nat_alt)

section \<open>The interface the users of the queue rely on\<close>

text \<open>
  The users of the queue (the two threads of the recorder, the crash matrix, the benchmark)
  rely on the laws of a bounded queue only. \<open>inv n\<close> says that the queue is in order and may be
  pushed to \<open>n\<close> times more.
\<close>

locale bounded_fifo =
  fixes inv :: "nat \<Rightarrow> 's \<Rightarrow> bool" and view :: "'s \<Rightarrow> bounded"
    and push :: "flight_record \<Rightarrow> 's \<Rightarrow> push_status \<times> 's"
    and pop :: "flight_record \<Rightarrow> 's \<Rightarrow> pop_status \<times> flight_record \<times> 's"
    and pop_batch :: "u64 \<Rightarrow> 's \<Rightarrow> flight_record list \<times> 's"
  assumes push_law: "inv (Suc n) s \<Longrightarrow> push x s = (st, s') \<Longrightarrow>
      queue_push x (view s) = (st, view s') \<and> inv n s'"
    and pop_law: "inv n s \<Longrightarrow> pop out s = (pst, out', s') \<Longrightarrow>
      queue_pop out (view s) = (pst, out', view s') \<and> inv n s'"
    and batch_law: "inv n s \<Longrightarrow> pop_batch k s = (xs, s') \<Longrightarrow>
      queue_pop_batch (unat k) (view s) = (xs, view s') \<and> inv n s'"
begin

lemma accept:
  assumes "inv (Suc n) s" and "\<not> bq_closed (view s)" and "length (bq_items (view s)) < bq_capacity (view s)"
  obtains s' where "push x s = (Pushed, s')" and "inv n s'"
    and "view s' = (view s)\<lparr>bq_items := bq_items (view s) @ [x]\<rparr>"
proof -
  obtain st s' where step: "push x s = (st, s')" by force
  from push_law [OF assms(1) step] assms(2,3) show ?thesis
    by (intro that [of s']) (auto simp: queue_push_def step split: if_splits)
qed

lemma refuse_full:
  assumes "inv (Suc n) s" and "\<not> bq_closed (view s)" and "bq_capacity (view s) \<le> length (bq_items (view s))"
  obtains s' where "push x s = (Push_Timeout, s')" and "inv n s'" and "view s' = view s"
proof -
  obtain st s' where step: "push x s = (st, s')" by force
  from push_law [OF assms(1) step] assms(2,3) show ?thesis
    by (intro that [of s']) (auto simp: queue_push_def step split: if_splits)
qed

lemma refuse_closed:
  assumes "inv (Suc n) s" and "bq_closed (view s)"
  obtains s' where "push x s = (Push_Closed, s')" and "inv n s'" and "view s' = view s"
proof -
  obtain st s' where step: "push x s = (st, s')" by force
  from push_law [OF assms(1) step] assms(2) show ?thesis
    by (intro that [of s']) (auto simp: queue_push_def step split: if_splits)
qed

lemma take_first:
  assumes "inv n s" and "bq_items (view s) = x # xs"
  obtains s' where "pop out s = (Popped, x, s')" and "inv n s'"
    and "view s' = (view s)\<lparr>bq_items := xs\<rparr>"
proof -
  obtain st out' s' where step: "pop out s = (st, out', s')" by (metis prod_cases3)
  from pop_law [OF assms(1) step] assms(2) show ?thesis
    by (intro that [of s']) (auto simp: queue_pop_def step)
qed

lemma nothing_there:
  assumes "inv n s" and "bq_items (view s) = []"
  obtains s' where "pop out s = (if bq_closed (view s) then Pop_Closed else Pop_Timeout, out, s')"
    and "inv n s'" and "view s' = view s"
proof -
  obtain st out' s' where step: "pop out s = (st, out', s')" by (metis prod_cases3)
  from pop_law [OF assms(1) step] assms(2)
  have "out' = out" "st = (if bq_closed (view s) then Pop_Closed else Pop_Timeout)" "inv n s'" "view s' = view s"
    by (auto simp: queue_pop_def)
  with step show ?thesis by (intro that [of s']) simp_all
qed

lemma take_batch:
  assumes "inv n s"
  obtains s' where "pop_batch k s = (take (unat k) (bq_items (view s)), s')" and "inv n s'"
    and "view s' = (view s)\<lparr>bq_items := drop (unat k) (bq_items (view s))\<rparr>"
proof -
  obtain xs s' where step: "pop_batch k s = (xs, s')" by force
  from batch_law [OF assms(1) step] show ?thesis
    by (intro that [of s']) (auto simp: queue_pop_batch_def step)
qed

text \<open>A record pushed into an empty queue is the next one popped.\<close>

lemma push_then_pop:
  assumes "inv (Suc n) s" and "\<not> bq_closed (view s)" and "bq_items (view s) = []" and "0 < bq_capacity (view s)"
  obtains s1 s2 where "push x s = (Pushed, s1)" and "pop out s1 = (Popped, x, s2)"
    and "inv n s2" and "view s2 = view s"
proof -
  have "length (bq_items (view s)) < bq_capacity (view s)" using assms(3,4) by simp
  from accept [OF assms(1,2) this, of x] obtain s1 where push: "push x s = (Pushed, s1)"
    and inv: "inv n s1" and view: "view s1 = (view s)\<lparr>bq_items := bq_items (view s) @ [x]\<rparr>" by blast
  from view assms(3) have "bq_items (view s1) = x # []" by simp
  from take_first [OF inv this] obtain s2 where pop: "pop out s1 = (Popped, x, s2)" and "inv n s2"
    and "view s2 = (view s1)\<lparr>bq_items := []\<rparr>" by blast
  with view assms(3) show ?thesis
    by (intro that [OF push pop]) auto
qed

end

interpretation ring_queue: bounded_fifo ring_inv ring_abs try_push try_pop_status try_pop_batch
proof
  show "queue_push x (ring_abs s) = (st, ring_abs s') \<and> ring_inv n s'"
    if "ring_inv (Suc n) s" and "try_push x s = (st, s')" for n s x st s'
    using try_push_refines [OF that(1), of x] that(2) by (metis fst_conv prod.collapse snd_conv)
qed (rule try_pop_refines try_pop_batch_refines; assumption)+

section \<open>Properties\<close>

text \<open>C17. The ring refines the bounded queue: every sequence of pushes, pops, batch pops and a
  close gets the same replies from the ring, with its cursors, slots and wrap-around, as from a
  list with a capacity and a closed flag, and leaves it as that list. The cursors may pass
  \<open>2 ^ 64\<close> when the capacity divides it, and otherwise must not reach it.\<close>

theorem ring_refines_bounded_queue:
  assumes "ring_inv (length ms) r"
  shows "run_queue ms (ring_abs r) = (fst (run_ring ms r), ring_abs (snd (run_ring ms r)))"
  using run_ring_refines [of ms 0 r "fst (run_ring ms r)" "snd (run_ring ms r)"] assms by simp

lemma ring_refines_bounded_queue_witness:
  "run_queue [Push_Move default_flight_record, Push_Move default_flight_record, Push_Move default_flight_record,
      Batch_Move 5, Close_Move, Pop_Move] (ring_abs (make_ring 2)) =
   ([Push_Reply Pushed, Push_Reply Pushed, Push_Reply Push_Timeout,
     Batch_Reply [default_flight_record, default_flight_record], Close_Reply,
     Pop_Reply Pop_Closed default_flight_record],
    \<lparr>bq_capacity = 2, bq_items = [], bq_closed = True\<rparr>)"
  (is "run_queue ?ms _ = _")
proof -
  have "run_queue ?ms (ring_abs (make_ring 2)) =
    (fst (run_ring ?ms (make_ring 2)), ring_abs (snd (run_ring ?ms (make_ring 2))))"
    by (rule ring_refines_bounded_queue) (rule make_ring_inv, simp)
  then show ?thesis by code_simp
qed

text \<open>First in, first out, nothing lost or doubled: after any run of operations on a ring,
  the records delivered by the pops, followed by those still in the ring, are the records that
  were in it at the start followed by those whose push was accepted, in order; and the ring never
  holds more records than its capacity.\<close>

theorem queue_keeps_order:
  assumes "ring_inv (length ms) r" and "run_ring ms r = (replies, r')"
  shows "delivered replies @ ring_items r' = ring_items r @ accepted ms replies \<and>
    length (ring_items r') \<le> unat (rb_capacity r)"
proof -
  from run_ring_refines [of ms 0 r] assms
  have "run_queue ms (ring_abs r) = (replies, ring_abs r')" by simp
  from run_queue_order [OF this ring_abs_ok [OF assms(1)]] show ?thesis
    by (simp add: queue_ok_def ring_abs_def)
qed

lemma queue_keeps_order_witness:
  "let ms = [Push_Move default_flight_record, Push_Move (default_flight_record\<lparr>timestamp_us := 7\<rparr>),
        Push_Move default_flight_record, Pop_Move];
      r = make_ring 2 in
    delivered (fst (run_ring ms r)) @ ring_items (snd (run_ring ms r)) =
      [default_flight_record, default_flight_record\<lparr>timestamp_us := 7\<rparr>]"
proof -
  define ms where "ms = [Push_Move default_flight_record, Push_Move (default_flight_record\<lparr>timestamp_us := 7\<rparr>),
        Push_Move default_flight_record, Pop_Move]"
  have inv: "ring_inv (length ms) (make_ring 2)"
    by (rule make_ring_inv) (simp add: ms_def)
  have "ring_items (make_ring 2) @ accepted ms (fst (run_ring ms (make_ring 2))) =
      [default_flight_record, default_flight_record\<lparr>timestamp_us := 7\<rparr>]"
    unfolding ms_def by code_simp
  with queue_keeps_order [OF inv prod.collapse [symmetric]] show ?thesis
    by (simp add: ms_def [symmetric])
qed

section \<open>Waiting calls\<close>

lemma ring_step_dropped: "rb_dropped_records (snd (ring_step m r)) = rb_dropped_records r"
  by (cases m) (auto simp: try_push_def try_pop_status_def try_pop_batch_def close_ring_def Let_def
      split: prod.splits if_splits)

lemma meanwhile_dropped [simp]: "rb_dropped_records (meanwhile ms r) = rb_dropped_records r"
proof (induction ms arbitrary: r)
  case Nil
  then show ?case by (simp add: meanwhile_def)
next
  case (Cons m ms)
  obtain reply r1 where "ring_step m r = (reply, r1)" by force
  with Cons.IH [of r1] ring_step_dropped [of m r] show ?case
    by (cases "run_ring ms r1") (simp add: meanwhile_def)
qed

lemma meanwhile_inv: "ring_inv (length ms + n) r \<Longrightarrow> ring_inv n (meanwhile ms r)"
  using run_ring_refines [of ms n r "fst (run_ring ms r)" "snd (run_ring ms r)"]
  by (simp add: meanwhile_def)

lemma try_push_timeout: "fst (try_push x r) = Push_Timeout \<Longrightarrow>
    snd (try_push x r) = r \<and> \<not> rb_closed r \<and> ring_full r"
  by (auto simp: try_push_def ring_full_def Let_def split: if_splits)

lemma try_push_final:
  assumes "ring_inv (Suc n) r" and "try_push x r = (st, r')"
  shows "st = Pushed \<Longrightarrow> ring_items r' = ring_items r @ [x] \<and> rb_dropped_records r' = rb_dropped_records r"
    and "st = Push_Closed \<Longrightarrow> rb_closed r \<and> r' = r"
proof -
  show "ring_items r' = ring_items r @ [x] \<and> rb_dropped_records r' = rb_dropped_records r" if "st = Pushed"
    using try_push_refines [OF assms(1), of x] assms(2) that ring_step_dropped [of "Push_Move x" r]
    by (auto simp: queue_push_def ring_abs_def split: if_splits)
  show "rb_closed r \<and> r' = r" if "st = Push_Closed"
    using assms(2) that by (auto simp: try_push_def Let_def split: if_splits)
qed

text \<open>A timed push never loses a record silently: whatever the other threads do to the ring
  while it waits, it returns with the record last in the ring and the drop counter unchanged, or
  with the ring closed, or after the deadline with the ring full and the drop counter one
  higher.\<close>

theorem timed_push_accounts_for_record:
  assumes "ring_inv (Suc (length (concat waits))) r" and "push_wait_for x waits r = (st, r')"
  shows "case st of
      Pushed \<Rightarrow> (\<exists>xs. ring_items r' = xs @ [x]) \<and> rb_dropped_records r' = rb_dropped_records r
    | Push_Closed \<Rightarrow> rb_closed r' \<and> rb_dropped_records r' = rb_dropped_records r
    | Push_Timeout \<Rightarrow> ring_full r' \<and> \<not> rb_closed r' \<and> rb_dropped_records r' = rb_dropped_records r + 1"
  using assms
proof (induction x waits r rule: push_wait_for.induct)
  case (1 x waits r)
  obtain st1 r1 where first: "try_push x r = (st1, r1)" by force
  show ?case
  proof (cases "st1 = Push_Timeout")
    case False
    with "1.prems"(2) first have "st = st1" "r' = r1"
      by (auto simp: push_wait_for.simps [of x waits r])
    with try_push_final [OF _ first] "1.prems"(1) False show ?thesis
      by (cases st1) auto
  next
    case True
    with first try_push_timeout [of x r] have r1: "r1 = r" and "\<not> rb_closed r" and "ring_full r"
      by auto
    show ?thesis
    proof (cases waits)
      case Nil
      with "1.prems"(2) first True r1
      have "st = Push_Timeout" "r' = r\<lparr>rb_dropped_records := rb_dropped_records r + 1\<rparr>"
        by (simp_all add: push_wait_for.simps [of x "[]" r])
      with \<open>\<not> rb_closed r\<close> \<open>ring_full r\<close> show ?thesis
        by (simp add: ring_full_def)
    next
      case (Cons moves waits')
      from "1.prems"(1) Cons have "ring_inv (length moves + Suc (length (concat waits'))) r"
        by (simp add: add.commute add.left_commute)
      then have inv: "ring_inv (Suc (length (concat waits'))) (meanwhile moves r)"
        by (rule meanwhile_inv)
      show ?thesis
      proof (cases "rb_closed (meanwhile moves r) \<or> \<not> ring_full (meanwhile moves r)")
        case ready: True
        with "1.prems"(2) first True r1 Cons
        have "push_wait_for x waits' (meanwhile moves r) = (st, r')"
          by (simp add: push_wait_for.simps [of x "moves # waits'" r])
        from first True r1 have "(Push_Timeout, r) = try_push x r" by simp
        from "1.IH" [OF this _ Cons refl ready inv \<open>push_wait_for x waits' _ = _\<close>] show ?thesis
          by (simp only: meanwhile_dropped) simp
      next
        case False
        with "1.prems"(2) first True r1 Cons show ?thesis
          by (auto simp: push_wait_for.simps [of x "moves # waits'" r] ring_full_def)
      qed
    qed
  qed
qed

lemma timed_push_accounts_for_record_witness:
  "let r = snd (try_push default_flight_record (make_ring 1)) in
    fst (push_wait_for default_flight_record [[Close_Move], []] r) = Push_Closed \<and>
    fst (push_wait_for default_flight_record [[Pop_Move], []] r) = Pushed \<and>
    fst (push_wait_for default_flight_record [[]] r) = Push_Timeout \<and>
    rb_dropped_records (snd (push_wait_for default_flight_record [[]] r)) = 1"
proof -
  define r where "r = snd (try_push default_flight_record (make_ring 1))"
  have timeout: "fst (push_wait_for default_flight_record [[]] r) = Push_Timeout"
    unfolding r_def by code_simp
  have inv: "ring_inv (Suc (length (concat [[]]))) r"
    unfolding r_def by (rule try_push_refines(3)) (simp add: make_ring_inv)
  have "rb_dropped_records (snd (push_wait_for default_flight_record [[]] r)) = rb_dropped_records r + 1"
    using timed_push_accounts_for_record [OF inv prod.collapse [symmetric], of default_flight_record] timeout
    by simp
  moreover have "rb_dropped_records r = 0"
    "fst (push_wait_for default_flight_record [[Close_Move], []] r) = Push_Closed"
    "fst (push_wait_for default_flight_record [[Pop_Move], []] r) = Pushed"
    unfolding r_def by code_simp+
  ultimately show ?thesis
    using timeout by (simp add: r_def [symmetric])
qed

text \<open>A blocked call returns after the first wait that frees a slot, brings a record or closes
  the ring.\<close>

lemma woken_push_returns:
  assumes "rb_closed (meanwhile moves r) \<or> \<not> ring_full (meanwhile moves r)"
  shows "\<exists>st r'. push_blocking x (moves # waits) r = Some (st, r') \<and> st \<noteq> Push_Timeout"
proof (cases "try_push x r")
  case (Pair st1 r1)
  show ?thesis
  proof (cases "st1 = Push_Timeout")
    case False
    with Pair show ?thesis by (simp add: push_blocking.simps [of x "moves # waits" r])
  next
    case True
    with Pair try_push_timeout [of x r] have "r1 = r" by simp
    obtain st2 r2 where second: "try_push x (meanwhile moves r) = (st2, r2)" by force
    with assms try_push_timeout [of x "meanwhile moves r"] have "st2 \<noteq> Push_Timeout" by auto
    with Pair True \<open>r1 = r\<close> second assms show ?thesis
      by (simp add: push_blocking.simps [of x "moves # waits" r] push_blocking.simps [of x waits "meanwhile moves r"])
  qed
qed

lemma try_pop_timeout: "fst (try_pop_status out r) = Pop_Timeout \<Longrightarrow>
    snd (try_pop_status out r) = (out, r) \<and> \<not> rb_closed r \<and> ring_empty r"
  by (auto simp: try_pop_status_def ring_empty_def Let_def split: if_splits)

lemma woken_pop_returns:
  assumes "rb_closed (meanwhile moves r) \<or> \<not> ring_empty (meanwhile moves r)"
  shows "\<exists>st out' r'. pop_blocking out (moves # waits) r = Some (st, out', r') \<and> st \<noteq> Pop_Timeout"
proof (cases "try_pop_status out r")
  case (fields st1 out1 r1)
  show ?thesis
  proof (cases "st1 = Pop_Timeout")
    case False
    with fields show ?thesis by (simp add: pop_blocking.simps [of out "moves # waits" r])
  next
    case True
    with fields try_pop_timeout [of out r] have "r1 = r" "out1 = out" by auto
    obtain st2 out2 r2 where second: "try_pop_status out (meanwhile moves r) = (st2, out2, r2)"
      by (metis prod_cases3)
    with assms try_pop_timeout [of out "meanwhile moves r"] have "st2 \<noteq> Pop_Timeout" by auto
    with fields True \<open>r1 = r\<close> \<open>out1 = out\<close> second assms show ?thesis
      by (simp add: pop_blocking.simps [of out "moves # waits" r] pop_blocking.simps [of out waits "meanwhile moves r"])
  qed
qed

end
