(* ===== verification/Ring_Concurrent.thy ===== *)
theory Ring_Concurrent
  imports Ring_Buffer
begin

text \<open>
  The queue of \<open>circular_buffer.hpp\<close> with its threads interleaved: one producer, one consumer and
  a thread that closes it. Every access to a shared variable, every locking or unlocking of the
  wait mutex and every notification is one step. An acquire load of the other side's cursor may
  return any value the cursor has had since the last one this thread saw, and a load of the closed
  flag may still miss a close; what a thread evaluates while it holds the mutex is current,
  because the cursors and the flag are only stored under it.

  Besides the shared ring the state holds the program counter of each thread with its local
  variables, and two lists that no step reads: the records published and the records taken.
\<close>

section \<open>State\<close>

datatype thread = Producer | Consumer | Closer

text \<open>What a call does when it cannot go on: return, wait until a deadline, or wait for ever.\<close>

datatype wait_mode = No_Wait | Wait_For | Wait_Blocking

datatype producer_pc =
    P_Idle
  | P_Closed flight_record
  | P_Tail flight_record
  | P_Head flight_record u64
  | P_Slot flight_record u64 u64
  | P_Lock flight_record u64 u64
  | P_Publish flight_record u64 u64
  | P_Unlock u64 u64
  | P_Mark u64
  | P_Exchange u64 u64
  | P_Notify
  | P_Want flight_record
  | P_Check flight_record
  | P_Asleep flight_record

datatype consumer_pc =
    C_Idle
  | C_Head
  | C_Tail u64
  | C_Closed
  | C_Read u64
  | C_Batch_Head u64
  | C_Batch_Tail u64 u64
  | C_Batch_Read u64 u64 u64
  | C_Lock u64 u64
  | C_Publish u64 u64
  | C_Unlock
  | C_Notify
  | C_Want
  | C_Check
  | C_Asleep

datatype closer_pc = K_Idle | K_Lock | K_Store | K_Unlock | K_Data | K_Space

record conc =
  cs_ring :: ring
  cs_owner :: "thread option"
  cs_producer :: producer_pc
  cs_producer_wait :: wait_mode
  cs_seen_head :: u64
  cs_push_result :: "push_status option"
  cs_consumer :: consumer_pc
  cs_consumer_wait :: wait_mode
  cs_seen_tail :: u64
  cs_out :: "flight_record list"
  cs_pop_result :: "pop_status option"
  cs_closer :: closer_pc
  cs_sent :: "flight_record list"
  cs_received :: "flight_record list"

definition start_state :: "u64 \<Rightarrow> conc" where
  "start_state capacity = \<lparr>cs_ring = make_ring capacity, cs_owner = None, cs_producer = P_Idle,
     cs_producer_wait = No_Wait, cs_seen_head = 0, cs_push_result = None, cs_consumer = C_Idle,
     cs_consumer_wait = No_Wait, cs_seen_tail = 0, cs_out = [], cs_pop_result = None,
     cs_closer = K_Idle, cs_sent = [], cs_received = []\<rparr>"

text \<open>A value the cursor may have had between \<open>seen\<close> and \<open>now\<close>.\<close>

definition may_load :: "u64 \<Rightarrow> u64 \<Rightarrow> u64 \<Rightarrow> bool" where
  "may_load seen now v \<longleftrightarrow> v - seen \<le> now - seen"

text \<open>A notification wakes the thread that sleeps on the condition variable, if it does.\<close>

definition notify_data :: "conc \<Rightarrow> conc" where
  "notify_data s = (if cs_consumer s = C_Asleep then s\<lparr>cs_consumer := C_Want\<rparr> else s)"

definition notify_space :: "conc \<Rightarrow> conc" where
  "notify_space s = (case cs_producer s of P_Asleep x \<Rightarrow> s\<lparr>cs_producer := P_Want x\<rparr> | _ \<Rightarrow> s)"

section \<open>Steps\<close>

inductive producer_step :: "conc \<Rightarrow> conc \<Rightarrow> bool" where
  p_call: "cs_producer s = P_Idle \<Longrightarrow>
    producer_step s (s\<lparr>cs_producer := P_Closed x, cs_producer_wait := mode, cs_push_result := None\<rparr>)"
| p_closed: "cs_producer s = P_Closed x \<Longrightarrow> rb_closed (cs_ring s) \<Longrightarrow>
    producer_step s (s\<lparr>cs_producer := P_Idle, cs_push_result := Some Push_Closed\<rparr>)"
| p_open: "cs_producer s = P_Closed x \<Longrightarrow> producer_step s (s\<lparr>cs_producer := P_Tail x\<rparr>)"
| p_tail: "cs_producer s = P_Tail x \<Longrightarrow>
    producer_step s (s\<lparr>cs_producer := P_Head x (rb_tail (cs_ring s))\<rparr>)"
| p_room: "cs_producer s = P_Head x tail \<Longrightarrow> may_load (cs_seen_head s) (rb_head (cs_ring s)) head \<Longrightarrow>
    tail - head < rb_capacity (cs_ring s) \<Longrightarrow>
    producer_step s (s\<lparr>cs_producer := P_Slot x tail head, cs_seen_head := head\<rparr>)"
| p_refused: "cs_producer s = P_Head x tail \<Longrightarrow> may_load (cs_seen_head s) (rb_head (cs_ring s)) head \<Longrightarrow>
    rb_capacity (cs_ring s) \<le> tail - head \<Longrightarrow> cs_producer_wait s = No_Wait \<Longrightarrow>
    producer_step s (s\<lparr>cs_producer := P_Idle, cs_seen_head := head, cs_push_result := Some Push_Timeout\<rparr>)"
| p_full: "cs_producer s = P_Head x tail \<Longrightarrow> may_load (cs_seen_head s) (rb_head (cs_ring s)) head \<Longrightarrow>
    rb_capacity (cs_ring s) \<le> tail - head \<Longrightarrow> cs_producer_wait s \<noteq> No_Wait \<Longrightarrow>
    producer_step s (s\<lparr>cs_producer := P_Want x, cs_seen_head := head\<rparr>)"
| p_slot: "cs_producer s = P_Slot x tail head \<Longrightarrow>
    producer_step s (s\<lparr>cs_producer := P_Lock x tail head, cs_ring := (cs_ring s)
      \<lparr>rb_storage := (rb_storage (cs_ring s))[slot_index (cs_ring s) tail := x]\<rparr>\<rparr>)"
| p_lock: "cs_producer s = P_Lock x tail head \<Longrightarrow> cs_owner s = None \<Longrightarrow>
    producer_step s (s\<lparr>cs_producer := P_Publish x tail head, cs_owner := Some Producer\<rparr>)"
| p_publish: "cs_producer s = P_Publish x tail head \<Longrightarrow>
    producer_step s (s\<lparr>cs_producer := P_Unlock tail head, cs_ring := (cs_ring s)\<lparr>rb_tail := tail + 1\<rparr>,
      cs_sent := cs_sent s @ [x]\<rparr>)"
| p_unlock: "cs_producer s = P_Unlock tail head \<Longrightarrow>
    producer_step s (s\<lparr>cs_producer := P_Mark (tail + 1 - head), cs_owner := None\<rparr>)"
| p_mark: "cs_producer s = P_Mark occupied \<Longrightarrow>
    producer_step s (s\<lparr>cs_producer := P_Exchange occupied (rb_high_watermark (cs_ring s))\<rparr>)"
| p_marked: "cs_producer s = P_Exchange occupied previous \<Longrightarrow> \<not> previous < occupied \<Longrightarrow>
    producer_step s (s\<lparr>cs_producer := P_Notify\<rparr>)"
| p_exchange: "cs_producer s = P_Exchange occupied previous \<Longrightarrow> previous < occupied \<Longrightarrow>
    rb_high_watermark (cs_ring s) = previous \<Longrightarrow>
    producer_step s (s\<lparr>cs_producer := P_Notify, cs_ring := (cs_ring s)\<lparr>rb_high_watermark := occupied\<rparr>\<rparr>)"
| p_exchange_fails: "cs_producer s = P_Exchange occupied previous \<Longrightarrow> previous < occupied \<Longrightarrow>
    producer_step s (s\<lparr>cs_producer := P_Exchange occupied (rb_high_watermark (cs_ring s))\<rparr>)"
| p_notify: "cs_producer s = P_Notify \<Longrightarrow>
    producer_step s ((notify_data s)\<lparr>cs_producer := P_Idle, cs_push_result := Some Pushed\<rparr>)"
| p_want: "cs_producer s = P_Want x \<Longrightarrow> cs_owner s = None \<Longrightarrow>
    producer_step s (s\<lparr>cs_producer := P_Check x, cs_owner := Some Producer\<rparr>)"
| p_ready: "cs_producer s = P_Check x \<Longrightarrow> rb_closed (cs_ring s) \<or> \<not> ring_full (cs_ring s) \<Longrightarrow>
    producer_step s (s\<lparr>cs_producer := P_Closed x, cs_owner := None\<rparr>)"
| p_sleep: "cs_producer s = P_Check x \<Longrightarrow> \<not> rb_closed (cs_ring s) \<Longrightarrow> ring_full (cs_ring s) \<Longrightarrow>
    producer_step s (s\<lparr>cs_producer := P_Asleep x, cs_owner := None\<rparr>)"
| p_give_up: "cs_producer s = P_Check x \<Longrightarrow> \<not> rb_closed (cs_ring s) \<Longrightarrow> ring_full (cs_ring s) \<Longrightarrow>
    cs_producer_wait s = Wait_For \<Longrightarrow>
    producer_step s (s\<lparr>cs_producer := P_Idle, cs_owner := None, cs_push_result := Some Push_Timeout,
      cs_ring := (cs_ring s)\<lparr>rb_dropped_records := rb_dropped_records (cs_ring s) + 1\<rparr>\<rparr>)"
| p_wake: "cs_producer s = P_Asleep x \<Longrightarrow> producer_step s (s\<lparr>cs_producer := P_Want x\<rparr>)"

inductive consumer_step :: "conc \<Rightarrow> conc \<Rightarrow> bool" where
  c_call: "cs_consumer s = C_Idle \<Longrightarrow>
    consumer_step s (s\<lparr>cs_consumer := C_Head, cs_consumer_wait := mode, cs_out := [], cs_pop_result := None\<rparr>)"
| c_head: "cs_consumer s = C_Head \<Longrightarrow>
    consumer_step s (s\<lparr>cs_consumer := C_Tail (rb_head (cs_ring s))\<rparr>)"
| c_some: "cs_consumer s = C_Tail head \<Longrightarrow> may_load (cs_seen_tail s) (rb_tail (cs_ring s)) tail \<Longrightarrow>
    head \<noteq> tail \<Longrightarrow> consumer_step s (s\<lparr>cs_consumer := C_Read head, cs_seen_tail := tail\<rparr>)"
| c_none: "cs_consumer s = C_Tail head \<Longrightarrow> may_load (cs_seen_tail s) (rb_tail (cs_ring s)) tail \<Longrightarrow>
    head = tail \<Longrightarrow> consumer_step s (s\<lparr>cs_consumer := C_Closed, cs_seen_tail := tail\<rparr>)"
| c_closed: "cs_consumer s = C_Closed \<Longrightarrow> rb_closed (cs_ring s) \<Longrightarrow>
    consumer_step s (s\<lparr>cs_consumer := C_Idle, cs_pop_result := Some Pop_Closed\<rparr>)"
| c_refused: "cs_consumer s = C_Closed \<Longrightarrow> cs_consumer_wait s = No_Wait \<Longrightarrow>
    consumer_step s (s\<lparr>cs_consumer := C_Idle, cs_pop_result := Some Pop_Timeout\<rparr>)"
| c_open: "cs_consumer s = C_Closed \<Longrightarrow> cs_consumer_wait s \<noteq> No_Wait \<Longrightarrow>
    consumer_step s (s\<lparr>cs_consumer := C_Want\<rparr>)"
| c_read: "cs_consumer s = C_Read head \<Longrightarrow>
    consumer_step s (s\<lparr>cs_consumer := C_Lock head 1,
      cs_out := [rb_storage (cs_ring s) ! slot_index (cs_ring s) head]\<rparr>)"
| c_batch_call: "cs_consumer s = C_Idle \<Longrightarrow> max_records \<noteq> 0 \<Longrightarrow>
    consumer_step s (s\<lparr>cs_consumer := C_Batch_Head max_records, cs_out := [], cs_pop_result := None\<rparr>)"
| c_batch_head: "cs_consumer s = C_Batch_Head max_records \<Longrightarrow>
    consumer_step s (s\<lparr>cs_consumer := C_Batch_Tail max_records (rb_head (cs_ring s))\<rparr>)"
| c_batch_tail: "cs_consumer s = C_Batch_Tail max_records head \<Longrightarrow>
    may_load (cs_seen_tail s) (rb_tail (cs_ring s)) tail \<Longrightarrow>
    consumer_step s (s\<lparr>cs_consumer := C_Batch_Read head (min max_records (tail - head)) 0, cs_seen_tail := tail\<rparr>)"
| c_batch_read: "cs_consumer s = C_Batch_Read head count index \<Longrightarrow> index < count \<Longrightarrow>
    consumer_step s (s\<lparr>cs_consumer := C_Batch_Read head count (index + 1),
      cs_out := cs_out s @ [rb_storage (cs_ring s) ! slot_index (cs_ring s) (head + index)]\<rparr>)"
| c_batch_some: "cs_consumer s = C_Batch_Read head count index \<Longrightarrow> \<not> index < count \<Longrightarrow> count \<noteq> 0 \<Longrightarrow>
    consumer_step s (s\<lparr>cs_consumer := C_Lock head count\<rparr>)"
| c_batch_none: "cs_consumer s = C_Batch_Read head count index \<Longrightarrow> \<not> index < count \<Longrightarrow> count = 0 \<Longrightarrow>
    consumer_step s (s\<lparr>cs_consumer := C_Idle\<rparr>)"
| c_lock: "cs_consumer s = C_Lock head count \<Longrightarrow> cs_owner s = None \<Longrightarrow>
    consumer_step s (s\<lparr>cs_consumer := C_Publish head count, cs_owner := Some Consumer\<rparr>)"
| c_publish: "cs_consumer s = C_Publish head count \<Longrightarrow>
    consumer_step s (s\<lparr>cs_consumer := C_Unlock, cs_ring := (cs_ring s)\<lparr>rb_head := head + count\<rparr>,
      cs_received := cs_received s @ cs_out s\<rparr>)"
| c_unlock: "cs_consumer s = C_Unlock \<Longrightarrow>
    consumer_step s (s\<lparr>cs_consumer := C_Notify, cs_owner := None\<rparr>)"
| c_notify: "cs_consumer s = C_Notify \<Longrightarrow>
    consumer_step s ((notify_space s)\<lparr>cs_consumer := C_Idle, cs_pop_result := Some Popped\<rparr>)"
| c_want: "cs_consumer s = C_Want \<Longrightarrow> cs_owner s = None \<Longrightarrow>
    consumer_step s (s\<lparr>cs_consumer := C_Check, cs_owner := Some Consumer\<rparr>)"
| c_ready: "cs_consumer s = C_Check \<Longrightarrow> rb_closed (cs_ring s) \<or> \<not> ring_empty (cs_ring s) \<Longrightarrow>
    consumer_step s (s\<lparr>cs_consumer := C_Head, cs_owner := None\<rparr>)"
| c_sleep: "cs_consumer s = C_Check \<Longrightarrow> \<not> rb_closed (cs_ring s) \<Longrightarrow> ring_empty (cs_ring s) \<Longrightarrow>
    consumer_step s (s\<lparr>cs_consumer := C_Asleep, cs_owner := None\<rparr>)"
| c_give_up: "cs_consumer s = C_Check \<Longrightarrow> \<not> rb_closed (cs_ring s) \<Longrightarrow> ring_empty (cs_ring s) \<Longrightarrow>
    cs_consumer_wait s = Wait_For \<Longrightarrow>
    consumer_step s (s\<lparr>cs_consumer := C_Idle, cs_owner := None, cs_pop_result := Some Pop_Timeout\<rparr>)"
| c_wake: "cs_consumer s = C_Asleep \<Longrightarrow> consumer_step s (s\<lparr>cs_consumer := C_Want\<rparr>)"

inductive closer_step :: "conc \<Rightarrow> conc \<Rightarrow> bool" where
  k_call: "cs_closer s = K_Idle \<Longrightarrow> closer_step s (s\<lparr>cs_closer := K_Lock\<rparr>)"
| k_lock: "cs_closer s = K_Lock \<Longrightarrow> cs_owner s = None \<Longrightarrow>
    closer_step s (s\<lparr>cs_closer := K_Store, cs_owner := Some Closer\<rparr>)"
| k_store: "cs_closer s = K_Store \<Longrightarrow>
    closer_step s (s\<lparr>cs_closer := K_Unlock, cs_ring := (cs_ring s)\<lparr>rb_closed := True\<rparr>\<rparr>)"
| k_unlock: "cs_closer s = K_Unlock \<Longrightarrow> closer_step s (s\<lparr>cs_closer := K_Data, cs_owner := None\<rparr>)"
| k_data: "cs_closer s = K_Data \<Longrightarrow> closer_step s ((notify_data s)\<lparr>cs_closer := K_Space\<rparr>)"
| k_space: "cs_closer s = K_Space \<Longrightarrow> closer_step s ((notify_space s)\<lparr>cs_closer := K_Idle\<rparr>)"

inductive reachable :: "u64 \<Rightarrow> conc \<Rightarrow> bool" for capacity where
  reach_start: "reachable capacity (start_state capacity)"
| reach_producer: "reachable capacity s \<Longrightarrow> producer_step s s' \<Longrightarrow> reachable capacity s'"
| reach_consumer: "reachable capacity s \<Longrightarrow> consumer_step s s' \<Longrightarrow> reachable capacity s'"
| reach_closer: "reachable capacity s \<Longrightarrow> closer_step s s' \<Longrightarrow> reachable capacity s'"

section \<open>Cursors and contents\<close>

lemma may_load_between:
  assumes "seen \<le> now" and "may_load seen now v"
  shows "seen \<le> v \<and> v \<le> now"
proof -
  have "unat (v - seen) \<le> unat (now - seen)" and now: "unat (now - seen) = unat now - unat seen"
    using assms by (auto simp: may_load_def word_le_nat_alt unat_sub)
  moreover have "unat now < 2 ^ 64" "unat v < 2 ^ 64" "unat seen < 2 ^ 64"
    using unsigned_less [where ?'a = nat, of now] unsigned_less [where ?'a = nat, of v]
      unsigned_less [where ?'a = nat, of seen] by simp_all
  moreover have "unat (v - seen) = (if unat seen \<le> unat v then unat v - unat seen else unat v + 2 ^ 64 - unat seen)"
    by (simp add: unat_sub_if_size word_size)
  ultimately show ?thesis
    using assms(1) by (auto simp: word_le_nat_alt split: if_splits)
qed

lemma unat_succ: "unat (w :: u64) + 1 < 2 ^ 64 \<Longrightarrow> unat (w + 1) = unat w + 1"
  by (simp add: unat_word_ariths)

definition counts_ok :: "conc \<Rightarrow> bool" where
  "counts_ok s \<longleftrightarrow>
     unat (rb_tail (cs_ring s)) = length (cs_sent s) \<and>
     unat (rb_head (cs_ring s)) = length (cs_received s) \<and>
     unat (cs_seen_head s) \<le> length (cs_received s) \<and>
     length (cs_received s) \<le> unat (cs_seen_tail s) \<and>
     unat (cs_seen_tail s) \<le> length (cs_sent s) \<and>
     length (cs_sent s) \<le> length (cs_received s) + unat (rb_capacity (cs_ring s))"

definition contents_ok :: "conc \<Rightarrow> bool" where
  "contents_ok s \<longleftrightarrow>
     length (rb_storage (cs_ring s)) = unat (rb_capacity (cs_ring s)) \<and>
     take (length (cs_received s)) (cs_sent s) = cs_received s \<and>
     (\<forall>i. length (cs_received s) \<le> i \<and> i < length (cs_sent s) \<longrightarrow>
        rb_storage (cs_ring s) ! (i mod unat (rb_capacity (cs_ring s))) = cs_sent s ! i)"

text \<open>The producer holds the tail and an old head, with room between them.\<close>

definition holds_room :: "conc \<Rightarrow> u64 \<Rightarrow> u64 \<Rightarrow> bool" where
  "holds_room s tail head \<longleftrightarrow> tail = rb_tail (cs_ring s) \<and> unat head \<le> length (cs_received s) \<and>
     length (cs_sent s) < unat head + unat (rb_capacity (cs_ring s))"

definition holds_slot :: "conc \<Rightarrow> flight_record \<Rightarrow> u64 \<Rightarrow> u64 \<Rightarrow> bool" where
  "holds_slot s x tail head \<longleftrightarrow> holds_room s tail head \<and>
     rb_storage (cs_ring s) ! (length (cs_sent s) mod unat (rb_capacity (cs_ring s))) = x"

definition producer_ok :: "conc \<Rightarrow> bool" where
  "producer_ok s \<longleftrightarrow> (case cs_producer s of
       P_Head x tail \<Rightarrow> tail = rb_tail (cs_ring s)
     | P_Slot x tail head \<Rightarrow> holds_room s tail head
     | P_Lock x tail head \<Rightarrow> holds_slot s x tail head
     | P_Publish x tail head \<Rightarrow> holds_slot s x tail head
     | P_Unlock tail head \<Rightarrow> tail + 1 - head \<le> rb_capacity (cs_ring s)
     | P_Mark occupied \<Rightarrow> occupied \<le> rb_capacity (cs_ring s)
     | P_Exchange occupied previous \<Rightarrow> occupied \<le> rb_capacity (cs_ring s)
     | _ \<Rightarrow> True)"

text \<open>The consumer has read the first \<open>n\<close> of the \<open>m\<close> records it takes.\<close>

definition holds_records :: "conc \<Rightarrow> u64 \<Rightarrow> nat \<Rightarrow> nat \<Rightarrow> bool" where
  "holds_records s head n m \<longleftrightarrow> head = rb_head (cs_ring s) \<and> n \<le> m \<and>
     length (cs_received s) + m \<le> unat (cs_seen_tail s) \<and>
     cs_out s = take n (drop (length (cs_received s)) (cs_sent s))"

definition consumer_ok :: "conc \<Rightarrow> bool" where
  "consumer_ok s \<longleftrightarrow> (case cs_consumer s of
       C_Tail head \<Rightarrow> head = rb_head (cs_ring s)
     | C_Read head \<Rightarrow> head = rb_head (cs_ring s) \<and> length (cs_received s) < unat (cs_seen_tail s)
     | C_Batch_Head max_records \<Rightarrow> cs_out s = []
     | C_Batch_Tail max_records head \<Rightarrow> head = rb_head (cs_ring s) \<and> cs_out s = []
     | C_Batch_Read head count index \<Rightarrow> holds_records s head (unat index) (unat count)
     | C_Lock head count \<Rightarrow> holds_records s head (unat count) (unat count)
     | C_Publish head count \<Rightarrow> holds_records s head (unat count) (unat count)
     | _ \<Rightarrow> True)"

definition core_inv :: "u64 \<Rightarrow> conc \<Rightarrow> bool" where
  "core_inv capacity s \<longleftrightarrow> rb_capacity (cs_ring s) = capacity \<and> rb_high_watermark (cs_ring s) \<le> capacity \<and>
     counts_ok s \<and> contents_ok s \<and> producer_ok s \<and> consumer_ok s"

lemma notify_data_simps [simp]:
  "cs_ring (notify_data s) = cs_ring s" "cs_owner (notify_data s) = cs_owner s"
  "cs_producer (notify_data s) = cs_producer s" "cs_producer_wait (notify_data s) = cs_producer_wait s"
  "cs_seen_head (notify_data s) = cs_seen_head s" "cs_seen_tail (notify_data s) = cs_seen_tail s"
  "cs_out (notify_data s) = cs_out s" "cs_closer (notify_data s) = cs_closer s"
  "cs_sent (notify_data s) = cs_sent s" "cs_received (notify_data s) = cs_received s"
  "cs_consumer (notify_data s) = (if cs_consumer s = C_Asleep then C_Want else cs_consumer s)"
  by (simp_all add: notify_data_def)

lemma notify_space_simps [simp]:
  "cs_ring (notify_space s) = cs_ring s" "cs_owner (notify_space s) = cs_owner s"
  "cs_consumer (notify_space s) = cs_consumer s" "cs_producer_wait (notify_space s) = cs_producer_wait s"
  "cs_seen_head (notify_space s) = cs_seen_head s" "cs_seen_tail (notify_space s) = cs_seen_tail s"
  "cs_out (notify_space s) = cs_out s" "cs_closer (notify_space s) = cs_closer s"
  "cs_sent (notify_space s) = cs_sent s" "cs_received (notify_space s) = cs_received s"
  "cs_producer (notify_space s) = (case cs_producer s of P_Asleep x \<Rightarrow> P_Want x | p \<Rightarrow> p)"
  by (simp_all add: notify_space_def split: producer_pc.split)

lemmas core_simps = core_inv_def counts_ok_def contents_ok_def producer_ok_def consumer_ok_def
  holds_room_def holds_slot_def holds_records_def

lemma start_core: "core_inv capacity (start_state capacity)"
  by (simp add: core_simps start_state_def make_ring_def)

lemma slot_index_nat: "slot_index r t = unat t mod unat (rb_capacity r)"
  by (simp add: slot_index_def unat_mod_distrib)

lemma producer_step_sent: "producer_step s s' \<Longrightarrow> length (cs_sent s) \<le> length (cs_sent s')"
  by (induction rule: producer_step.induct) auto

lemma consumer_step_sent: "consumer_step s s' \<Longrightarrow> cs_sent s' = cs_sent s"
  by (induction rule: consumer_step.induct) auto

lemma closer_step_sent: "closer_step s s' \<Longrightarrow> cs_sent s' = cs_sent s"
  by (induction rule: closer_step.induct) auto

text \<open>A step of one thread leaves what the other holds in place.\<close>

lemma consumer_ok_frame:
  assumes "consumer_ok s" and "cs_consumer s' = cs_consumer s \<or> cs_consumer s' = C_Want"
    and "cs_out s' = cs_out s" and "rb_head (cs_ring s') = rb_head (cs_ring s)"
    and "cs_received s' = cs_received s" and "cs_seen_tail s' = cs_seen_tail s"
    and "cs_sent s' = cs_sent s @ xs" and "counts_ok s"
  shows "consumer_ok s'"
proof -
  have "holds_records s' head n m" if "holds_records s head n m" for head n m
    using that assms by (auto simp: holds_records_def counts_ok_def)
  then show ?thesis
    using assms(1-6) by (cases "cs_consumer s") (auto simp: consumer_ok_def)
qed

lemma producer_ok_frame:
  assumes "producer_ok s" and "cs_producer s' = cs_producer s \<or> cs_producer s' = P_Want x"
    and "rb_tail (cs_ring s') = rb_tail (cs_ring s)" and "rb_capacity (cs_ring s') = rb_capacity (cs_ring s)"
    and "rb_storage (cs_ring s') = rb_storage (cs_ring s)" and "cs_sent s' = cs_sent s"
    and "cs_received s' = cs_received s @ xs"
  shows "producer_ok s'"
proof -
  have "holds_room s' t h" if "holds_room s t h" for t h
    using that assms by (auto simp: holds_room_def)
  moreover from this have "holds_slot s' y t h" if "holds_slot s y t h" for y t h
    using that assms by (auto simp: holds_slot_def)
  ultimately show ?thesis
    using assms(1-4) by (cases "cs_producer s") (auto simp: producer_ok_def)
qed

lemma notify_space_pc: "\<exists>x. cs_producer (notify_space s) = cs_producer s \<or> cs_producer (notify_space s) = P_Want x"
  by (auto split: producer_pc.split)

lemma notify_data_pc: "cs_consumer (notify_data s) = cs_consumer s \<or> cs_consumer (notify_data s) = C_Want"
  by simp

lemma closer_step_core:
  assumes "closer_step s s'" and "core_inv capacity s"
  shows "core_inv capacity s'"
proof -
  have c: "consumer_ok s" "producer_ok s" "counts_ok s" "contents_ok s"
    using assms(2) by (auto simp: core_inv_def)
  have same: "rb_head (cs_ring s') = rb_head (cs_ring s) \<and> rb_tail (cs_ring s') = rb_tail (cs_ring s) \<and>
      rb_capacity (cs_ring s') = rb_capacity (cs_ring s) \<and> rb_storage (cs_ring s') = rb_storage (cs_ring s) \<and>
      rb_high_watermark (cs_ring s') = rb_high_watermark (cs_ring s) \<and>
      cs_sent s' = cs_sent s \<and> cs_received s' = cs_received s \<and> cs_out s' = cs_out s \<and>
      cs_seen_head s' = cs_seen_head s \<and> cs_seen_tail s' = cs_seen_tail s"
    using assms(1) by (cases rule: closer_step.cases) auto
  have "cs_consumer s' = cs_consumer s \<or> cs_consumer s' = C_Want"
    using assms(1) by (cases rule: closer_step.cases) auto
  then have "consumer_ok s'"
    using c(3) same by (intro consumer_ok_frame [OF c(1), where xs = "[]"]) simp_all
  moreover have "\<exists>x. cs_producer s' = cs_producer s \<or> cs_producer s' = P_Want x"
    using assms(1) by (cases rule: closer_step.cases) (auto split: producer_pc.split)
  then obtain x where "cs_producer s' = cs_producer s \<or> cs_producer s' = P_Want x" by blast
  then have "producer_ok s'"
    using same by (intro producer_ok_frame [OF c(2), where xs = "[]" and x = x]) simp_all
  moreover have "counts_ok s'" "contents_ok s'"
    using c same by (simp_all add: counts_ok_def contents_ok_def)
  ultimately show ?thesis
    using assms(2) same by (simp add: core_inv_def)
qed

lemma load_head:
  assumes "counts_ok s" and "may_load (cs_seen_head s) (rb_head (cs_ring s)) head"
  shows "unat head \<le> length (cs_received s)"
  using may_load_between [OF _ assms(2)] assms(1) by (simp add: counts_ok_def word_le_nat_alt)

lemma load_tail:
  assumes "counts_ok s" and "may_load (cs_seen_tail s) (rb_tail (cs_ring s)) tail"
  shows "length (cs_received s) \<le> unat tail" and "unat tail \<le> length (cs_sent s)"
  using may_load_between [OF _ assms(2)] assms(1) by (simp_all add: counts_ok_def word_le_nat_alt)

lemma room_after_load:
  assumes "counts_ok s" and "tail = rb_tail (cs_ring s)" and "unat head \<le> length (cs_received s)"
    and "tail - head < rb_capacity (cs_ring s)"
  shows "holds_room s tail head"
proof -
  have "unat head \<le> unat tail" using assms(1-3) by (simp add: counts_ok_def)
  then have "unat (tail - head) = unat tail - unat head" by (simp add: unat_sub word_le_nat_alt)
  with assms show ?thesis by (simp add: holds_room_def counts_ok_def word_less_nat_alt)
qed

lemma occupied_within:
  assumes "holds_room s tail head" and "counts_ok s" and "length (cs_sent s) + 1 < 2 ^ 64"
  shows "tail + 1 - head \<le> rb_capacity (cs_ring s)"
proof -
  have tail: "unat (tail + 1) = length (cs_sent s) + 1"
    using assms unat_succ [of tail] by (simp add: holds_room_def counts_ok_def)
  have "unat head \<le> length (cs_sent s)"
    using assms by (simp add: holds_room_def counts_ok_def)
  with tail have "unat (tail + 1 - head) = length (cs_sent s) + 1 - unat head"
    by (simp add: unat_sub word_le_nat_alt)
  with assms(1) show ?thesis by (auto simp: holds_room_def word_le_nat_alt)
qed

lemma slot_write_elsewhere:
  assumes "holds_room s tail head" and "length (cs_received s) \<le> i" and "i < length (cs_sent s)"
  shows "i mod unat (rb_capacity (cs_ring s)) \<noteq> length (cs_sent s) mod unat (rb_capacity (cs_ring s))"
proof -
  have "i < length (cs_sent s)" "length (cs_sent s) - i < unat (rb_capacity (cs_ring s))"
    using assms by (auto simp: holds_room_def)
  from mod_distinct [OF this, of 0] show ?thesis by simp
qed

lemma producer_step_counts:
  assumes "producer_step s s'" and "counts_ok s" and "producer_ok s" and "length (cs_sent s') < 2 ^ 64"
  shows "counts_ok s'"
  using assms
proof (cases rule: producer_step.cases)
  case (p_publish x tail head)
  with assms have "holds_room s tail head" by (simp add: producer_ok_def holds_slot_def)
  with p_publish assms unat_succ [of tail] show ?thesis
    by (simp add: counts_ok_def holds_room_def)
qed (use assms load_head in \<open>auto simp: counts_ok_def\<close>)

lemma producer_step_contents:
  assumes "producer_step s s'" and "counts_ok s" and "contents_ok s" and "producer_ok s"
  shows "contents_ok s'"
  using assms
proof (cases rule: producer_step.cases)
  case (p_slot x tail head)
  with assms have room: "holds_room s tail head" by (simp add: producer_ok_def)
  with assms have "slot_index (cs_ring s) tail = length (cs_sent s) mod unat (rb_capacity (cs_ring s))"
    by (simp add: slot_index_nat holds_room_def counts_ok_def)
  moreover have "(rb_storage (cs_ring s))[length (cs_sent s) mod unat (rb_capacity (cs_ring s)) := x] !
      (i mod unat (rb_capacity (cs_ring s))) = rb_storage (cs_ring s) ! (i mod unat (rb_capacity (cs_ring s)))"
    if "length (cs_received s) \<le> i" and "i < length (cs_sent s)" for i
    using slot_write_elsewhere [OF room that] by (metis nth_list_update_neq)
  ultimately show ?thesis
    using assms(3) p_slot(1) by (simp add: contents_ok_def)
next
  case (p_publish x tail head)
  with assms have "holds_slot s x tail head" by (simp add: producer_ok_def)
  with assms(2,3) p_publish(1) show ?thesis
    by (auto simp: contents_ok_def holds_slot_def counts_ok_def nth_append less_Suc_eq)
qed (use assms in \<open>simp_all add: contents_ok_def\<close>)

lemma producer_step_producer:
  assumes "producer_step s s'" and "counts_ok s" and "contents_ok s" and "producer_ok s"
    and "rb_high_watermark (cs_ring s) \<le> rb_capacity (cs_ring s)" and "length (cs_sent s') < 2 ^ 64"
  shows "producer_ok s'"
  using assms
proof (cases rule: producer_step.cases)
  case (p_room x tail head)
  with assms load_head [of s head] have "holds_room s tail head"
    by (intro room_after_load) (auto simp: producer_ok_def)
  with p_room show ?thesis by (simp add: producer_ok_def holds_room_def)
next
  case (p_slot x tail head)
  with assms have room: "holds_room s tail head" by (simp add: producer_ok_def)
  then have "0 < unat (rb_capacity (cs_ring s))" using assms(2)
    by (auto simp: holds_room_def counts_ok_def)
  with room p_slot assms show ?thesis
    by (simp add: producer_ok_def holds_slot_def holds_room_def slot_index_nat counts_ok_def contents_ok_def)
next
  case (p_publish x tail head)
  with assms have "holds_room s tail head" by (simp add: producer_ok_def holds_slot_def)
  with occupied_within p_publish assms show ?thesis by (simp add: producer_ok_def)
qed (use assms in \<open>simp_all add: producer_ok_def holds_slot_def holds_room_def\<close>)

lemma producer_step_frame:
  assumes "producer_step s s'"
  shows "rb_head (cs_ring s') = rb_head (cs_ring s) \<and> cs_received s' = cs_received s \<and>
    cs_seen_tail s' = cs_seen_tail s \<and> cs_out s' = cs_out s \<and>
    rb_capacity (cs_ring s') = rb_capacity (cs_ring s) \<and>
    (cs_consumer s' = cs_consumer s \<or> cs_consumer s' = C_Want) \<and>
    (\<exists>xs. cs_sent s' = cs_sent s @ xs)"
  using assms by (cases rule: producer_step.cases) auto

lemma producer_step_watermark:
  assumes "producer_step s s'" and "producer_ok s"
    and "rb_high_watermark (cs_ring s) \<le> rb_capacity (cs_ring s)"
  shows "rb_high_watermark (cs_ring s') \<le> rb_capacity (cs_ring s')"
  using assms by (cases rule: producer_step.cases) (auto simp: producer_ok_def)

lemma producer_step_core:
  assumes "producer_step s s'" and "core_inv capacity s" and "length (cs_sent s') < 2 ^ 64"
  shows "core_inv capacity s'"
proof -
  have c: "consumer_ok s" "producer_ok s" "counts_ok s" "contents_ok s"
    and w: "rb_high_watermark (cs_ring s) \<le> rb_capacity (cs_ring s)"
    using assms(2) by (auto simp: core_inv_def)
  note frame = producer_step_frame [OF assms(1)]
  then obtain xs where "cs_sent s' = cs_sent s @ xs" by blast
  with frame c have "consumer_ok s'"
    by (intro consumer_ok_frame [OF c(1)]) simp_all
  with c w assms frame show ?thesis
    using producer_step_counts [OF assms(1)] producer_step_contents [OF assms(1)]
      producer_step_producer [OF assms(1)] producer_step_watermark [OF assms(1)]
    by (simp add: core_inv_def)
qed

text \<open>The consumer's steps.\<close>

lemma take_next:
  assumes "contents_ok s" and "counts_ok s" and "length (cs_received s) + n < length (cs_sent s)"
    and "head = rb_head (cs_ring s)" and "unat index = n"
  shows "take n (drop (length (cs_received s)) (cs_sent s)) @
      [rb_storage (cs_ring s) ! slot_index (cs_ring s) (head + index)] =
    take (Suc n) (drop (length (cs_received s)) (cs_sent s))"
proof -
  have "unat (rb_tail (cs_ring s)) < 2 ^ 64"
    using unsigned_less [of "rb_tail (cs_ring s)", where ?'a = nat] by simp
  then have "unat (head + index) = length (cs_received s) + n"
    using assms by (simp add: counts_ok_def unat_word_ariths)
  with assms show ?thesis
    by (simp add: slot_index_nat contents_ok_def take_Suc_conv_app_nth)
qed

lemma consumer_step_counts:
  assumes "consumer_step s s'" and "counts_ok s" and "consumer_ok s"
  shows "counts_ok s'"
  using assms
proof (cases rule: consumer_step.cases)
  case (c_publish head count)
  with assms have held: "holds_records s head (unat count) (unat count)"
    by (simp add: consumer_ok_def)
  have "unat (rb_tail (cs_ring s)) < 2 ^ 64"
    using unsigned_less [of "rb_tail (cs_ring s)", where ?'a = nat] by simp
  then have "unat (head + count) = length (cs_received s) + unat count"
    using assms(2) held by (simp add: counts_ok_def holds_records_def unat_word_ariths)
  moreover have "length (cs_out s) = unat count"
    using assms(2) held by (auto simp: counts_ok_def holds_records_def)
  ultimately show ?thesis
    using assms(2) held c_publish(1) by (simp add: counts_ok_def holds_records_def)
next
  case (c_some head tail)
  with assms(2) load_tail [of s tail] show ?thesis by (simp add: counts_ok_def)
next
  case (c_none head tail)
  with assms(2) load_tail [of s tail] show ?thesis by (simp add: counts_ok_def)
next
  case (c_batch_tail max_records head tail)
  with assms(2) load_tail [of s tail] show ?thesis by (simp add: counts_ok_def)
qed (use assms(2) in \<open>simp_all add: counts_ok_def\<close>)

lemma consumer_step_contents:
  assumes "consumer_step s s'" and "counts_ok s" and "contents_ok s" and "consumer_ok s"
  shows "contents_ok s'"
  using assms
proof (cases rule: consumer_step.cases)
  case (c_publish head count)
  with assms have held: "holds_records s head (unat count) (unat count)"
    by (simp add: consumer_ok_def)
  have "length (cs_out s) = unat count"
    using assms(2) held by (auto simp: counts_ok_def holds_records_def)
  moreover have "cs_received s @ cs_out s = take (length (cs_received s) + unat count) (cs_sent s)"
    using assms(3) held by (metis contents_ok_def holds_records_def take_add)
  moreover have "length (cs_received s) + unat count \<le> length (cs_sent s)"
    using assms(2) held by (simp add: counts_ok_def holds_records_def)
  ultimately show ?thesis
    using assms(3) c_publish(1) by (simp add: contents_ok_def)
qed (use assms(3) in \<open>simp_all add: contents_ok_def\<close>)

lemma consumer_step_consumer:
  assumes "consumer_step s s'" and "counts_ok s" and "contents_ok s" and "consumer_ok s"
  shows "consumer_ok s'"
  using assms
proof (cases rule: consumer_step.cases)
  case (c_some head tail)
  with assms have "unat tail \<noteq> length (cs_received s)"
    by (auto simp: consumer_ok_def counts_ok_def word_unat_eq_iff)
  with c_some assms load_tail [of s tail] have "length (cs_received s) < unat tail"
    by simp
  with c_some assms show ?thesis by (simp add: consumer_ok_def)
next
  case (c_read head)
  with assms take_next [of s 0 head 0] show ?thesis
    by (simp add: consumer_ok_def holds_records_def counts_ok_def)
next
  case (c_batch_tail max_records head tail)
  with assms load_tail [of s tail] have "unat (tail - head) = unat tail - length (cs_received s)"
    by (simp add: consumer_ok_def counts_ok_def unat_sub word_le_nat_alt)
  with c_batch_tail assms load_tail [of s tail] show ?thesis
    by (auto simp: consumer_ok_def holds_records_def min_def word_le_nat_alt)
next
  case (c_batch_read head count index)
  then have index: "unat (index + 1) = unat index + 1"
    using unat_succ [of index] unsigned_less [of count, where ?'a = nat] by (simp add: word_less_nat_alt)
  with c_batch_read assms take_next [of s "unat index" head index] show ?thesis
    by (simp add: consumer_ok_def holds_records_def counts_ok_def word_less_nat_alt)
next
  case (c_batch_some head count index)
  with assms show ?thesis
    by (simp add: consumer_ok_def holds_records_def word_less_nat_alt)
qed (use assms in \<open>simp_all add: consumer_ok_def holds_records_def\<close>)

lemma consumer_step_frame:
  assumes "consumer_step s s'"
  shows "rb_tail (cs_ring s') = rb_tail (cs_ring s) \<and> rb_capacity (cs_ring s') = rb_capacity (cs_ring s) \<and>
    rb_storage (cs_ring s') = rb_storage (cs_ring s) \<and> cs_sent s' = cs_sent s \<and>
    rb_high_watermark (cs_ring s') = rb_high_watermark (cs_ring s) \<and>
    (\<exists>x. cs_producer s' = cs_producer s \<or> cs_producer s' = P_Want x) \<and>
    (\<exists>xs. cs_received s' = cs_received s @ xs)"
  using assms by (cases rule: consumer_step.cases) (auto split: producer_pc.split)

lemma consumer_step_core:
  assumes "consumer_step s s'" and "core_inv capacity s"
  shows "core_inv capacity s'"
proof -
  have c: "consumer_ok s" "producer_ok s" "counts_ok s" "contents_ok s"
    using assms(2) by (auto simp: core_inv_def)
  note frame = consumer_step_frame [OF assms(1)]
  then obtain xs x where "cs_received s' = cs_received s @ xs"
    and "cs_producer s' = cs_producer s \<or> cs_producer s' = P_Want x" by blast
  with frame have "producer_ok s'"
    by (intro producer_ok_frame [OF c(2)]) simp_all
  with c frame assms(2) show ?thesis
    using consumer_step_counts [OF assms(1)] consumer_step_contents [OF assms(1)]
      consumer_step_consumer [OF assms(1)]
    by (simp add: core_inv_def)
qed

lemma reachable_core:
  "reachable capacity s \<Longrightarrow> length (cs_sent s) < 2 ^ 64 \<Longrightarrow> core_inv capacity s"
proof (induction rule: reachable.induct)
  case reach_start
  show ?case by (rule start_core)
next
  case (reach_producer s s')
  with producer_step_sent [of s s'] show ?case by (auto intro: producer_step_core)
next
  case (reach_consumer s s')
  then show ?case by (auto simp: consumer_step_sent intro: consumer_step_core)
next
  case (reach_closer s s')
  then show ?case by (auto simp: closer_step_sent intro: closer_step_core)
qed

section \<open>The wait mutex and the notifications\<close>

definition producer_holds :: "producer_pc \<Rightarrow> bool" where
  "producer_holds p \<longleftrightarrow> (case p of
     P_Publish x t h \<Rightarrow> True | P_Unlock t h \<Rightarrow> True | P_Check x \<Rightarrow> True | _ \<Rightarrow> False)"

definition consumer_holds :: "consumer_pc \<Rightarrow> bool" where
  "consumer_holds p \<longleftrightarrow> (case p of
     C_Publish h k \<Rightarrow> True | C_Unlock \<Rightarrow> True | C_Check \<Rightarrow> True | _ \<Rightarrow> False)"

definition mutex_ok :: "conc \<Rightarrow> bool" where
  "mutex_ok s \<longleftrightarrow> (cs_owner s = Some Producer \<longleftrightarrow> producer_holds (cs_producer s)) \<and>
     (cs_owner s = Some Consumer \<longleftrightarrow> consumer_holds (cs_consumer s)) \<and>
     (cs_owner s = Some Closer \<longleftrightarrow> cs_closer s = K_Store \<or> cs_closer s = K_Unlock)"

lemma consumer_holds_woken [simp]:
  "consumer_holds (if p = C_Asleep then C_Want else p) = consumer_holds p"
  by (simp add: consumer_holds_def)

lemma producer_holds_woken [simp]:
  "producer_holds (case p of P_Asleep x \<Rightarrow> P_Want x | q \<Rightarrow> q) = producer_holds p"
  by (cases p) (simp_all add: producer_holds_def)

lemma producer_step_mutex: "producer_step s s' \<Longrightarrow> mutex_ok s \<Longrightarrow> mutex_ok s'"
  by (induction rule: producer_step.induct) (auto simp: mutex_ok_def producer_holds_def)

lemma consumer_step_mutex: "consumer_step s s' \<Longrightarrow> mutex_ok s \<Longrightarrow> mutex_ok s'"
  by (induction rule: consumer_step.induct) (auto simp: mutex_ok_def consumer_holds_def)

lemma closer_step_mutex: "closer_step s s' \<Longrightarrow> mutex_ok s \<Longrightarrow> mutex_ok s'"
  by (induction rule: closer_step.induct) (auto simp: mutex_ok_def)

lemma reachable_mutex: "reachable capacity s \<Longrightarrow> mutex_ok s"
proof (induction rule: reachable.induct)
  case reach_start
  show ?case by (simp add: start_state_def mutex_ok_def producer_holds_def consumer_holds_def)
qed (blast intro: producer_step_mutex consumer_step_mutex closer_step_mutex)+

text \<open>A thread that has published, or stored the closed flag, and has still to notify. It holds
  the mutex or needs it no more, so it can always go on.\<close>

definition data_due :: "conc \<Rightarrow> bool" where
  "data_due s \<longleftrightarrow> (case cs_producer s of
       P_Unlock t h \<Rightarrow> True | P_Mark k \<Rightarrow> True | P_Exchange k p \<Rightarrow> True | P_Notify \<Rightarrow> True | _ \<Rightarrow> False) \<or>
     cs_closer s = K_Unlock \<or> cs_closer s = K_Data"

definition space_due :: "conc \<Rightarrow> bool" where
  "space_due s \<longleftrightarrow> cs_consumer s = C_Unlock \<or> cs_consumer s = C_Notify \<or>
     cs_closer s = K_Unlock \<or> cs_closer s = K_Data \<or> cs_closer s = K_Space"

definition producer_asleep :: "conc \<Rightarrow> bool" where
  "producer_asleep s \<longleftrightarrow> (case cs_producer s of P_Asleep x \<Rightarrow> True | _ \<Rightarrow> False)"

definition wake_ok :: "conc \<Rightarrow> bool" where
  "wake_ok s \<longleftrightarrow>
     (cs_consumer s = C_Asleep \<longrightarrow> ring_empty (cs_ring s) \<and> \<not> rb_closed (cs_ring s) \<or> data_due s) \<and>
     (producer_asleep s \<longrightarrow> ring_full (cs_ring s) \<and> \<not> rb_closed (cs_ring s) \<or> space_due s)"

lemmas wake_simps = wake_ok_def data_due_def space_due_def producer_asleep_def ring_empty_def ring_full_def

lemma producer_step_wake: "producer_step s s' \<Longrightarrow> wake_ok s \<Longrightarrow> wake_ok s'"
  by (induction rule: producer_step.induct) (auto simp: wake_simps)

lemma consumer_step_wake: "consumer_step s s' \<Longrightarrow> wake_ok s \<Longrightarrow> wake_ok s'"
  by (induction rule: consumer_step.induct) (auto simp: wake_simps split: producer_pc.split)

lemma closer_step_wake: "closer_step s s' \<Longrightarrow> wake_ok s \<Longrightarrow> wake_ok s'"
  by (induction rule: closer_step.induct) (auto simp: wake_simps split: producer_pc.split)

lemma reachable_wake: "reachable capacity s \<Longrightarrow> wake_ok s"
proof (induction rule: reachable.induct)
  case reach_start
  show ?case by (simp add: start_state_def wake_simps)
qed (blast intro: producer_step_wake consumer_step_wake closer_step_wake)+

section \<open>A call that nothing interferes with\<close>

text \<open>Run alone, the steps of a push are \<open>try_push\<close>, up to the notification that is still due,
  and the steps of a pop are \<open>try_pop_status\<close>.\<close>

lemma may_load_now [simp]: "may_load seen now now"
  by (simp add: may_load_def)

lemma push_alone:
  assumes r: "reachable capacity s" and idle: "cs_producer s = P_Idle" and free: "cs_owner s = None"
    and push: "try_push x (cs_ring s) = (Pushed, ring')"
  shows "reachable capacity (s\<lparr>cs_producer := P_Notify, cs_producer_wait := mode, cs_push_result := None,
    cs_seen_head := rb_head (cs_ring s), cs_ring := ring', cs_sent := cs_sent s @ [x]\<rparr>)"
proof -
  let ?t = "rb_tail (cs_ring s)" and ?h = "rb_head (cs_ring s)"
  from push have room: "?t - ?h < rb_capacity (cs_ring s)"
    and ring': "ring' = update_high_watermark (?t + 1 - ?h) ((cs_ring s)
      \<lparr>rb_storage := (rb_storage (cs_ring s))[slot_index (cs_ring s) ?t := x], rb_tail := ?t + 1\<rparr>)"
    by (auto simp: try_push_def Let_def not_le split: if_splits)
  note call = reach_producer [OF r p_call [OF idle, where x = x and mode = mode]]
  note opened = reach_producer [OF call p_open [of _ x], simplified]
  note tail = reach_producer [OF opened p_tail [of _ x], simplified]
  note head = reach_producer [OF tail p_room [of _ x ?t ?h], simplified, OF room]
  note slot = reach_producer [OF head p_slot [of _ x ?t ?h], simplified]
  note lock = reach_producer [OF slot p_lock [of _ x ?t ?h], simplified, OF free]
  note publish = reach_producer [OF lock p_publish [of _ x ?t ?h], simplified]
  note unlock = reach_producer [OF publish p_unlock [of _ ?t ?h], simplified]
  note mark = reach_producer [OF unlock p_mark [of _ "?t + 1 - ?h"], simplified]
  show ?thesis
  proof (cases "rb_high_watermark (cs_ring s) < ?t + 1 - ?h")
    case True
    note reach_producer [OF mark p_exchange [of _ "?t + 1 - ?h" "rb_high_watermark (cs_ring s)"], simplified, OF True]
    then show ?thesis
      by (rule back_subst [where P = "reachable capacity"])
        (simp add: ring' update_high_watermark_def True free)
  next
    case False
    note reach_producer [OF mark p_marked [of _ "?t + 1 - ?h" "rb_high_watermark (cs_ring s)"], simplified, OF False [simplified]]
    then show ?thesis
      by (rule back_subst [where P = "reachable capacity"])
        (simp add: ring' update_high_watermark_def False free)
  qed
qed

lemma pop_alone:
  assumes r: "reachable capacity s" and idle: "cs_consumer s = C_Idle" and free: "cs_owner s = None"
    and pop: "try_pop_status out (cs_ring s) = (Popped, x, ring')"
  shows "reachable capacity (s\<lparr>cs_consumer := C_Notify, cs_consumer_wait := mode, cs_pop_result := None,
    cs_seen_tail := rb_tail (cs_ring s), cs_out := [x], cs_ring := ring',
    cs_received := cs_received s @ [x]\<rparr>)"
proof -
  let ?t = "rb_tail (cs_ring s)" and ?h = "rb_head (cs_ring s)"
  from pop have some: "?h \<noteq> ?t" and x: "x = rb_storage (cs_ring s) ! slot_index (cs_ring s) ?h"
    and ring': "ring' = (cs_ring s)\<lparr>rb_head := ?h + 1\<rparr>"
    by (auto simp: try_pop_status_def Let_def split: if_splits)
  note call = reach_consumer [OF r c_call [OF idle, where mode = mode]]
  note head = reach_consumer [OF call c_head, simplified]
  note tail = reach_consumer [OF head c_some [of _ ?h ?t], simplified, OF some]
  note read = reach_consumer [OF tail c_read [of _ ?h], simplified]
  note lock = reach_consumer [OF read c_lock [of _ ?h 1], simplified, OF free]
  note publish = reach_consumer [OF lock c_publish [of _ ?h 1], simplified]
  note unlock = reach_consumer [OF publish c_unlock, simplified]
  then show ?thesis
    by (rule back_subst [where P = "reachable capacity"]) (simp add: x ring' free)
qed

section \<open>Properties\<close>

lemma core_ring_items:
  assumes "core_inv capacity s"
  shows "cs_sent s = cs_received s @ ring_items (cs_ring s)"
    and "length (ring_items (cs_ring s)) \<le> unat capacity"
proof -
  let ?r = "cs_ring s" and ?R = "length (cs_received s)" and ?S = "length (cs_sent s)"
  have c: "counts_ok s" "contents_ok s" "rb_capacity ?r = capacity" "rb_high_watermark ?r \<le> capacity"
    using assms by (auto simp: core_inv_def)
  then have le: "rb_head ?r \<le> rb_tail ?r" by (simp add: counts_ok_def word_le_nat_alt)
  then have k: "unat (rb_tail ?r - rb_head ?r) = ?S - ?R"
    using c(1) by (simp add: unat_sub counts_ok_def)
  have "unat (rb_tail ?r) < 2 ^ 64"
    using unsigned_less [of "rb_tail ?r", where ?'a = nat] by simp
  with c le k have inv: "ring_inv 0 ?r"
    by (auto simp: ring_inv_def counts_ok_def contents_ok_def word_le_nat_alt)
  have "ring_items ?r = map (\<lambda>i. cs_sent s ! (?R + i)) [0..<?S - ?R]"
    unfolding ring_items_nat [OF inv] k using c by (auto simp: counts_ok_def contents_ok_def)
  also have "\<dots> = drop ?R (cs_sent s)"
    using c(1) by (intro nth_equalityI) (auto simp: counts_ok_def)
  finally show "cs_sent s = cs_received s @ ring_items ?r"
    using c(2) by (metis append_take_drop_id contents_ok_def)
  show "length (ring_items ?r) \<le> unat capacity"
    using c by (auto simp: k counts_ok_def)
qed

text \<open>C18. First in, first out under every interleaving: in every state that the producer, the
  consumer and a closing thread can reach, whatever their accesses' order and even when an acquire
  load returns an old cursor, the records published are exactly the records taken followed by
  those in the ring; the ring never holds more than its capacity, nor does the high watermark
  exceed it. The bound is the number of pushes before a 64-bit cursor wraps around.\<close>

theorem interleaved_fifo:
  assumes "reachable capacity s" and "length (cs_sent s) < 2 ^ 64"
  shows "cs_sent s = cs_received s @ ring_items (cs_ring s) \<and>
    length (ring_items (cs_ring s)) \<le> unat capacity \<and> rb_high_watermark (cs_ring s) \<le> capacity"
  using reachable_core [OF assms] core_ring_items [OF reachable_core [OF assms]] by (simp add: core_inv_def)

text \<open>A run to apply the theorems to: a record pushed, then one pop up to the read of its slot
  while a second push is about to store into the other.\<close>

definition sample_published :: conc where
  "sample_published = (start_state 2)\<lparr>cs_producer := P_Notify, cs_producer_wait := No_Wait, cs_push_result := None,
     cs_seen_head := 0, cs_ring := snd (try_push default_flight_record (make_ring 2)),
     cs_sent := [default_flight_record]\<rparr>"

lemma sample_published_reachable: "reachable 2 sample_published"
proof -
  have "try_push default_flight_record (cs_ring (start_state 2)) =
      (Pushed, snd (try_push default_flight_record (make_ring 2)))"
    by (simp add: start_state_def try_push_def make_ring_def Let_def)
  from push_alone [OF reach_start _ _ this, where mode = No_Wait] show ?thesis
    by (simp add: sample_published_def start_state_def make_ring_def)
qed

lemma interleaved_fifo_witness:
  "reachable 2 sample_published \<and> cs_received sample_published = [] \<and>
    ring_items (cs_ring sample_published) = [default_flight_record]"
proof -
  have sent: "cs_sent sample_published = [default_flight_record]" "cs_received sample_published = []"
    by (simp_all add: sample_published_def start_state_def)
  with interleaved_fifo [OF sample_published_reachable] show ?thesis
    by (simp add: sample_published_reachable)
qed

text \<open>The slots the next step of each thread touches.\<close>

definition slot_written :: "conc \<Rightarrow> nat option" where
  "slot_written s = (case cs_producer s of
     P_Slot x tail head \<Rightarrow> Some (slot_index (cs_ring s) tail) | _ \<Rightarrow> None)"

definition slot_read :: "conc \<Rightarrow> nat option" where
  "slot_read s = (case cs_consumer s of
     C_Read head \<Rightarrow> Some (slot_index (cs_ring s) head)
   | C_Batch_Read head count index \<Rightarrow>
       if index < count then Some (slot_index (cs_ring s) (head + index)) else None
   | _ \<Rightarrow> None)"

lemma read_position:
  assumes "core_inv capacity s" and "slot_read s = Some j"
  obtains i where "length (cs_received s) \<le> i" and "i < length (cs_sent s)"
    and "j = i mod unat (rb_capacity (cs_ring s))"
proof -
  have c: "counts_ok s" "consumer_ok s" using assms(1) by (auto simp: core_inv_def)
  have small: "unat (rb_tail (cs_ring s)) < 2 ^ 64"
    using unsigned_less [of "rb_tail (cs_ring s)", where ?'a = nat] by simp
  show ?thesis
  proof (cases "cs_consumer s")
    case (C_Read head)
    with assms(2) c show ?thesis
      by (intro that [of "length (cs_received s)"])
        (auto simp: slot_read_def slot_index_nat consumer_ok_def counts_ok_def)
  next
    case (C_Batch_Read head count index)
    with assms(2) c have lt: "unat index < unat count" and held: "holds_records s head (unat index) (unat count)"
      and j: "j = slot_index (cs_ring s) (head + index)"
      by (auto simp: slot_read_def consumer_ok_def word_less_nat_alt split: if_splits)
    then have i: "length (cs_received s) + unat index < length (cs_sent s)"
      using c by (auto simp: holds_records_def counts_ok_def)
    then have "unat (head + index) = length (cs_received s) + unat index"
      using c small held by (simp add: holds_records_def counts_ok_def unat_word_ariths)
    with i j show ?thesis
      by (intro that [of "length (cs_received s) + unat index"]) (simp_all add: slot_index_nat)
  qed (use assms(2) in \<open>simp_all add: slot_read_def\<close>)
qed

text \<open>C20. No data race on the storage: whenever the producer is about to store into a slot and
  the consumer is about to read one, they are different slots. The slots themselves are not
  atomic, so this is what makes the queue well defined.\<close>

theorem slots_never_race:
  assumes "reachable capacity s" and "length (cs_sent s) < 2 ^ 64"
    and "slot_written s = Some i" and "slot_read s = Some j"
  shows "i \<noteq> j"
proof -
  note core = reachable_core [OF assms(1,2)]
  from assms(3) obtain x tail head where pc: "cs_producer s = P_Slot x tail head"
    and i: "i = slot_index (cs_ring s) tail"
    by (auto simp: slot_written_def split: producer_pc.splits)
  with core have room: "holds_room s tail head" and c: "counts_ok s"
    by (auto simp: core_inv_def producer_ok_def)
  with i have i: "i = length (cs_sent s) mod unat (rb_capacity (cs_ring s))"
    by (simp add: slot_index_nat holds_room_def counts_ok_def)
  from read_position [OF core assms(4)] slot_write_elsewhere [OF room] i show ?thesis by metis
qed

definition sample_race :: conc where
  "sample_race = sample_published\<lparr>cs_producer := P_Slot default_flight_record 1 0, cs_push_result := None,
     cs_seen_head := 0, cs_consumer := C_Read 0, cs_seen_tail := 1\<rparr>"

lemma sample_race_reachable: "reachable 2 sample_race"
proof -
  let ?x = default_flight_record
  have ring: "rb_tail (cs_ring sample_published) = 1" "rb_head (cs_ring sample_published) = 0"
    "rb_capacity (cs_ring sample_published) = 2" "cs_producer sample_published = P_Notify"
    "cs_consumer sample_published = C_Idle" "notify_data sample_published = sample_published"
    by (simp_all add: sample_published_def start_state_def try_push_def make_ring_def Let_def notify_data_def)
  note idle = reach_producer [OF sample_published_reachable p_notify, simplified ring, OF refl]
  note call = reach_producer [OF idle p_call [where x = ?x and mode = No_Wait], simplified]
  note opened = reach_producer [OF call p_open [of _ ?x], simplified]
  note tail = reach_producer [OF opened p_tail [of _ ?x], simplified ring, simplified, simplified ring]
  have "may_load (cs_seen_head sample_published) 0 0" by (simp add: may_load_def)
  then have "reachable 2 (sample_published\<lparr>cs_producer_wait := No_Wait, cs_push_result := None,
      cs_producer := P_Slot ?x 1 0, cs_seen_head := 0\<rparr>)"
    using reach_producer [OF tail p_room [of _ ?x 1 0]] by (simp add: ring)
  note call = reach_consumer [OF this c_call [where mode = No_Wait], simplified, OF ring(5)]
  note head = reach_consumer [OF call c_head, simplified, simplified ring]
  have "may_load (cs_seen_tail sample_published) 1 1" by simp
  then have "reachable 2 (sample_published\<lparr>cs_producer_wait := No_Wait, cs_push_result := None,
      cs_producer := P_Slot ?x 1 0, cs_seen_head := 0, cs_consumer_wait := No_Wait,
      cs_out := [], cs_pop_result := None, cs_consumer := C_Read 0, cs_seen_tail := 1\<rparr>)"
    using reach_consumer [OF head c_some [of _ 0 1]] by (simp add: ring)
  then show ?thesis
    by (rule back_subst [where P = "reachable 2"]) (simp add: sample_race_def sample_published_def start_state_def)
qed

lemma slots_never_race_witness:
  "slot_written sample_race = Some 1 \<and> slot_read sample_race = Some 0 \<and> (1 :: nat) \<noteq> 0"
proof -
  have "slot_written sample_race = Some 1" "slot_read sample_race = Some 0" "length (cs_sent sample_race) < 2 ^ 64"
    by (simp_all add: slot_written_def slot_read_def slot_index_def sample_race_def sample_published_def
        start_state_def try_push_def make_ring_def Let_def)
  with slots_never_race [OF sample_race_reachable] show ?thesis by simp
qed


definition sample_asleep :: conc where
  "sample_asleep = (start_state 1)\<lparr>cs_consumer := C_Asleep, cs_consumer_wait := Wait_Blocking, cs_out := [],
     cs_pop_result := None, cs_seen_tail := 0\<rparr>"

lemma sample_asleep_reachable: "reachable 1 sample_asleep"
proof -
  have ring: "rb_tail (make_ring 1) = 0" "rb_head (make_ring 1) = 0" "ring_empty (make_ring 1)" "\<not> rb_closed (make_ring 1)"
    by (simp_all add: make_ring_def ring_empty_def)
  note call = reach_consumer [OF reach_start [of 1] c_call [where mode = Wait_Blocking], unfolded start_state_def, simplified]
  note head = reach_consumer [OF call c_head, simplified, unfolded ring]
  note tail = reach_consumer [OF head c_none [of _ 0 0], simplified, unfolded ring, simplified]
  note opened = reach_consumer [OF tail c_open, simplified]
  note want = reach_consumer [OF opened c_want, simplified]
  note asleep = reach_consumer [OF want c_sleep, simplified, OF ring(4,3)]
  then show ?thesis
    by (rule back_subst [where P = "reachable 1"]) (simp add: sample_asleep_def start_state_def)
qed


text \<open>C22. A close can strand a record. When the consumer has loaded the tail and found the queue
  empty, and the producer then completes a push and the queue is closed before the consumer loads
  the closed flag, the pop returns \<open>Closed\<close> although the record is in the queue. A consumer that
  stops at the first \<open>Closed\<close>, as the writer thread does, never takes it.\<close>

theorem close_can_strand_record:
  "\<exists>s. reachable 1 s \<and> cs_producer s = P_Idle \<and> cs_push_result s = Some Pushed \<and>
    cs_closer s = K_Idle \<and> cs_consumer s = C_Idle \<and> cs_pop_result s = Some Pop_Closed \<and>
    cs_sent s = [x] \<and> cs_received s = [] \<and> ring_items (cs_ring s) = [x]"
proof -
  have ring: "rb_tail (make_ring 1) = 0" "rb_head (make_ring 1) = 0"
    by (simp_all add: make_ring_def)
  note call = reach_consumer [OF reach_start [of 1] c_call [where mode = Wait_For], unfolded start_state_def, simplified]
  note head = reach_consumer [OF call c_head, simplified, unfolded ring]
  note tail = reach_consumer [OF head c_none [of _ 0 0], simplified, unfolded ring, simplified]
  let ?ring = "snd (try_push x (make_ring 1))"
  have "try_push x (make_ring 1) = (Pushed, ?ring)"
    by (simp add: try_push_def make_ring_def Let_def)
  note pushed = push_alone [OF tail, simplified, OF this, where mode = Wait_For, unfolded ring]
  note notified = reach_producer [OF pushed p_notify, simplified, unfolded notify_data_def, simplified]
  note k1 = reach_closer [OF notified k_call, simplified]
  note k2 = reach_closer [OF k1 k_lock, simplified]
  note k3 = reach_closer [OF k2 k_store, simplified]
  note k4 = reach_closer [OF k3 k_unlock, simplified]
  note k5 = reach_closer [OF k4 k_data, simplified, unfolded notify_data_def, simplified]
  note k6 = reach_closer [OF k5 k_space, simplified, unfolded notify_space_def, simplified]
  note closed = reach_consumer [OF k6 c_closed, simplified]
  obtain s where s: "reachable 1 s" "cs_producer s = P_Idle \<and> cs_push_result s = Some Pushed \<and>
    cs_closer s = K_Idle \<and> cs_consumer s = C_Idle \<and> cs_pop_result s = Some Pop_Closed \<and>
    cs_sent s = [x] \<and> cs_received s = []"
    by (rule that, rule closed) simp
  with core_ring_items(1) [OF reachable_core [OF s(1)]] show ?thesis by auto
qed

end
