(* ===== verification/Os_Files.thy ===== *)
theory Os_Files
  imports Prelude
begin

text \<open>
  The operating system as the recorder uses it. The kernel's code is not part of the repository:
  what it may answer to each call is a parameter of the model, a finite script of outcomes. A
  call takes the next outcome of the script, and succeeds completely when the script is used up.
  So every interleaving of short writes, interruptions and failures is some script, and a retry
  loop ends because the script does. \<open>os_synced\<close> records what a file held at its last successful
  synchronisation, the part a loss of power cannot take away; no operation reads it.
  \<open>os_elapsed\<close> holds the durations the clock will measure, \<open>os_now\<close> the time of day, and
  \<open>os_keep_size\<close> says whether the platform has keep-size preallocation.
\<close>

datatype outcome = Done | Short nat | Interrupted | Failed

record os =
  os_files :: "string \<Rightarrow> bytes option"
  os_synced :: "string \<Rightarrow> bytes option"
  os_script :: "outcome list"
  os_elapsed :: "u64 list"
  os_now :: u64
  os_keep_size :: bool

definition next_outcome :: "os \<Rightarrow> outcome \<times> os" where
  "next_outcome s = (case os_script s of [] \<Rightarrow> (Done, s) | r # rs \<Rightarrow> (r, s\<lparr>os_script := rs\<rparr>))"

text \<open>Calls with no partial result either succeed or fail.\<close>

definition succeeds :: "os \<Rightarrow> bool \<times> os" where
  "succeeds s = (case next_outcome s of (r, s') \<Rightarrow>
     (case r of Done \<Rightarrow> True | Short _ \<Rightarrow> True | Interrupted \<Rightarrow> False | Failed \<Rightarrow> False, s'))"

text \<open>The time a call took, in nanoseconds, as the clock reads around it.\<close>

definition next_elapsed :: "os \<Rightarrow> u64 \<times> os" where
  "next_elapsed s = (case os_elapsed s of [] \<Rightarrow> (0, s) | e # es \<Rightarrow> (e, s\<lparr>os_elapsed := es\<rparr>))"

section \<open>File contents\<close>

definition overwrite :: "bytes \<Rightarrow> nat \<Rightarrow> bytes \<Rightarrow> bytes" where
  "overwrite c off d = take off (c @ replicate (off - length c) 0) @ d @ drop (off + length d) c"

definition resize :: "nat \<Rightarrow> bytes \<Rightarrow> bytes" where
  "resize n c = take n c @ replicate (n - length c) 0"

definition set_file :: "string \<Rightarrow> bytes \<Rightarrow> os \<Rightarrow> os" where
  "set_file path c s = s\<lparr>os_files := (os_files s)(path \<mapsto> c)\<rparr>"

definition file_bytes :: "string \<Rightarrow> os \<Rightarrow> bytes" where
  "file_bytes path s = (case os_files s path of None \<Rightarrow> [] | Some c \<Rightarrow> c)"

section \<open>Calls\<close>

text \<open>\<open>stat\<close>, \<open>fstat\<close> and \<open>access\<close> read the directory; the file is there or it is not.\<close>

definition path_exists :: "string \<Rightarrow> os \<Rightarrow> bool" where
  "path_exists path s = (os_files s path \<noteq> None)"

definition stat_size :: "string \<Rightarrow> os \<Rightarrow> nat" where
  "stat_size path s = length (file_bytes path s)"

text \<open>Opening to read needs the file; \<open>O_CREAT\<close> makes an empty one; \<open>O_TRUNC\<close> empties it.\<close>

definition open_read :: "string \<Rightarrow> os \<Rightarrow> bool \<times> os" where
  "open_read path s = (case succeeds s of (ok, s') \<Rightarrow> (ok \<and> path_exists path s, s'))"

definition open_create :: "string \<Rightarrow> os \<Rightarrow> bool \<times> os" where
  "open_create path s = (case succeeds s of (ok, s') \<Rightarrow>
     (ok, if ok \<and> \<not> path_exists path s then set_file path [] s' else s'))"

definition open_trunc :: "string \<Rightarrow> os \<Rightarrow> bool \<times> os" where
  "open_trunc path s = (case succeeds s of (ok, s') \<Rightarrow>
     (ok, if ok then set_file path [] s' else s'))"

datatype io_count = Wrote nat | Eintr | Eother

definition pwrite :: "string \<Rightarrow> bytes \<Rightarrow> nat \<Rightarrow> os \<Rightarrow> io_count \<times> os" where
  "pwrite path d off s = (case next_outcome s of
     (Done, s') \<Rightarrow> (Wrote (length d), set_file path (overwrite (file_bytes path s) off d) s')
   | (Short n, s') \<Rightarrow>
       (Wrote (min n (length d)), set_file path (overwrite (file_bytes path s) off (take n d)) s')
   | (Interrupted, s') \<Rightarrow> (Eintr, s')
   | (Failed, s') \<Rightarrow> (Eother, s'))"

text \<open>\<open>pread\<close>: the bytes there are, \<open>None\<close> for an error.\<close>

definition pread :: "string \<Rightarrow> nat \<Rightarrow> nat \<Rightarrow> os \<Rightarrow> bytes option \<times> os" where
  "pread path n off s = (case succeeds s of (ok, s') \<Rightarrow>
     (if ok then Some (take n (drop off (file_bytes path s))) else None, s'))"

definition sync_file :: "string \<Rightarrow> os \<Rightarrow> bool \<times> os" where
  "sync_file path s = (case succeeds s of (ok, s') \<Rightarrow>
     (ok, if ok then s'\<lparr>os_synced := (os_synced s)(path \<mapsto> file_bytes path s)\<rparr> else s'))"

definition truncate_file :: "string \<Rightarrow> nat \<Rightarrow> os \<Rightarrow> bool \<times> os" where
  "truncate_file path n s = (case succeeds s of (ok, s') \<Rightarrow>
     (ok, if ok then set_file path (resize n (file_bytes path s)) s' else s'))"

text \<open>A directory is opened and synchronised; the model has no directory contents to change.\<close>

definition sync_directory :: "string \<Rightarrow> os \<Rightarrow> bool \<times> os" where
  "sync_directory directory s = (case succeeds s of (opened, s1) \<Rightarrow>
     if \<not> opened then (False, s1) else succeeds s1)"

section \<open>Contents after a call\<close>

named_theorems os_simps \<open>what a call does to files when the system does not fail\<close>

lemma length_overwrite: "length (overwrite c off d) = max (length c) (off + length d)"
  by (simp add: overwrite_def)

lemma overwrite_nil [simp]: "off \<le> length c \<Longrightarrow> overwrite c off [] = c"
  by (simp add: overwrite_def)

lemma overwrite_end: "off = length c \<Longrightarrow> overwrite c off d = c @ d"
  by (simp add: overwrite_def)

lemma overwrite_start: "overwrite c 0 d = d @ drop (length d) c"
  by (simp add: overwrite_def)

lemma overwrite_mid:
  "length a = off \<Longrightarrow> length d \<le> length b \<Longrightarrow> overwrite (a @ b) off d = a @ d @ drop (length d) b"
  by (simp add: overwrite_def)

text \<open>Two consecutive writes are one write of both pieces.\<close>

lemma overwrite_overwrite:
  "overwrite (overwrite c off d) (off + length d) e = overwrite c off (d @ e)"
proof -
  obtain p where p: "p = take off (c @ replicate (off - length c) 0)" and len: "length p = off"
    by simp
  have inner: "overwrite c off d = (p @ d) @ drop (off + length d) c"
    by (simp add: overwrite_def p)
  have "overwrite (overwrite c off d) (off + length d) e = (p @ d) @ e @ drop (off + length d + length e) c"
    unfolding inner by (subst overwrite_def) (simp add: len add.commute add.left_commute)
  then show ?thesis
    by (simp add: overwrite_def p add.assoc)
qed

lemma resize_id [simp]: "resize (length c) c = c"
  by (simp add: resize_def)

lemma resize_prefix: "n \<le> length c \<Longrightarrow> resize n c = take n c"
  by (simp add: resize_def)

lemma file_bytes_set [simp]: "file_bytes p (set_file p c s) = c"
  by (simp add: file_bytes_def set_file_def)

lemma file_bytes_set_other [simp]: "p \<noteq> q \<Longrightarrow> file_bytes p (set_file q c s) = file_bytes p s"
  by (simp add: file_bytes_def set_file_def)

lemma set_file_fields [simp]:
  "os_script (set_file p c s) = os_script s" "os_synced (set_file p c s) = os_synced s"
  "os_elapsed (set_file p c s) = os_elapsed s" "os_now (set_file p c s) = os_now s"
  "os_files (set_file p c s) = (os_files s)(p \<mapsto> c)"
  by (simp_all add: set_file_def)

lemma file_bytes_some: "os_files s p = Some c \<Longrightarrow> file_bytes p s = c"
  by (simp add: file_bytes_def)

lemma file_bytes_update [simp]:
  "file_bytes p (s\<lparr>os_script := x\<rparr>) = file_bytes p s"
  "file_bytes p (s\<lparr>os_synced := y\<rparr>) = file_bytes p s"
  "file_bytes p (s\<lparr>os_elapsed := z\<rparr>) = file_bytes p s"
  by (simp_all add: file_bytes_def)

lemma next_outcome_nil [os_simps]: "os_script s = [] \<Longrightarrow> next_outcome s = (Done, s)"
  by (simp add: next_outcome_def)

lemma succeeds_nil [os_simps]: "os_script s = [] \<Longrightarrow> succeeds s = (True, s)"
  by (simp add: succeeds_def os_simps)

lemma open_read_nil [os_simps]:
  "os_script s = [] \<Longrightarrow> open_read p s = (path_exists p s, s)"
  by (simp add: open_read_def os_simps)

lemma open_create_nil [os_simps]:
  "os_script s = [] \<Longrightarrow> open_create p s = (True, if path_exists p s then s else set_file p [] s)"
  by (simp add: open_create_def os_simps)

lemma open_trunc_nil [os_simps]:
  "os_script s = [] \<Longrightarrow> open_trunc p s = (True, set_file p [] s)"
  by (simp add: open_trunc_def os_simps)

lemma pwrite_nil [os_simps]:
  "os_script s = [] \<Longrightarrow>
    pwrite p d off s = (Wrote (length d), set_file p (overwrite (file_bytes p s) off d) s)"
  by (simp add: pwrite_def os_simps)

lemma pread_nil [os_simps]:
  "os_script s = [] \<Longrightarrow> pread p n off s = (Some (take n (drop off (file_bytes p s))), s)"
  by (simp add: pread_def os_simps)

lemma sync_file_nil [os_simps]:
  "os_script s = [] \<Longrightarrow>
    sync_file p s = (True, s\<lparr>os_synced := (os_synced s)(p \<mapsto> file_bytes p s)\<rparr>)"
  by (simp add: sync_file_def os_simps)

lemma truncate_file_nil [os_simps]:
  "os_script s = [] \<Longrightarrow>
    truncate_file p n s = (True, set_file p (resize n (file_bytes p s)) s)"
  by (simp add: truncate_file_def os_simps)

lemma sync_directory_nil [os_simps]: "os_script s = [] \<Longrightarrow> sync_directory p s = (True, s)"
  by (simp add: sync_directory_def os_simps)

text \<open>What a call cannot change, whatever its outcome.\<close>

lemma next_outcome_files: "next_outcome s = (r, s') \<Longrightarrow> os_files s' = os_files s \<and> os_synced s' = os_synced s"
  by (auto simp: next_outcome_def split: list.splits)

lemma succeeds_files: "succeeds s = (ok, s') \<Longrightarrow> os_files s' = os_files s \<and> os_synced s' = os_synced s"
  by (auto simp: succeeds_def split: prod.splits dest: next_outcome_files)

lemma next_outcome_script: "next_outcome s = (r, s') \<Longrightarrow> os_script s' = tl (os_script s)"
  by (auto simp: next_outcome_def split: list.splits)

lemma pwrite_script: "pwrite p d off s = (n, s') \<Longrightarrow> os_script s' = tl (os_script s)"
  by (auto simp: pwrite_def split: prod.splits outcome.splits dest: next_outcome_script)

lemma pwrite_measure:
  assumes "pwrite p d off s = (Wrote n, s')" and "d \<noteq> []"
  shows "length (drop n d) + length (os_script s') < length d + length (os_script s) \<or> n = 0"
proof (cases "os_script s")
  case Nil
  with assms show ?thesis by (auto simp: os_simps)
next
  case (Cons r rs)
  with assms show ?thesis by (auto simp: pwrite_script)
qed

lemma pwrite_eintr_measure:
  "pwrite p d off s = (Eintr, s') \<Longrightarrow> length (os_script s') < length (os_script s)"
  by (cases "os_script s") (auto simp: pwrite_def next_outcome_def split: outcome.splits)

text \<open>A write leaves, whatever its outcome, a prefix of the data in place.\<close>

lemma pwrite_effect:
  assumes "pwrite p d off s = (r, s')" and "off \<le> length (file_bytes p s)"
  shows "file_bytes p s' = overwrite (file_bytes p s) off (take (case r of Wrote n \<Rightarrow> n | _ \<Rightarrow> 0) d)"
    and "\<And>q. q \<noteq> p \<Longrightarrow> file_bytes q s' = file_bytes q s"
    and "os_synced s' = os_synced s"
proof -
  obtain o1 s1 where o: "next_outcome s = (o1, s1)" by force
  note same = next_outcome_files [OF o]
  then have fb: "file_bytes q s1 = file_bytes q s" for q by (simp add: file_bytes_def)
  have cut: "take (min n (length d)) d = take n d" for n by (simp add: min_def)
  show "file_bytes p s' = overwrite (file_bytes p s) off (take (case r of Wrote n \<Rightarrow> n | _ \<Rightarrow> 0) d)"
    using assms fb by (cases o1) (auto simp: pwrite_def o cut)
  show "file_bytes q s' = file_bytes q s" if "q \<noteq> p" for q
    using assms that fb by (cases o1) (auto simp: pwrite_def o)
  show "os_synced s' = os_synced s"
    using assms same by (cases o1) (auto simp: pwrite_def o)
qed

end
