(* ===== verification/Log_Scan.thy ===== *)
theory Log_Scan
  imports Log_Format Os_Files
begin

text \<open>
  The forward scan of a log, \<open>scan_file\<close> and \<open>scan_healthy_prefix\<close> of \<open>recovery_manager.cpp\<close>,
  with the report and the replay entries they produce, and the specification they meet: the scan
  accepts exactly the longest valid prefix of the file.
\<close>

section \<open>Reports\<close>

record log_file_metadata =
  md_format_version :: u16
  md_recorder_start_time_us :: u64
  md_record_size :: u32

record recovery_report =
  rr_healthy :: bool
  rr_truncated :: bool
  rr_valid_records :: nat
  rr_last_sequence :: u64
  rr_valid_bytes :: nat
  rr_bytes_scanned :: nat
  rr_checksum_failures :: nat
  rr_corruption_detected :: bool
  rr_first_bad_record_index :: nat
  rr_first_bad_record_sequence :: u64
  rr_expected_sequence :: u64
  rr_corruption_offset :: nat
  rr_message :: string

record replay_entry =
  re_sequence :: u64
  re_record :: flight_record

record replay_log =
  rl_metadata :: log_file_metadata
  rl_entries :: "replay_entry list"

definition empty_metadata :: log_file_metadata where
  "empty_metadata = \<lparr>md_format_version = 0, md_recorder_start_time_us = 0, md_record_size = 0\<rparr>"

definition empty_report :: recovery_report where
  "empty_report = \<lparr>rr_healthy = False, rr_truncated = False, rr_valid_records = 0,
     rr_last_sequence = 0, rr_valid_bytes = 0, rr_bytes_scanned = 0, rr_checksum_failures = 0,
     rr_corruption_detected = False, rr_first_bad_record_index = 0,
     rr_first_bad_record_sequence = 0, rr_expected_sequence = 0, rr_corruption_offset = 0,
     rr_message = []\<rparr>"

section \<open>The scan\<close>

definition record_metadata_ok :: "persisted_record_header \<Rightarrow> bool" where
  "record_metadata_ok header \<longleftrightarrow>
     rh_magic header = kLogRecordMagic \<and> rh_version header = kLogFormatVersion \<and>
     rh_header_size header = word_of_nat sizeof_record_header \<and>
     rh_payload_size header = word_of_nat sizeof_payload"

definition file_metadata_ok :: "persisted_file_header \<Rightarrow> bool" where
  "file_metadata_ok header \<longleftrightarrow>
     fh_magic header = kLogFileMagic \<and> fh_version header = kLogFormatVersion \<and>
     fh_header_size header = word_of_nat sizeof_file_header \<and>
     fh_record_size header = word_of_nat kPersistedRecordSize"

text \<open>
  The loop over the records. \<open>input\<close> is what the stream still holds; \<open>previous\<close> stands for
  \<open>seen_record\<close> with \<open>previous_sequence\<close>. A read that comes short leaves \<open>gcount\<close> at the bytes
  there were.
\<close>

function scan_loop :: "bytes \<Rightarrow> nat \<Rightarrow> u64 option \<Rightarrow> recovery_report \<Rightarrow> replay_entry list \<Rightarrow>
    recovery_report \<times> replay_entry list" where
  "scan_loop input valid_bytes previous report0 entries =
    (let record_offset = valid_bytes;
         report1 = report0\<lparr>rr_first_bad_record_index := rr_valid_records report0 + 1,
                           rr_corruption_offset := record_offset\<rparr>
     in if length input < sizeof_record_header then
          (let report2 = report1\<lparr>rr_bytes_scanned := record_offset + length input\<rparr>
           in if input = [] then
                (report2\<lparr>rr_healthy := True, rr_valid_bytes := valid_bytes,
                         rr_message := ''Log validated successfully''\<rparr>, entries)
              else
                (report2\<lparr>rr_corruption_detected := True, rr_valid_bytes := valid_bytes,
                         rr_message := ''Detected partial record header at end of file''\<rparr>, entries))
        else
     let header = dec_record_header (take sizeof_record_header input);
         input1 = drop sizeof_record_header input;
         report2 = report1\<lparr>rr_bytes_scanned := record_offset + sizeof_record_header,
                           rr_first_bad_record_sequence := rh_sequence header\<rparr>
     in if \<not> record_metadata_ok header then
          (report2\<lparr>rr_corruption_detected := True, rr_valid_bytes := valid_bytes,
                   rr_message := ''Detected invalid record metadata''\<rparr>, entries)
        else if length input1 < sizeof_payload then
          (report2\<lparr>rr_bytes_scanned := rr_bytes_scanned report2 + length input1,
                   rr_corruption_detected := True, rr_valid_bytes := valid_bytes,
                   rr_message := ''Detected truncated record payload''\<rparr>, entries)
        else
     let payload = dec_payload (take sizeof_payload input1);
         input2 = drop sizeof_payload input1;
         report3 = report2\<lparr>rr_bytes_scanned := rr_bytes_scanned report2 + sizeof_payload\<rparr>
     in if length input2 < 4 then
          (report3\<lparr>rr_bytes_scanned := rr_bytes_scanned report3 + length input2,
                   rr_corruption_detected := True, rr_valid_bytes := valid_bytes,
                   rr_message := ''Detected truncated record CRC''\<rparr>, entries)
        else
     let stored_crc = un_le (take 4 input2);
         input3 = drop 4 input2;
         report4 = report3\<lparr>rr_bytes_scanned := rr_bytes_scanned report3 + 4\<rparr>
     in if stored_crc \<noteq> compute_record_crc header payload then
          (report4\<lparr>rr_corruption_detected := True, rr_valid_bytes := valid_bytes,
                   rr_checksum_failures := rr_checksum_failures report4 + 1,
                   rr_message := ''Detected CRC mismatch''\<rparr>, entries)
        else if (case previous of None \<Rightarrow> False
                 | Some p \<Rightarrow> p = - 1 \<or> rh_sequence header \<noteq> p + 1) then
          (let expected = the previous + 1 in
           (report4\<lparr>rr_corruption_detected := True, rr_valid_bytes := valid_bytes,
                    rr_expected_sequence := expected,
                    rr_message := ''Detected non-contiguous record sequence: expected '' @
                      show_word expected @ '', observed '' @ show_word (rh_sequence header)\<rparr>, entries))
        else
          scan_loop input3 (record_offset + sizeof_record_header + sizeof_payload + 4)
            (Some (rh_sequence header))
            (report4\<lparr>rr_valid_records := rr_valid_records report4 + 1,
                     rr_last_sequence := rh_sequence header\<rparr>)
            (entries @ [\<lparr>re_sequence = rh_sequence header,
                         re_record = make_runtime_record header payload\<rparr>]))"
  by pat_completeness auto
termination
  by (relation "measure (\<lambda>(input, _). length input)") auto

declare scan_loop.simps [simp del]

text \<open>The body of \<open>scan_file\<close> on a file that opened, before the optional truncation.\<close>

definition scan_contents :: "bytes \<Rightarrow> recovery_report \<times> log_file_metadata \<times> replay_entry list" where
  "scan_contents input =
    (if length input < sizeof_file_header then
       (empty_report\<lparr>rr_bytes_scanned := length input, rr_corruption_detected := True,
          rr_corruption_offset := 0, rr_message := ''Detected missing or partial file header''\<rparr>,
        empty_metadata, [])
     else
     let file_header = dec_file_header (take sizeof_file_header input);
         report = empty_report\<lparr>rr_bytes_scanned := sizeof_file_header\<rparr>
     in if \<not> file_metadata_ok file_header then
          (report\<lparr>rr_corruption_detected := True, rr_corruption_offset := 0,
                  rr_message := ''Detected invalid file header metadata''\<rparr>, empty_metadata, [])
        else if compute_file_header_crc file_header \<noteq> fh_header_crc32 file_header then
          (report\<lparr>rr_corruption_detected := True, rr_corruption_offset := 0,
                  rr_message := ''Detected corrupted file header CRC''\<rparr>, empty_metadata, [])
        else
          (case scan_loop (drop sizeof_file_header input) sizeof_file_header None report [] of
             (report', entries) \<Rightarrow>
               (report', \<lparr>md_format_version = fh_version file_header,
                          md_recorder_start_time_us = fh_recorder_start_time_us file_header,
                          md_record_size = fh_record_size file_header\<rparr>, entries)))"

definition scan_file :: "string \<Rightarrow> bool \<Rightarrow> os \<Rightarrow>
    (recovery_report \<times> log_file_metadata \<times> replay_entry list) \<times> os" where
  "scan_file path truncate_invalid_tail s =
    (if \<not> path_exists path s then
       ((empty_report\<lparr>rr_healthy := True, rr_message := ''Log file not present''\<rparr>,
         empty_metadata, []), s)
     else case open_read path s of (opened, s1) \<Rightarrow>
     if \<not> opened then
       ((empty_report\<lparr>rr_message := ''Failed to open log file''\<rparr>, empty_metadata, []), s1)
     else case scan_contents (file_bytes path s1) of (report, metadata, entries) \<Rightarrow>
     if \<not> rr_healthy report \<and> truncate_invalid_tail \<and> sizeof_file_header \<le> rr_valid_bytes report then
       (case truncate_file path (rr_valid_bytes report) s1 of (truncated, s2) \<Rightarrow>
          if truncated then
            ((report\<lparr>rr_truncated := True,
                     rr_message := rr_message report @ ''; truncated invalid tail''\<rparr>,
              metadata, entries), s2)
          else ((report, metadata, entries), s2))
     else ((report, metadata, entries), s1))"

definition scan_healthy_prefix :: "string \<Rightarrow> bool \<Rightarrow> os \<Rightarrow> recovery_report \<times> os" where
  "scan_healthy_prefix path truncate_invalid_tail s =
    (case scan_file path truncate_invalid_tail s of ((report, _, _), s1) \<Rightarrow>
     if \<not> rr_healthy report \<and> rr_truncated report then
       (case scan_file path False s1 of ((report', _, _), s2) \<Rightarrow>
          (report'\<lparr>rr_truncated := True,
                   rr_message := rr_message report' @ ''; log prefix recovered''\<rparr>, s2))
     else (report, s1))"

section \<open>The public operations over the scan\<close>

text \<open>\<open>validate\<close>, \<open>recover\<close>, \<open>scan_replayable_log\<close> (which always returns true), \<open>read_log\<close> and
  \<open>read_all\<close>; an error is \<open>Inl\<close> of its message, on which the caller's log is cleared.\<close>

definition validate :: "string \<Rightarrow> os \<Rightarrow> recovery_report \<times> os" where
  "validate path s = (case scan_file path False s of ((report, _, _), s') \<Rightarrow> (report, s'))"

definition recover :: "string \<Rightarrow> bool \<Rightarrow> os \<Rightarrow> recovery_report \<times> os" where
  "recover path truncate_invalid_tail s = scan_healthy_prefix path truncate_invalid_tail s"

definition scan_replayable_log :: "string \<Rightarrow> os \<Rightarrow> (replay_log \<times> recovery_report) \<times> os" where
  "scan_replayable_log path s = (case scan_file path False s of ((report, metadata, entries), s') \<Rightarrow>
     ((\<lparr>rl_metadata = metadata, rl_entries = entries\<rparr>, report), s'))"

definition read_log :: "string \<Rightarrow> os \<Rightarrow> (string + replay_log) \<times> os" where
  "read_log path s = (case scan_replayable_log path s of ((log, report), s') \<Rightarrow>
     (if \<not> rr_healthy report then Inl (rr_message report) else Inr log, s'))"

definition read_all :: "string \<Rightarrow> os \<Rightarrow> (string + replay_entry list) \<times> os" where
  "read_all path s = (case read_log path s of
     (Inl error, s') \<Rightarrow> (Inl error, s') | (Inr log, s') \<Rightarrow> (Inr (rl_entries log), s'))"

section \<open>Specification: the longest valid prefix\<close>

definition enc_frames :: "log_frame list \<Rightarrow> bytes" where
  "enc_frames fs = concat (map enc_frame fs)"

definition frame_seq :: "log_frame \<Rightarrow> u64" where
  "frame_seq f = rh_sequence (fst f)"

definition frame_entry :: "log_frame \<Rightarrow> replay_entry" where
  "frame_entry f = (case f of (header, payload, _) \<Rightarrow>
     \<lparr>re_sequence = rh_sequence header, re_record = make_runtime_record header payload\<rparr>)"

definition frame_ok :: "log_frame \<Rightarrow> bool" where
  "frame_ok f \<longleftrightarrow> (case f of (header, payload, crc) \<Rightarrow>
     record_metadata_ok header \<and> crc = compute_record_crc header payload)"

definition follows :: "u64 option \<Rightarrow> u64 \<Rightarrow> bool" where
  "follows previous q \<longleftrightarrow> (case previous of None \<Rightarrow> True | Some p \<Rightarrow> p \<noteq> - 1 \<and> q = p + 1)"

primrec chain_ok :: "u64 option \<Rightarrow> log_frame list \<Rightarrow> bool" where
  "chain_ok previous [] \<longleftrightarrow> True"
| "chain_ok previous (f # fs) \<longleftrightarrow>
     frame_ok f \<and> follows previous (frame_seq f) \<and> chain_ok (Some (frame_seq f)) fs"

definition last_seq :: "u64 option \<Rightarrow> log_frame list \<Rightarrow> u64 option" where
  "last_seq previous fs = (if fs = [] then previous else Some (frame_seq (last fs)))"

definition acceptable :: "u64 option \<Rightarrow> bytes \<Rightarrow> bool" where
  "acceptable previous input \<longleftrightarrow> 84 \<le> length input \<and> frame_ok (dec_frame (take 84 input)) \<and>
     follows previous (frame_seq (dec_frame (take 84 input)))"

function valid_prefix :: "u64 option \<Rightarrow> bytes \<Rightarrow> log_frame list" where
  "valid_prefix previous input =
    (if acceptable previous input
     then dec_frame (take 84 input) #
          valid_prefix (Some (frame_seq (dec_frame (take 84 input)))) (drop 84 input)
     else [])"
  by pat_completeness auto
termination
  by (relation "measure (\<lambda>(_, input). length input)") (auto simp: acceptable_def)

declare valid_prefix.simps [simp del]

lemma enc_frames_simps [simp]:
  "enc_frames [] = []" "enc_frames (f # fs) = enc_frame f @ enc_frames fs"
  "enc_frames (fs @ gs) = enc_frames fs @ enc_frames gs"
  by (simp_all add: enc_frames_def)

lemma length_enc_frames [simp]: "length (enc_frames fs) = 84 * length fs"
  by (simp add: enc_frames_def frc.length_concat_enc)

lemma enc_frames_inject: "enc_frames fs = enc_frames gs \<longleftrightarrow> fs = gs"
proof (induction fs arbitrary: gs)
  case Nil
  have "enc_frames gs = [] \<longleftrightarrow> length gs = 0" using length_enc_frames [of gs] by (metis length_0_conv mult_is_0 zero_neq_numeral)
  then show ?case by auto
next
  case (Cons f fs)
  show ?case
  proof (cases gs)
    case Nil
    then show ?thesis using frc.enc_length [of f] by auto
  next
    case (Cons g gs')
    then show ?thesis
      using Cons.IH [of gs'] by (auto simp: append_eq_append_conv frc.enc_length frc.enc_inject)
  qed
qed

lemma acceptable_frame:
  "acceptable previous (enc_frame f @ rest) \<longleftrightarrow> frame_ok f \<and> follows previous (frame_seq f)"
  by (simp add: acceptable_def frc.enc_length frc.dec_enc)

lemma valid_prefix_frame:
  "valid_prefix previous (enc_frame f @ rest) =
    (if frame_ok f \<and> follows previous (frame_seq f)
     then f # valid_prefix (Some (frame_seq f)) rest else [])"
  by (subst valid_prefix.simps) (simp add: acceptable_frame frc.enc_length frc.dec_enc)

lemma valid_prefix_stop: "\<not> acceptable previous input \<Longrightarrow> valid_prefix previous input = []"
  by (subst valid_prefix.simps) simp

lemma valid_prefix_append:
  "chain_ok previous fs \<Longrightarrow>
    valid_prefix previous (enc_frames fs @ rest) = fs @ valid_prefix (last_seq previous fs) rest"
  by (induction fs arbitrary: previous) (auto simp: valid_prefix_frame last_seq_def)

lemma valid_prefix_chain: "chain_ok previous (valid_prefix previous input)"
proof (induction previous input rule: valid_prefix.induct)
  case (1 previous input)
  then show ?case
    by (subst valid_prefix.simps) (auto simp: acceptable_def)
qed

lemma valid_prefix_decomp:
  "\<exists>rest. input = enc_frames (valid_prefix previous input) @ rest \<and>
    \<not> acceptable (last_seq previous (valid_prefix previous input)) rest"
proof (induction previous input rule: valid_prefix.induct)
  case (1 previous input)
  show ?case
  proof (cases "acceptable previous input")
    case False
    then show ?thesis by (simp add: valid_prefix_stop last_seq_def)
  next
    case True
    let ?f = "dec_frame (take 84 input)"
    from True have len: "84 \<le> length input" by (simp add: acceptable_def)
    have vp: "valid_prefix previous input = ?f # valid_prefix (Some (frame_seq ?f)) (drop 84 input)"
      using True by (subst valid_prefix.simps) simp
    from 1 [OF True] obtain rest where
      rest: "drop 84 input = enc_frames (valid_prefix (Some (frame_seq ?f)) (drop 84 input)) @ rest"
      "\<not> acceptable (last_seq (Some (frame_seq ?f)) (valid_prefix (Some (frame_seq ?f)) (drop 84 input))) rest"
      by blast
    have "input = enc_frame ?f @ drop 84 input"
      using len by (simp add: frc.enc_dec)
    with rest show ?thesis
      unfolding vp by (intro exI [of _ rest]) (auto simp: last_seq_def)
  qed
qed

text \<open>No valid chain of frames that the input starts with is longer.\<close>

lemma valid_prefix_maximal:
  assumes "chain_ok previous fs" and "input = enc_frames fs @ rest"
  shows "\<exists>gs. valid_prefix previous input = fs @ gs"
  using assms by (auto simp: valid_prefix_append)

section \<open>The scan meets the specification\<close>

definition accept_report :: "nat \<Rightarrow> log_frame \<Rightarrow> recovery_report \<Rightarrow> recovery_report" where
  "accept_report off f report = report\<lparr>
     rr_first_bad_record_index := rr_valid_records report + 1, rr_corruption_offset := off,
     rr_first_bad_record_sequence := frame_seq f, rr_bytes_scanned := off + 84,
     rr_valid_records := rr_valid_records report + 1, rr_last_sequence := frame_seq f\<rparr>"

lemma scan_loop_accept:
  assumes "frame_ok f" and "follows previous (frame_seq f)"
  shows "scan_loop (enc_frame f @ rest) off previous report entries =
    scan_loop rest (off + 84) (Some (frame_seq f)) (accept_report off f report) (entries @ [frame_entry f])"
proof -
  obtain h p c where f: "f = (h, p, c)" by (cases f)
  have cont: "\<not> (case previous of None \<Rightarrow> False | Some q \<Rightarrow> q = - 1 \<or> rh_sequence h \<noteq> q + 1)"
    using assms(2) by (auto simp: f follows_def frame_seq_def split: option.splits)
  show ?thesis
    using assms(1) cont
    by (subst scan_loop.simps)
      (simp add: f frame_ok_def enc_frame_def accept_report_def frame_seq_def frame_entry_def
        codec_simps field_def Let_def add.commute [of off])
qed

text \<open>What the report says when the loop stops before \<open>rest\<close>.\<close>

definition stops_with :: "bytes \<Rightarrow> nat \<Rightarrow> recovery_report \<Rightarrow> recovery_report \<Rightarrow> bool" where
  "stops_with rest off report report' \<longleftrightarrow>
     rr_valid_bytes report' = off \<and>
     rr_valid_records report' = rr_valid_records report \<and>
     rr_last_sequence report' = rr_last_sequence report \<and>
     rr_truncated report' = rr_truncated report \<and>
     rr_healthy report' = (rest = [] \<or> rr_healthy report) \<and>
     rr_corruption_detected report' = (rest \<noteq> [] \<or> rr_corruption_detected report) \<and>
     rr_first_bad_record_index report' = rr_valid_records report + 1 \<and>
     rr_corruption_offset report' = off \<and>
     off \<le> rr_bytes_scanned report' \<and> rr_bytes_scanned report' \<le> off + min 84 (length rest)"

lemma scan_loop_stop:
  assumes "\<not> acceptable previous rest"
  shows "\<exists>report'. scan_loop rest off previous report entries = (report', entries) \<and>
    stops_with rest off report report'"
proof -
  have seg: "take 4 (drop 80 rest) = drop 80 (take 84 rest)" by (simp add: drop_take)
  have "frame_ok (dec_frame (take 84 rest)) \<longleftrightarrow>
      record_metadata_ok (dec_record_header (take 28 rest)) \<and>
      un_le (take 4 (drop 80 rest)) = compute_record_crc (dec_record_header (take 28 rest)) (dec_payload (take 52 (drop 28 rest)))"
    "frame_seq (dec_frame (take 84 rest)) = rh_sequence (dec_record_header (take 28 rest))"
    by (simp_all add: frame_ok_def dec_frame_def field_def frame_seq_def drop_take min_def)
  then show ?thesis
    using assms
    by (subst scan_loop.simps)
      (auto simp: acceptable_def stops_with_def Let_def follows_def split: option.splits)
qed

primrec accept_reports :: "nat \<Rightarrow> log_frame list \<Rightarrow> recovery_report \<Rightarrow> recovery_report" where
  "accept_reports off [] report = report"
| "accept_reports off (f # fs) report = accept_reports (off + 84) fs (accept_report off f report)"

lemma accept_reports_fields:
  "rr_valid_records (accept_reports off fs report) = rr_valid_records report + length fs"
  "rr_last_sequence (accept_reports off fs report) =
     (if fs = [] then rr_last_sequence report else frame_seq (last fs))"
  "rr_truncated (accept_reports off fs report) = rr_truncated report"
  "rr_healthy (accept_reports off fs report) = rr_healthy report"
  "rr_corruption_detected (accept_reports off fs report) = rr_corruption_detected report"
  by (induction fs arbitrary: off report) (auto simp: accept_report_def)

lemma scan_loop_chain:
  "chain_ok previous fs \<Longrightarrow>
    scan_loop (enc_frames fs @ rest) off previous report entries =
    scan_loop rest (off + 84 * length fs) (last_seq previous fs) (accept_reports off fs report)
      (entries @ map frame_entry fs)"
  by (induction fs arbitrary: off previous report entries)
    (auto simp: scan_loop_accept last_seq_def add.assoc)

lemma scan_loop_correct:
  assumes "input = enc_frames fs @ rest" and "chain_ok previous fs"
    and "\<not> acceptable (last_seq previous fs) rest"
  shows "\<exists>report'. scan_loop input off previous report entries = (report', entries @ map frame_entry fs) \<and>
    stops_with rest (off + 84 * length fs) (accept_reports off fs report) report'"
  unfolding assms(1) scan_loop_chain [OF assms(2)]
  by (rule scan_loop_stop [OF assms(3)])

definition file_header_ok :: "persisted_file_header \<Rightarrow> bool" where
  "file_header_ok h \<longleftrightarrow> file_metadata_ok h \<and> compute_file_header_crc h = fh_header_crc32 h"

definition log_header_ok :: "bytes \<Rightarrow> bool" where
  "log_header_ok input \<longleftrightarrow> 24 \<le> length input \<and> file_header_ok (dec_file_header (take 24 input))"

definition log_frames :: "bytes \<Rightarrow> log_frame list" where
  "log_frames input = valid_prefix None (drop 24 input)"

definition log_valid_bytes :: "bytes \<Rightarrow> nat" where
  "log_valid_bytes input = 24 + 84 * length (log_frames input)"

definition seq_or_0 :: "log_frame list \<Rightarrow> u64" where
  "seq_or_0 fs = (if fs = [] then 0 else frame_seq (last fs))"

text \<open>The report a scan of a file with a valid header ends with.\<close>

definition reports_prefix :: "bytes \<Rightarrow> recovery_report \<Rightarrow> bool" where
  "reports_prefix input report \<longleftrightarrow>
     rr_valid_records report = length (log_frames input) \<and>
     rr_valid_bytes report = log_valid_bytes input \<and>
     rr_last_sequence report = seq_or_0 (log_frames input) \<and>
     (rr_healthy report \<longleftrightarrow> log_valid_bytes input = length input) \<and>
     (rr_corruption_detected report \<longleftrightarrow> log_valid_bytes input < length input) \<and>
     rr_first_bad_record_index report = length (log_frames input) + 1 \<and>
     rr_corruption_offset report = log_valid_bytes input \<and>
     rr_bytes_scanned report \<le> length input \<and> \<not> rr_truncated report"

lemma log_body_split:
  assumes "log_header_ok input"
  obtains rest where "drop 24 input = enc_frames (log_frames input) @ rest"
    and "\<not> acceptable (last_seq None (log_frames input)) rest"
    and "length input = log_valid_bytes input + length rest"
proof -
  from valid_prefix_decomp [of "drop 24 input" None] obtain rest where
    rest: "drop 24 input = enc_frames (log_frames input) @ rest"
      "\<not> acceptable (last_seq None (log_frames input)) rest"
    by (auto simp: log_frames_def)
  have "length input = 24 + length (drop 24 input)"
    using assms by (simp add: log_header_ok_def)
  also have "\<dots> = log_valid_bytes input + length rest"
    by (simp add: rest(1) log_valid_bytes_def)
  finally show ?thesis using rest that by blast
qed

lemma scan_contents_ok:
  assumes "log_header_ok input"
  shows "\<exists>report. scan_contents input = (report,
      \<lparr>md_format_version = fh_version (dec_file_header (take 24 input)),
       md_recorder_start_time_us = fh_recorder_start_time_us (dec_file_header (take 24 input)),
       md_record_size = fh_record_size (dec_file_header (take 24 input))\<rparr>,
      map frame_entry (log_frames input)) \<and> reports_prefix input report"
proof -
  from assms have hd: "24 \<le> length input" "file_metadata_ok (dec_file_header (take 24 input))"
    "compute_file_header_crc (dec_file_header (take 24 input)) = fh_header_crc32 (dec_file_header (take 24 input))"
    by (auto simp: log_header_ok_def file_header_ok_def)
  from assms obtain rest where rest: "drop 24 input = enc_frames (log_frames input) @ rest"
    "\<not> acceptable (last_seq None (log_frames input)) rest" "length input = log_valid_bytes input + length rest"
    by (rule log_body_split)
  have chain: "chain_ok None (log_frames input)"
    by (simp add: log_frames_def valid_prefix_chain)
  let ?r = "empty_report\<lparr>rr_bytes_scanned := 24\<rparr>"
  from scan_loop_correct [OF rest(1) chain rest(2), of 24 ?r "[]"] obtain report where
    loop: "scan_loop (drop 24 input) 24 None ?r [] = (report, map frame_entry (log_frames input))"
    and stop: "stops_with rest (log_valid_bytes input) (accept_reports 24 (log_frames input) ?r) report"
    by (auto simp: log_valid_bytes_def)
  have "reports_prefix input report"
    using stop rest(3)
    by (auto simp: reports_prefix_def stops_with_def accept_reports_fields seq_or_0_def empty_report_def)
  with hd loop show ?thesis
    by (simp add: scan_contents_def Let_def)
qed

lemma scan_contents_bad:
  assumes "\<not> log_header_ok input"
  shows "\<exists>report. scan_contents input = (report, empty_metadata, []) \<and> \<not> rr_healthy report \<and>
    rr_valid_bytes report = 0 \<and> rr_valid_records report = 0 \<and> rr_last_sequence report = 0 \<and>
    rr_corruption_detected report \<and> \<not> rr_truncated report"
  using assms
  by (auto simp: scan_contents_def log_header_ok_def file_header_ok_def Let_def empty_report_def)


section \<open>Damaged frames\<close>

lemma record_crc_bytes:
  "compute_record_crc (dec_record_header (take 28 bs)) (dec_payload (take 52 (drop 28 bs))) = compute_crc32 (take 80 bs)"
  if "84 \<le> length bs"
proof -
  have "take 28 bs @ take 52 (drop 28 bs) = take 80 bs"
    by (simp add: take_append_slice)
  then show ?thesis
    using that by (simp add: compute_record_crc_def segments_append rhc.enc_dec plc.enc_dec)
qed

lemma frame_ok_bytes:
  assumes "length bs = 84"
  shows "frame_ok (dec_frame bs) \<longleftrightarrow>
    record_metadata_ok (dec_record_header (take 28 bs)) \<and> un_le (drop 80 bs) = compute_crc32 (take 80 bs)"
  using assms record_crc_bytes [of bs] by (simp add: frame_ok_def dec_frame_def field_def)

lemma frame_burst_detected:
  assumes "frame_ok f" and "enc_frame f = p @ a @ s"
    and "length a = length b" and "length a \<le> 4" and "a \<noteq> b"
  shows "\<not> frame_ok (dec_frame (p @ b @ s))"
proof -
  let ?x = "p @ a @ s" and ?y = "p @ b @ s"
  have len: "length ?x = 84" using frc.enc_length [of f] assms(2) by simp
  then have len': "length ?y = 84" using assms(3) by simp
  have "frame_ok (dec_frame ?x)" using assms(1,2) frc.dec_enc [of f] by simp
  then have "un_le (drop 80 ?x) = compute_crc32 (take 80 ?x)"
    using frame_ok_bytes [OF len] by blast
  moreover have "length (drop 80 ?x) = 4" and "length (drop 80 ?y) = 4"
    using len len' by (simp_all only: length_drop)
  ultimately have "un_le (drop 80 ?y) \<noteq> compute_crc32 (take 80 ?y)"
    by (intro compute_crc32_residue_burst
        [OF _ _ append_take_drop_id append_take_drop_id assms(3-5)])
  then show ?thesis using frame_ok_bytes [OF len'] by blast
qed

lemma chain_ok_append:
  "chain_ok previous (fs @ gs) \<longleftrightarrow> chain_ok previous fs \<and> chain_ok (last_seq previous fs) gs"
  by (induction fs arbitrary: previous) (auto simp: last_seq_def)

text \<open>After a damaged frame nothing more is accepted: the scan keeps exactly the frames before.\<close>

lemma damaged_log_frames:
  assumes "chain_ok None (fs @ f # gs)" and "enc_frame f = p @ a @ s"
    and "length a = length b" and "length a \<le> 4" and "a \<noteq> b" and "length h = 24"
  shows "log_frames (h @ enc_frames fs @ p @ b @ s @ rest) = fs"
proof -
  from assms(1) have chain: "chain_ok None fs" and "frame_ok f"
    by (auto simp: chain_ok_append)
  from frame_burst_detected [OF this(2) assms(2-5)] have bad: "\<not> frame_ok (dec_frame (p @ b @ s))" .
  have len: "length (p @ b @ s) = 84"
    using assms(2,3) frc.enc_length [of f] by simp
  then have "take 84 (p @ b @ s @ rest) = p @ b @ s" by simp
  with bad have "\<not> acceptable (last_seq None fs) (p @ b @ s @ rest)"
    by (simp add: acceptable_def)
  then show ?thesis
    using assms(6) by (simp add: log_frames_def valid_prefix_append [OF chain] valid_prefix_stop)
qed


section \<open>Logs as the writer leaves them\<close>

lemma new_file_header_ok: "file_header_ok (new_file_header t)"
  by (simp add: file_header_ok_def new_file_header_def file_metadata_ok_def compute_file_header_crc_def Let_def)

lemma new_file_header_start: "fh_recorder_start_time_us (new_file_header t) = t"
  by (simp add: new_file_header_def Let_def)

lemma make_frame_ok [simp]: "frame_ok (make_frame r q)"
  by (simp add: make_frame_def frame_ok_def record_metadata_ok_def Let_def)

lemma frame_seq_make [simp]: "frame_seq (make_frame r q) = q"
  by (simp add: make_frame_def frame_seq_def Let_def)

lemma frame_entry_make [simp]: "frame_entry (make_frame r q) = \<lparr>re_sequence = q, re_record = r\<rparr>"
  by (simp add: make_frame_def frame_entry_def Let_def make_runtime_record_def make_persisted_payload_def)

definition log_bytes :: "u64 \<Rightarrow> log_frame list \<Rightarrow> bytes" where
  "log_bytes t fs = enc_file_header (new_file_header t) @ enc_frames fs"

lemma log_bytes_header:
  "log_header_ok (log_bytes t fs @ rest)" "dec_file_header (take 24 (log_bytes t fs @ rest)) = new_file_header t"
  "length (log_bytes t fs) = 24 + 84 * length fs"
  by (simp_all add: log_bytes_def log_header_ok_def codec_simps new_file_header_ok fhc.dec_enc)

lemma log_bytes_frames:
  assumes "chain_ok None fs" and "\<not> acceptable (last_seq None fs) rest"
  shows "log_frames (log_bytes t fs @ rest) = fs"
  using assms by (simp add: log_frames_def log_bytes_def codec_simps valid_prefix_append valid_prefix_stop)

lemma acceptable_nil [simp]: "\<not> acceptable p []" by (simp add: acceptable_def)

lemma log_frames_chain: "chain_ok None (log_frames log)"
  by (simp add: log_frames_def valid_prefix_chain)

definition sample_frames :: "log_frame list" where
  "sample_frames = [make_frame default_flight_record 1, make_frame default_flight_record 2]"

lemma sample_chain: "chain_ok None sample_frames"
  by (simp add: sample_frames_def follows_def)

section \<open>Properties\<close>

text \<open>C5. On a file whose header is valid, the scan accepts exactly the longest prefix of the body
  that is a chain of intact frames with contiguous sequence numbers: it returns their records, the
  report counts them, and the file is healthy if and only if nothing follows them.\<close>

theorem scan_keeps_longest_prefix:
  assumes "log_header_ok input"
  shows "\<exists>report metadata rest.
      scan_contents input = (report, metadata, map frame_entry (log_frames input)) \<and>
      reports_prefix input report \<and>
      drop 24 input = enc_frames (log_frames input) @ rest \<and> chain_ok None (log_frames input) \<and>
      (\<forall>fs rest'. drop 24 input = enc_frames fs @ rest' \<longrightarrow> chain_ok None fs \<longrightarrow>
         (\<exists>gs. log_frames input = fs @ gs))"
proof -
  from scan_contents_ok [OF assms] obtain report md where
    r: "scan_contents input = (report, md, map frame_entry (log_frames input))" "reports_prefix input report"
    by blast
  obtain rest where rest: "drop 24 input = enc_frames (log_frames input) @ rest"
    using assms by (rule log_body_split)
  have "\<exists>gs. log_frames input = fs @ gs" if "drop 24 input = enc_frames fs @ rest'" "chain_ok None fs" for fs rest'
    unfolding log_frames_def by (rule valid_prefix_maximal [OF that(2,1)])
  with r rest log_frames_chain show ?thesis by blast
qed

theorem scan_keeps_longest_prefix_witness:
  "\<exists>report metadata. scan_contents (log_bytes 7 sample_frames @ [1, 2, 3]) =
      (report, metadata, map frame_entry sample_frames) \<and> rr_valid_records report = 2"
proof -
  have "log_frames (log_bytes 7 sample_frames @ [1, 2, 3]) = sample_frames"
    by (rule log_bytes_frames [OF sample_chain]) (simp add: acceptable_def)
  with scan_keeps_longest_prefix [OF log_bytes_header(1), of 7 sample_frames "[1, 2, 3]"] show ?thesis
    by (auto simp: reports_prefix_def sample_frames_def)
qed

text \<open>When up to four consecutive bytes of one frame of a valid log are changed, the scan keeps
  exactly the frames before it and reports the damage at that frame's offset and number.\<close>

theorem damaged_frame_ends_scan:
  assumes "chain_ok None (fs @ f # gs)" and "enc_frame f = p @ a @ s"
    and "length b = length a" and "length a \<le> 4" and "b \<noteq> a" and "file_header_ok h"
  defines "input \<equiv> enc_file_header h @ enc_frames fs @ p @ b @ s @ enc_frames gs"
  shows "\<exists>report metadata. scan_contents input = (report, metadata, map frame_entry fs) \<and>
     \<not> rr_healthy report \<and> rr_corruption_detected report \<and> rr_valid_records report = length fs \<and>
     rr_valid_bytes report = 24 + 84 * length fs \<and> rr_corruption_offset report = 24 + 84 * length fs \<and>
     rr_first_bad_record_index report = length fs + 1"
proof -
  have ok: "log_header_ok input"
    using assms(6) by (simp add: input_def log_header_ok_def codec_simps fhc.dec_enc)
  have fr: "log_frames input = fs"
    unfolding input_def by (rule damaged_log_frames [OF assms(1,2)]) (use assms(3-5) in \<open>simp_all add: codec_simps\<close>)
  have "length (p @ b @ s) = 84"
    using assms(2,3) frc.enc_length [of f] by simp
  then have "log_valid_bytes input < length input"
    by (simp add: log_valid_bytes_def fr) (auto simp: input_def codec_simps)
  with scan_contents_ok [OF ok] show ?thesis
    by (auto simp: fr reports_prefix_def log_valid_bytes_def)
qed

theorem damaged_frame_ends_scan_witness:
  "\<exists>input report metadata. scan_contents input =
     (report, metadata, map frame_entry [make_frame default_flight_record 1]) \<and> \<not> rr_healthy report"
proof -
  let ?f = "make_frame default_flight_record 2"
  have split: "enc_frame ?f = take 40 (enc_frame ?f) @ take 1 (drop 40 (enc_frame ?f)) @ drop 41 (enc_frame ?f)"
    using slices [of "enc_frame ?f" 40 1] by simp
  obtain c where c: "take 1 (drop 40 (enc_frame ?f)) = [c]"
    using frc.enc_length [of ?f] by (cases "drop 40 (enc_frame ?f)") auto
  have "chain_ok None ([make_frame default_flight_record 1] @ ?f # [])"
    by (simp add: follows_def)
  from damaged_frame_ends_scan [OF this split, of "[c + 1]" "new_file_header 7"] c show ?thesis
    by (auto simp: new_file_header_ok codec_simps)
qed


end
