(* ===== verification/Recovery.thy ===== *)
theory Recovery
  imports Log_Scan
begin

text \<open>
  Startup recovery, the rest of \<open>recovery_manager.cpp\<close>: the two-slot checkpoint journal, the
  selection of a checkpoint that agrees with the log, the removal of the unacknowledged tail, and
  the migration of the older one-entry journal. What it promises is stated against the log and the
  journal as byte strings: the committed prefix is restored exactly.
\<close>

section \<open>Reports\<close>

record startup_recovery_report =
  sr_healthy :: bool
  sr_log_truncated :: bool
  sr_journal_found :: bool
  sr_journal_cleared :: bool
  sr_journal_replayed :: bool
  sr_journal_discarded :: bool
  sr_journal_migrated :: bool
  sr_valid_records :: nat
  sr_last_sequence :: u64
  sr_checkpoint_generation :: u64
  sr_committed_length :: u64
  sr_checksum_failures :: nat
  sr_message :: string

definition empty_startup :: startup_recovery_report where
  "empty_startup = \<lparr>sr_healthy = False, sr_log_truncated = False, sr_journal_found = False,
     sr_journal_cleared = False, sr_journal_replayed = False, sr_journal_discarded = False,
     sr_journal_migrated = False, sr_valid_records = 0, sr_last_sequence = 0,
     sr_checkpoint_generation = 0, sr_committed_length = 0, sr_checksum_failures = 0,
     sr_message = []\<rparr>"

datatype journal_status = JournalEmpty | JournalPending | JournalCorrupt

record journal_inspection =
  ji_status :: journal_status
  ji_entry :: persisted_journal_entry
  ji_message :: string

definition journal_path_for_log :: "string \<Rightarrow> string" where
  "journal_path_for_log path = path @ ''.journal''"

section \<open>Writing\<close>

text \<open>The loop of \<open>write_full\<close>, from the descriptor's position \<open>pos\<close>.\<close>

function write_full :: "string \<Rightarrow> nat \<Rightarrow> bytes \<Rightarrow> os \<Rightarrow> bool \<times> os" where
  "write_full path pos data s =
    (if data = [] then (True, s)
     else case pwrite path data pos s of
       (Wrote n, s1) \<Rightarrow> if n = 0 then (False, s1) else write_full path (pos + n) (drop n data) s1
     | (Eintr, s1) \<Rightarrow> write_full path pos data s1
     | (Eother, s1) \<Rightarrow> (False, s1))"
  by pat_completeness auto
termination
proof (relation "measure (\<lambda>(_, _, data, s). length data + length (os_script s))", goal_cases)
  case 1
  show ?case by simp
next
  case (2 path pos data s x y n)
  then show ?case using pwrite_measure [of path data pos s n y] by auto
next
  case (3 path pos data s x y)
  then show ?case using pwrite_eintr_measure [of path data pos s y] by auto
qed

declare write_full.simps [simp del]

text \<open>Opened with \<open>O_APPEND\<close>: every write goes to the end of the file.\<close>

definition append_recovered_record :: "string \<Rightarrow> persisted_journal_entry \<Rightarrow> os \<Rightarrow> bool \<times> os" where
  "append_recovered_record path entry s =
    (case open_create path s of (opened, s1) \<Rightarrow>
     if \<not> opened then (False, s1)
     else case write_full path (stat_size path s1) (enc_record_header (je_record_header entry)) s1 of
       (ok1, s2) \<Rightarrow> if \<not> ok1 then (False, s2)
     else case write_full path (stat_size path s2) (enc_payload (je_payload entry)) s2 of
       (ok2, s3) \<Rightarrow> if \<not> ok2 then (False, s3)
     else case write_full path (stat_size path s3) (le 4 (je_record_crc32 entry)) s3 of
       (ok3, s4) \<Rightarrow> if \<not> ok3 then (False, s4)
     else sync_file path s4)"

definition read_file_header :: "string \<Rightarrow> os \<Rightarrow> persisted_file_header option \<times> os" where
  "read_file_header path s = (case open_read path s of (opened, s1) \<Rightarrow>
     (if opened \<and> sizeof_file_header \<le> length (file_bytes path s1)
      then Some (dec_file_header (take sizeof_file_header (file_bytes path s1))) else None, s1))"

definition zero_slot :: persisted_checkpoint_slot where
  "zero_slot = \<lparr>ck_magic = 0, ck_version = 0, ck_slot_size = 0, ck_generation = 0,
     ck_recorder_start_time_us = 0, ck_committed_length = 0, ck_record_count = 0,
     ck_last_sequence = 0, ck_checkpoint_crc32 = 0\<rparr>"

definition migrated_slot :: "persisted_file_header \<Rightarrow> recovery_report \<Rightarrow> persisted_checkpoint_slot" where
  "migrated_slot file_header report = make_slot 1 (fh_recorder_start_time_us file_header)
     (word_of_nat (rr_valid_bytes report)) (word_of_nat (rr_valid_records report)) (rr_last_sequence report)"

definition write_checkpoint_journal ::
  "string \<Rightarrow> persisted_file_header \<Rightarrow> recovery_report \<Rightarrow> os \<Rightarrow> bool \<times> os" where
  "write_checkpoint_journal journal_path file_header report s =
    (let slots = enc_checkpoint_slot (migrated_slot file_header report) @ enc_checkpoint_slot zero_slot in
     case open_trunc journal_path s of (opened, s1) \<Rightarrow>
     if \<not> opened then (False, s1)
     else case write_full journal_path 0 slots s1 of (ok1, s2) \<Rightarrow>
     if \<not> ok1 then (False, s2)
     else case truncate_file journal_path (length slots) s2 of (ok2, s3) \<Rightarrow>
     if \<not> ok2 then (False, s3)
     else sync_file journal_path s3)"

section \<open>Reading the journal\<close>

definition journal_entry_metadata_ok :: "persisted_journal_entry \<Rightarrow> bool" where
  "journal_entry_metadata_ok entry \<longleftrightarrow>
     je_magic entry = kJournalMagic \<and> je_version entry = kLogFormatVersion \<and>
     je_header_size entry = word_of_nat sizeof_journal_entry \<and>
     je_entry_size entry = word_of_nat sizeof_journal_entry \<and> je_state entry = kJournalStatePending"

definition journal_entry_payload_ok :: "persisted_journal_entry \<Rightarrow> bool" where
  "journal_entry_payload_ok entry \<longleftrightarrow>
     record_metadata_ok (je_record_header entry) \<and>
     rh_sequence (je_record_header entry) = je_sequence entry \<and>
     compute_record_crc (je_record_header entry) (je_payload entry) = je_record_crc32 entry"

definition empty_entry :: persisted_journal_entry where
  "empty_entry = dec_journal_entry (replicate sizeof_journal_entry 0)"

definition inspect_journal :: "string \<Rightarrow> os \<Rightarrow> journal_inspection \<times> os" where
  "inspect_journal journal_path s =
    (let report = (\<lambda>status entry message. \<lparr>ji_status = status, ji_entry = entry, ji_message = message\<rparr>) in
     if \<not> path_exists journal_path s then
       (report JournalEmpty empty_entry ''journal not present'', s)
     else if stat_size journal_path s = 0 then
       (report JournalEmpty empty_entry ''journal empty'', s)
     else if stat_size journal_path s \<noteq> sizeof_journal_entry then
       (report JournalCorrupt empty_entry ''journal size mismatch'', s)
     else case open_read journal_path s of (opened, s1) \<Rightarrow>
     if \<not> opened \<or> length (file_bytes journal_path s1) < sizeof_journal_entry then
       (report JournalCorrupt empty_entry ''journal read failed'', s1)
     else
     let entry = dec_journal_entry (take sizeof_journal_entry (file_bytes journal_path s1)) in
     if \<not> journal_entry_metadata_ok entry then
       (report JournalCorrupt entry ''journal metadata invalid'', s1)
     else if compute_journal_crc entry \<noteq> je_journal_crc32 entry then
       (report JournalCorrupt entry ''journal CRC invalid'', s1)
     else if \<not> journal_entry_payload_ok entry then
       (report JournalCorrupt entry ''journal payload invalid'', s1)
     else (report JournalPending entry ''pending journal entry found'', s1))"

definition checkpoint_consistent_with_log ::
  "string \<Rightarrow> persisted_file_header \<Rightarrow> recovery_report \<Rightarrow> persisted_checkpoint_slot \<Rightarrow> os \<Rightarrow> bool \<times> os" where
  "checkpoint_consistent_with_log path file_header log_report slot s =
    (if \<not> checkpoint_metadata_valid slot \<or>
        ck_recorder_start_time_us slot \<noteq> fh_recorder_start_time_us file_header \<or>
        unat (ck_committed_length slot) < sizeof_file_header \<or>
        rr_valid_bytes log_report < unat (ck_committed_length slot) \<or>
        (ck_committed_length slot - word_of_nat sizeof_file_header) mod word_of_nat kPersistedRecordSize \<noteq> 0 \<or>
        ck_record_count slot \<noteq>
          (ck_committed_length slot - word_of_nat sizeof_file_header) div word_of_nat kPersistedRecordSize
     then (False, s)
     else if ck_record_count slot = 0 then (ck_last_sequence slot = 0, s)
     else case open_read path s of (opened, s1) \<Rightarrow>
     if \<not> opened then (False, s1)
     else case pread path sizeof_record_header
         (unat (ck_committed_length slot - word_of_nat kPersistedRecordSize)) s1 of (data, s2) \<Rightarrow>
       (case data of
          None \<Rightarrow> False
        | Some bs \<Rightarrow> length bs = sizeof_record_header \<and>
                    rh_sequence (dec_record_header bs) = ck_last_sequence slot, s2))"

primrec select_checkpoint ::
  "string \<Rightarrow> persisted_file_header \<Rightarrow> recovery_report \<Rightarrow> persisted_checkpoint_slot list \<Rightarrow>
   persisted_checkpoint_slot option \<Rightarrow> os \<Rightarrow> persisted_checkpoint_slot option \<times> os" where
  "select_checkpoint path file_header report [] selected s = (selected, s)"
| "select_checkpoint path file_header report (slot # slots) selected s =
    (case checkpoint_consistent_with_log path file_header report slot s of (ok, s1) \<Rightarrow>
       select_checkpoint path file_header report slots
         (if ok \<and> (case selected of None \<Rightarrow> True | Some t \<Rightarrow> ck_generation t < ck_generation slot)
          then Some slot else selected) s1)"

definition dec_slots :: "bytes \<Rightarrow> persisted_checkpoint_slot list" where
  "dec_slots bs = [dec_checkpoint_slot (take 52 bs), dec_checkpoint_slot (take 52 (drop 52 bs))]"

text \<open>The unacknowledged tail is cut off unless the valid bytes end at the checkpoint.\<close>

definition remove_tail ::
  "string \<Rightarrow> recovery_report \<Rightarrow> persisted_checkpoint_slot \<Rightarrow> os \<Rightarrow> bool \<times> os" where
  "remove_tail path initial selected s =
    (if rr_valid_bytes initial \<noteq> unat (ck_committed_length selected)
     then truncate_file path (unat (ck_committed_length selected)) s else (True, s))"

definition recover_checkpoint_journal ::
  "string \<Rightarrow> string \<Rightarrow> recovery_report \<Rightarrow> os \<Rightarrow> startup_recovery_report \<times> os" where
  "recover_checkpoint_journal path journal_path initial s =
    (let startup = empty_startup\<lparr>sr_journal_found := True, sr_log_truncated := rr_truncated initial,
                     sr_checksum_failures := rr_checksum_failures initial\<rparr> in
     if \<not> rr_healthy initial then
       (startup\<lparr>sr_message := ''main log has no CRC-valid prefix for checkpoint recovery''\<rparr>, s)
     else case read_file_header path s of (header, s1) \<Rightarrow>
     (case header of
       None \<Rightarrow> (startup\<lparr>sr_message := ''failed to read file identity for checkpoint recovery''\<rparr>, s1)
     | Some file_header \<Rightarrow>
     case open_read journal_path s1 of (opened, s2) \<Rightarrow>
     if \<not> opened \<or> length (file_bytes journal_path s2) < kCheckpointJournalSize then
       (startup\<lparr>sr_message := ''failed to read checkpoint slots''\<rparr>, s2)
     else case select_checkpoint path file_header initial
         (dec_slots (take kCheckpointJournalSize (file_bytes journal_path s2))) None s2 of (chosen, s3) \<Rightarrow>
     (case chosen of
       None \<Rightarrow> (startup\<lparr>sr_message := ''no valid checkpoint is consistent with the main log''\<rparr>, s3)
     | Some selected \<Rightarrow>
     case remove_tail path initial selected s3 of (removed, s4) \<Rightarrow>
     if \<not> removed then
       (startup\<lparr>sr_message := ''failed to truncate unacknowledged log tail''\<rparr>, s4)
     else case scan_healthy_prefix path False s4 of (committed, s5) \<Rightarrow>
     let healthy = rr_healthy committed \<and>
           rr_valid_bytes committed = unat (ck_committed_length selected) \<and>
           rr_valid_records committed = unat (ck_record_count selected) \<and>
           rr_last_sequence committed = ck_last_sequence selected in
       (startup\<lparr>sr_healthy := healthy,
          sr_log_truncated := sr_log_truncated startup \<or>
            rr_valid_bytes initial \<noteq> unat (ck_committed_length selected),
          sr_valid_records := rr_valid_records committed,
          sr_last_sequence := rr_last_sequence committed,
          sr_checkpoint_generation := ck_generation selected,
          sr_committed_length := ck_committed_length selected,
          sr_message := if healthy
            then ''restored newest valid committed checkpoint and removed unacknowledged tail''
            else ''checkpoint truncation did not produce the committed prefix''\<rparr>, s5))))"

section \<open>Startup\<close>

text \<open>Reading the file header and writing a fresh journal, as every migration ends.\<close>

definition migrate :: "string \<Rightarrow> string \<Rightarrow> recovery_report \<Rightarrow> os \<Rightarrow> bool \<times> os" where
  "migrate path journal_path report s =
    (case read_file_header path s of
       (None, s1) \<Rightarrow> (False, s1)
     | (Some file_header, s1) \<Rightarrow> write_checkpoint_journal journal_path file_header report s1)"

definition migrated_report ::
  "bool \<Rightarrow> recovery_report \<Rightarrow> startup_recovery_report \<Rightarrow> startup_recovery_report" where
  "migrated_report ok report startup = startup\<lparr>sr_journal_migrated := ok, sr_healthy := ok,
     sr_checkpoint_generation := if ok then 1 else 0,
     sr_committed_length := if ok then word_of_nat (rr_valid_bytes report) else 0\<rparr>"

definition recover_startup_state :: "string \<Rightarrow> os \<Rightarrow> startup_recovery_report \<times> os" where
  "recover_startup_state path s0 =
    (let journal_path = journal_path_for_log path in
     case scan_healthy_prefix path True s0 of (log_report, s) \<Rightarrow>
     let startup = empty_startup\<lparr>sr_log_truncated := rr_truncated log_report,
           sr_valid_records := rr_valid_records log_report,
           sr_last_sequence := rr_last_sequence log_report,
           sr_checksum_failures := rr_checksum_failures log_report\<rparr>;
         journal_exists = path_exists journal_path s;
         journal_size = stat_size journal_path s in
     if journal_exists \<and> journal_size = kCheckpointJournalSize then
       recover_checkpoint_journal path journal_path log_report s
     else if journal_exists \<and> journal_size \<noteq> 0 \<and> journal_size \<noteq> sizeof_journal_entry then
       (startup\<lparr>sr_journal_found := True,
          sr_message := ''unsupported or torn journal length; refusing to infer committed state''\<rparr>, s)
     else case inspect_journal journal_path s of (journal, s1) \<Rightarrow>
     let startup = startup\<lparr>sr_journal_found := ji_status journal \<noteq> JournalEmpty\<rparr> in
     (case ji_status journal of
       JournalEmpty \<Rightarrow>
         if \<not> journal_exists \<and> path_exists path s1 then
           (startup\<lparr>sr_healthy := False,
              sr_message := ''journal missing for existing log; refusing to infer committed state''\<rparr>, s1)
         else
         let startup = startup\<lparr>sr_healthy := rr_healthy log_report,
               sr_message := rr_message log_report @ ''; '' @ ji_message journal\<rparr> in
         if rr_healthy log_report \<and> path_exists path s1 then
           (case migrate path journal_path log_report s1 of (ok, s2) \<Rightarrow>
              ((migrated_report ok log_report startup)\<lparr>sr_journal_found := True,
                 sr_message := if ok then ''migrated legacy empty journal to committed checkpoint slots''
                   else ''failed to migrate legacy empty journal''\<rparr>, s2))
         else (startup, s1)
     | JournalCorrupt \<Rightarrow>
         (case (if rr_healthy log_report then migrate path journal_path log_report s1 else (False, s1)) of
            (ok, s2) \<Rightarrow>
              ((migrated_report ok log_report (startup\<lparr>sr_journal_discarded := True\<rparr>))\<lparr>
                 sr_message := if ok then ''discarded corrupt legacy journal and migrated valid committed log''
                   else ''failed to replace corrupt legacy journal''\<rparr>, s2))
     | JournalPending \<Rightarrow>
         if \<not> rr_healthy log_report then
           (startup\<lparr>sr_healthy := False,
              sr_message := ''main log is not recoverable before journal replay''\<rparr>, s1)
         else if je_sequence (ji_entry journal) \<le> sr_last_sequence startup then
           (case migrate path journal_path log_report s1 of (ok, s2) \<Rightarrow>
              ((migrated_report ok log_report (startup\<lparr>sr_journal_cleared := True\<rparr>))\<lparr>
                 sr_message := ''journal described an already committed record; migrated checkpoint''\<rparr>, s2))
         else if sr_last_sequence startup + 1 \<noteq> je_sequence (ji_entry journal) then
           (startup\<lparr>sr_healthy := False,
              sr_message := ''legacy journal sequence does not match log tail; refusing migration''\<rparr>, s1)
         else case append_recovered_record path (ji_entry journal) s1 of (appended, s2) \<Rightarrow>
         if \<not> appended then
           (startup\<lparr>sr_healthy := False,
              sr_message := ''failed to roll journal entry forward into main log''\<rparr>, s2)
         else case scan_healthy_prefix path False s2 of (replayed, s3) \<Rightarrow>
         if \<not> rr_healthy replayed \<or> rr_last_sequence replayed \<noteq> je_sequence (ji_entry journal) then
           (startup\<lparr>sr_healthy := False,
              sr_message := ''journal replay did not produce a valid main log''\<rparr>, s3)
         else case migrate path journal_path replayed s3 of (ok, s4) \<Rightarrow>
           ((migrated_report ok replayed (startup\<lparr>sr_journal_replayed := True,
               sr_valid_records := rr_valid_records replayed,
               sr_last_sequence := rr_last_sequence replayed,
               sr_checksum_failures := rr_checksum_failures replayed, sr_journal_cleared := True\<rparr>))\<lparr>
              sr_message := ''rolled legacy pending entry forward and migrated checkpoint slots''\<rparr>, s4)))"

section \<open>Scanning when the system does not fail\<close>

lemma set_file_same: "os_files s path = Some c \<Longrightarrow> set_file path c s = s"
  by (cases s) (simp add: set_file_def fun_upd_idem)

lemma set_file_twice [simp]: "set_file path c (set_file path d s) = set_file path c s"
  by (simp add: set_file_def)

lemma log_valid_bytes_le: "log_header_ok log \<Longrightarrow> log_valid_bytes log \<le> length log"
  by (erule log_body_split) simp

lemma last_seq_take_some: "0 < n \<Longrightarrow> n \<le> length fs \<Longrightarrow> last_seq p (take n fs) = Some (frame_seq (fs ! (n - 1)))"
  by (cases fs) (auto simp: last_seq_def last_conv_nth min_def)

text \<open>Cutting a log at a frame boundary of its valid prefix keeps exactly the frames before.\<close>

lemma cut_log:
  assumes "log_header_ok log" and "n \<le> length (log_frames log)"
  defines "c \<equiv> take (24 + 84 * n) log"
  shows "c = take 24 log @ enc_frames (take n (log_frames log))"
    and "log_frames c = take n (log_frames log)"
    and "log_header_ok c"
    and "length c = 24 + 84 * n"
    and "log_valid_bytes c = 24 + 84 * n"
proof -
  from assms(1) obtain rest where rest: "drop 24 log = enc_frames (log_frames log) @ rest"
    "length log = log_valid_bytes log + length rest"
    by (rule log_body_split)
  have len: "24 + 84 * n \<le> length log"
    using rest(2) assms(2) by (simp add: log_valid_bytes_def)
  have "take (84 * n) (drop 24 log) = enc_frames (take n (log_frames log))"
    using assms(2) rest(1) frc.take_concat_enc [of n "log_frames log"]
    by (simp add: enc_frames_def frc.length_concat_enc mult.commute)
  then show c: "c = take 24 log @ enc_frames (take n (log_frames log))"
    unfolding c_def take_add by simp
  have len24: "length (take 24 log) = 24" using len by simp
  have "chain_ok None (take n (log_frames log) @ drop n (log_frames log))"
    by (simp add: log_frames_chain)
  then have "chain_ok None (take n (log_frames log))"
    unfolding chain_ok_append by blast
  from valid_prefix_append [OF this, of "[]"]
  have "valid_prefix None (enc_frames (take n (log_frames log))) = take n (log_frames log)"
    by (simp add: valid_prefix_stop acceptable_def)
  then show frames: "log_frames c = take n (log_frames log)"
    unfolding log_frames_def c drop_append_length [OF len24] .
  show "length c = 24 + 84 * n" using len by (simp add: c_def)
  show "log_header_ok c" using assms(1) len by (simp add: log_header_ok_def c_def min_def)
  show "log_valid_bytes c = 24 + 84 * n"
    using assms(2) by (simp add: log_valid_bytes_def frames)
qed

lemma scan_file_ok:
  assumes "os_script s = []" and "os_files s path = Some log" and "log_header_ok log"
    and "\<not> t \<or> log_valid_bytes log = length log"
  shows "\<exists>report md es. scan_file path t s = ((report, md, es), s) \<and> reports_prefix log report \<and>
    es = map frame_entry (log_frames log)"
proof -
  from scan_contents_ok [OF assms(3)] obtain report md where
    r: "scan_contents log = (report, md, map frame_entry (log_frames log))" "reports_prefix log report"
    by blast
  then have "\<not> (\<not> rr_healthy report \<and> t \<and> 24 \<le> rr_valid_bytes report)"
    using assms(4) by (auto simp: reports_prefix_def)
  with r assms(1,2) show ?thesis
    by (auto simp: scan_file_def path_exists_def os_simps file_bytes_some)
qed

text \<open>The report after the optional truncation and the second scan.\<close>

definition recovered_prefix :: "bytes \<Rightarrow> recovery_report \<Rightarrow> bool" where
  "recovered_prefix log report \<longleftrightarrow> rr_healthy report \<and>
     rr_valid_records report = length (log_frames log) \<and>
     rr_valid_bytes report = log_valid_bytes log \<and>
     rr_last_sequence report = seq_or_0 (log_frames log) \<and>
     (rr_truncated report \<longleftrightarrow> log_valid_bytes log < length log)"

lemma scan_healthy_prefix_ok:
  assumes "os_script s = []" and "os_files s path = Some log" and "log_header_ok log"
  shows "\<exists>report. scan_healthy_prefix path True s =
      (report, set_file path (take (log_valid_bytes log) log) s) \<and> recovered_prefix log report"
proof (cases "log_valid_bytes log = length log")
  case True
  with scan_file_ok [OF assms, of True] obtain report md es where
    r: "scan_file path True s = ((report, md, es), s)" "reports_prefix log report"
    by blast
  then have "rr_healthy report" using True by (simp add: reports_prefix_def)
  with r True assms(2) show ?thesis
    by (auto simp: scan_healthy_prefix_def reports_prefix_def recovered_prefix_def set_file_same)
next
  case False
  with log_valid_bytes_le [OF assms(3)] have less: "log_valid_bytes log < length log" by simp
  let ?c = "take (log_valid_bytes log) log"
  let ?s = "set_file path ?c s"
  from scan_contents_ok [OF assms(3)] obtain report md where
    r: "scan_contents log = (report, md, map frame_entry (log_frames log))" "reports_prefix log report"
    by blast
  with less have "\<not> rr_healthy report" "24 \<le> rr_valid_bytes report" "rr_valid_bytes report = log_valid_bytes log"
    by (auto simp: reports_prefix_def log_valid_bytes_def)
  with r less assms(1,2) have first: "\<exists>m md es. scan_file path True s =
      ((report\<lparr>rr_truncated := True, rr_message := m\<rparr>, md, es), ?s)"
    by (auto simp: scan_file_def path_exists_def os_simps file_bytes_some resize_prefix)
  have c: "log_header_ok ?c" "log_frames ?c = log_frames log" "log_valid_bytes ?c = length ?c"
    using cut_log [OF assms(3), of "length (log_frames log)"] less
    by (simp_all add: log_valid_bytes_def)
  from scan_file_ok [of ?s path ?c False] assms(1) c(1) obtain report' md' es' where
    r': "scan_file path False ?s = ((report', md', es'), ?s)" "reports_prefix ?c report'"
    by auto
  from first r' less \<open>\<not> rr_healthy report\<close> c(2,3) show ?thesis
    by (auto simp: scan_healthy_prefix_def reports_prefix_def recovered_prefix_def log_valid_bytes_def)
qed

section \<open>Which checkpoints agree with a log\<close>

definition slot_commits ::
  "persisted_file_header \<Rightarrow> log_frame list \<Rightarrow> persisted_checkpoint_slot \<Rightarrow> bool" where
  "slot_commits h fs slot \<longleftrightarrow> checkpoint_metadata_valid slot \<and>
     ck_recorder_start_time_us slot = fh_recorder_start_time_us h \<and>
     unat (ck_committed_length slot) = 24 + 84 * length fs \<and>
     unat (ck_record_count slot) = length fs \<and>
     ck_last_sequence slot = seq_or_0 fs"

definition slot_agrees ::
  "persisted_file_header \<Rightarrow> log_frame list \<Rightarrow> persisted_checkpoint_slot \<Rightarrow> bool" where
  "slot_agrees h frames slot \<longleftrightarrow> (\<exists>n\<le>length frames. slot_commits h (take n frames) slot)"

lemma unat_minus_24: "24 \<le> unat (c :: u64) \<Longrightarrow> unat (c - 24) = unat c - 24"
  by (simp add: unat_sub word_le_nat_alt)

lemma committed_shape:
  fixes c k :: u64
  assumes "24 \<le> unat c"
  shows "(c - 24) mod 84 = 0 \<and> k = (c - 24) div 84 \<longleftrightarrow> unat c = 24 + 84 * unat k"
proof
  assume a: "(c - 24) mod 84 = 0 \<and> k = (c - 24) div 84"
  then have "unat ((c - 24) mod 84) = 0" by simp
  then have m: "(unat c - 24) mod 84 = 0" by (simp add: unat_mod unat_minus_24 [OF assms])
  have "unat k = (unat c - 24) div 84" using a by (simp add: unat_div unat_minus_24 [OF assms])
  with m assms show "unat c = 24 + 84 * unat k" by auto
next
  assume a: "unat c = 24 + 84 * unat k"
  then have "unat (c - 24) = 84 * unat k" by (simp add: unat_minus_24)
  then have "unat ((c - 24) mod 84) = 0" "unat ((c - 24) div 84) = unat k"
    by (simp_all add: unat_mod unat_div)
  then show "(c - 24) mod 84 = 0 \<and> k = (c - 24) div 84"
    by (metis unat_eq_zero word_unat_eq_iff)
qed

lemma frame_header_at:
  assumes "log_header_ok log" and "n < length (log_frames log)"
  shows "dec_record_header (take 28 (drop (24 + 84 * n) log)) = fst (log_frames log ! n)"
    and "length (take 28 (drop (24 + 84 * n) log)) = 28"
proof -
  from assms(1) obtain rest where rest: "drop 24 log = enc_frames (log_frames log) @ rest"
    by (rule log_body_split)
  obtain h p c where f: "log_frames log ! n = (h, p, c)" by (cases "log_frames log ! n")
  have "drop (24 + 84 * n) log = drop (n * 84) (drop 24 log)"
    by (simp add: add.commute mult.commute)
  then have "take 84 (drop (24 + 84 * n) log) = enc_frame (h, p, c)"
    using frc.block_concat_enc [OF assms(2), of rest] rest
    by (simp only: enc_frames_def f)
  moreover have "take 28 (drop (24 + 84 * n) log) = take 28 (take 84 (drop (24 + 84 * n) log))"
    by (simp only: take_take) (simp add: min_def)
  ultimately have "take 28 (drop (24 + 84 * n) log) = take 28 (enc_frame (h, p, c))"
    by simp
  also have "\<dots> = enc_record_header h"
    by (simp add: enc_frame_def rhc.enc_length)
  finally have "take 28 (drop (24 + 84 * n) log) = enc_record_header h" .
  then show "dec_record_header (take 28 (drop (24 + 84 * n) log)) = fst (log_frames log ! n)"
    and "length (take 28 (drop (24 + 84 * n) log)) = 28"
    by (simp_all add: f rhc.dec_enc rhc.enc_length)
qed

lemma seq_or_0_take:
  "n \<le> length fs \<Longrightarrow> seq_or_0 (take n fs) = (if n = 0 then 0 else frame_seq (fs ! (n - 1)))"
  by (cases fs) (auto simp: seq_or_0_def last_conv_nth min_def)

lemma checkpoint_consistent_ok:
  assumes "os_script s = []" and "os_files s path = Some log" and "log_header_ok log"
    and "rr_valid_bytes report = log_valid_bytes log"
  shows "checkpoint_consistent_with_log path h report slot s = (slot_agrees h (log_frames log) slot, s)"
proof -
  let ?c = "ck_committed_length slot" and ?k = "ck_record_count slot"
  let ?pre = "checkpoint_metadata_valid slot \<and>
      ck_recorder_start_time_us slot = fh_recorder_start_time_us h \<and>
      24 \<le> unat ?c \<and> unat ?c \<le> log_valid_bytes log \<and> unat ?c = 24 + 84 * unat ?k"
  have nums: "word_of_nat kPersistedRecordSize = (84 :: u64)" "word_of_nat sizeof_file_header = (24 :: u64)"
    by simp_all
  have guard: "\<not> checkpoint_metadata_valid slot \<or>
        ck_recorder_start_time_us slot \<noteq> fh_recorder_start_time_us h \<or>
        unat ?c < sizeof_file_header \<or> rr_valid_bytes report < unat ?c \<or>
        (?c - word_of_nat sizeof_file_header) mod word_of_nat kPersistedRecordSize \<noteq> 0 \<or>
        ?k \<noteq> (?c - word_of_nat sizeof_file_header) div word_of_nat kPersistedRecordSize
      \<longleftrightarrow> \<not> ?pre"
  proof (cases "24 \<le> unat ?c")
    case True
    then have "(unat ?c < 24) = False" by simp
    then show ?thesis
      unfolding nums sizeof_file_header_def de_Morgan_conj assms(4)
      by (simp only: committed_shape [OF True, of ?k, symmetric] of_nat_numeral not_le de_Morgan_conj simp_thms)
  next
    case False
    then have "(unat ?c < 24) = True" by simp
    with False show ?thesis
      unfolding sizeof_file_header_def by (simp only: simp_thms)
  qed
  have unf: "checkpoint_consistent_with_log path h report slot s =
    (if \<not> ?pre then (False, s) else if ?k = 0 then (ck_last_sequence slot = 0, s)
     else case open_read path s of (opened, s1) \<Rightarrow>
     if \<not> opened then (False, s1)
     else case pread path 28 (unat (?c - 84)) s1 of (data, s2) \<Rightarrow>
       (case data of None \<Rightarrow> False
        | Some bs \<Rightarrow> length bs = 28 \<and> rh_sequence (dec_record_header bs) = ck_last_sequence slot, s2))"
    unfolding checkpoint_consistent_with_log_def guard
    unfolding nums sizeof_record_header_def ..
  show ?thesis
  proof (cases ?pre)
    case False
    then have "\<not> slot_agrees h (log_frames log) slot"
      by (auto simp: slot_agrees_def slot_commits_def log_valid_bytes_def min_def)
    with False show ?thesis
      unfolding unf by (simp only: simp_thms if_True)
  next
    case True
    then have n: "unat ?k \<le> length (log_frames log)" by (auto simp: log_valid_bytes_def)
    have agrees: "slot_agrees h (log_frames log) slot \<longleftrightarrow>
        ck_last_sequence slot = seq_or_0 (take (unat ?k) (log_frames log))"
    proof
      assume "slot_agrees h (log_frames log) slot"
      then obtain m where "m \<le> length (log_frames log)" and "slot_commits h (take m (log_frames log)) slot"
        by (auto simp: slot_agrees_def)
      moreover from this have "unat ?k = m" by (simp add: slot_commits_def)
      ultimately show "ck_last_sequence slot = seq_or_0 (take (unat ?k) (log_frames log))"
        by (simp add: slot_commits_def)
    next
      assume "ck_last_sequence slot = seq_or_0 (take (unat ?k) (log_frames log))"
      with True n show "slot_agrees h (log_frames log) slot"
        unfolding slot_agrees_def by (intro exI [of _ "unat ?k"]) (simp add: slot_commits_def)
    qed
    show ?thesis
    proof (cases "?k = 0")
      case zero: True
      with True agrees show ?thesis
        unfolding unf by (simp add: seq_or_0_def)
    next
      case False
      then have pos: "0 < unat ?k" by (simp add: unat_gt_0)
      have "unat (?c - 84) = unat ?c - 84"
        using True pos by (simp add: unat_sub word_le_nat_alt)
      then have off: "unat (?c - 84) = 24 + 84 * (unat ?k - 1)"
        using True pos by (simp add: algebra_simps)
      have "unat ?k - 1 < length (log_frames log)" using n pos by simp
      from frame_header_at [OF assms(3) this] False True agrees n pos assms(1,2) show ?thesis
        unfolding unf by (auto simp: os_simps path_exists_def file_bytes_some off
            seq_or_0_take frame_seq_def)
    qed
  qed
qed

section \<open>Recovery from the checkpoint journal\<close>

text \<open>The slot the recovery settles on: it agrees with the log, and no other that does is newer.\<close>

definition newest_agreeing :: "persisted_file_header \<Rightarrow> log_frame list \<Rightarrow>
    persisted_checkpoint_slot list \<Rightarrow> persisted_checkpoint_slot \<Rightarrow> bool" where
  "newest_agreeing h frames slots slot \<longleftrightarrow> slot \<in> set slots \<and> slot_agrees h frames slot \<and>
     (\<forall>t\<in>set slots. slot_agrees h frames t \<longrightarrow> t = slot \<or> ck_generation t < ck_generation slot)"

lemma select_checkpoint_newest:
  assumes "os_script s = []" and "os_files s path = Some log" and "log_header_ok log"
    and "rr_valid_bytes report = log_valid_bytes log"
    and "newest_agreeing h (log_frames log) [a, b] slot"
  shows "select_checkpoint path h report [a, b] None s = (Some slot, s)"
  using assms(5)
  by (auto simp: checkpoint_consistent_ok [OF assms(1-4)] newest_agreeing_def)

lemma select_checkpoint_none:
  assumes "os_script s = []" and "os_files s path = Some log" and "log_header_ok log"
    and "rr_valid_bytes report = log_valid_bytes log"
    and "\<not> slot_agrees h (log_frames log) a" and "\<not> slot_agrees h (log_frames log) b"
  shows "select_checkpoint path h report [a, b] None s = (None, s)"
  using assms(5,6) by (simp add: checkpoint_consistent_ok [OF assms(1-4)])

lemma read_file_header_ok:
  assumes "os_script s = []" and "os_files s path = Some log" and "log_header_ok log"
  shows "read_file_header path s = (Some (dec_file_header (take 24 log)), s)"
  using assms by (simp add: read_file_header_def os_simps path_exists_def file_bytes_some log_header_ok_def)

lemma journal_path_differs [simp]: "journal_path_for_log path \<noteq> path" "path \<noteq> journal_path_for_log path"
  by (simp_all add: journal_path_for_log_def)

lemma recovered_prefix_healthy:
  assumes "os_script s = []" and "os_files s path = Some log" and "log_header_ok log"
    and "log_valid_bytes log = length log"
  shows "\<exists>report. scan_healthy_prefix path False s = (report, s) \<and> recovered_prefix log report"
proof -
  from scan_file_ok [OF assms(1-3), of False] obtain report md es where
    r: "scan_file path False s = ((report, md, es), s)" "reports_prefix log report"
    by auto
  then show ?thesis
    using assms(4) by (auto simp: scan_healthy_prefix_def reports_prefix_def recovered_prefix_def)
qed

lemma recover_checkpoint_journal_ok:
  assumes s: "os_script s = []" and log: "os_files s path = Some log" and ok: "log_header_ok log"
    and j: "os_files s (journal_path_for_log path) = Some j" and lj: "length j = 104"
    and whole: "log_valid_bytes log = length log" and rep: "rr_healthy initial" "rr_valid_bytes initial = log_valid_bytes log"
    and sel: "newest_agreeing (dec_file_header (take 24 log)) (log_frames log) (dec_slots j) slot"
    and n: "n \<le> length (log_frames log)"
    and commits: "slot_commits (dec_file_header (take 24 log)) (take n (log_frames log)) slot"
  shows "\<exists>rep. recover_checkpoint_journal path (journal_path_for_log path) initial s =
      (rep, set_file path (take (24 + 84 * n) log) s) \<and> sr_healthy rep \<and>
      sr_valid_records rep = n \<and> sr_last_sequence rep = seq_or_0 (take n (log_frames log)) \<and>
      sr_checkpoint_generation rep = ck_generation slot \<and>
      sr_committed_length rep = ck_committed_length slot \<and>
      (sr_log_truncated rep \<longleftrightarrow> rr_truncated initial \<or> 24 + 84 * n < length log) \<and>
      sr_journal_found rep"
proof -
  let ?c = "take (24 + 84 * n) log" and ?jp = "journal_path_for_log path"
  let ?s = "set_file path ?c s"
  note cut = cut_log [OF ok n]
  have select: "select_checkpoint path (dec_file_header (take 24 log)) initial (dec_slots j) None s = (Some slot, s)"
    using select_checkpoint_newest [OF s log ok rep(2)] sel by (simp add: dec_slots_def)
  have bytes: "unat (ck_committed_length slot) = 24 + 84 * n" "unat (ck_record_count slot) = n"
    "ck_last_sequence slot = seq_or_0 (take n (log_frames log))"
    using commits n by (simp_all add: slot_commits_def)
  have le: "24 + 84 * n \<le> length log" using whole n by (simp add: log_valid_bytes_def)
  have trunc: "remove_tail path initial slot s = (True, ?s)"
    using s le log rep(2) whole
    by (auto simp: remove_tail_def bytes os_simps file_bytes_some resize_prefix set_file_same)
  have "os_script ?s = []" "os_files ?s path = Some ?c" using s by simp_all
  from recovered_prefix_healthy [OF this cut(3)] obtain committed where
    committed: "scan_healthy_prefix path False ?s = (committed, ?s)" "recovered_prefix ?c committed"
    using cut(4,5) by auto
  have "rr_healthy committed" "rr_valid_bytes committed = 24 + 84 * n" "rr_valid_records committed = n"
    "rr_last_sequence committed = seq_or_0 (take n (log_frames log))"
    using committed(2) cut n by (simp_all add: recovered_prefix_def)
  moreover have "path_exists ?jp s" "file_bytes ?jp s = j" using j by (simp_all add: path_exists_def file_bytes_some)
  ultimately show ?thesis
    using rep whole le lj
    by (simp add: recover_checkpoint_journal_def read_file_header_ok [OF s log ok] os_simps s select trunc
        committed(1) bytes Let_def empty_startup_def) auto
qed

lemma recover_startup_ok:
  assumes s: "os_script s = []" and log: "os_files s path = Some log" and ok: "log_header_ok log"
    and j: "os_files s (journal_path_for_log path) = Some j" and lj: "length j = 104"
    and sel: "newest_agreeing (dec_file_header (take 24 log)) (log_frames log) (dec_slots j) slot"
    and n: "n \<le> length (log_frames log)"
    and commits: "slot_commits (dec_file_header (take 24 log)) (take n (log_frames log)) slot"
  shows "\<exists>rep. recover_startup_state path s = (rep, set_file path (take (24 + 84 * n) log) s) \<and>
      sr_healthy rep \<and> sr_valid_records rep = n \<and>
      sr_last_sequence rep = seq_or_0 (take n (log_frames log)) \<and>
      sr_checkpoint_generation rep = ck_generation slot \<and>
      sr_committed_length rep = ck_committed_length slot \<and>
      (sr_log_truncated rep \<longleftrightarrow> 24 + 84 * n < length log) \<and> sr_journal_found rep"
proof -
  let ?jp = "journal_path_for_log path"
  let ?c = "take (log_valid_bytes log) log"
  let ?s = "set_file path ?c s"
  from scan_healthy_prefix_ok [OF s log ok] obtain report where
    scan: "scan_healthy_prefix path True s = (report, ?s)" and rp: "recovered_prefix log report"
    by blast
  note cut = cut_log [OF ok order_refl, folded log_valid_bytes_def]
  have vle: "log_valid_bytes log \<le> length log" by (rule log_valid_bytes_le [OF ok])
  have hd: "take 24 ?c = take 24 log" by (simp add: log_valid_bytes_def min_def)
  have fr: "log_frames ?c = log_frames log" using cut(2) by simp
  have le: "24 + 84 * n \<le> log_valid_bytes log" using n by (simp add: log_valid_bytes_def)
  have inner: "take (24 + 84 * n) ?c = take (24 + 84 * n) log" using le by (simp add: min_def)
  have "\<exists>rep. recover_checkpoint_journal path ?jp report ?s =
      (rep, set_file path (take (24 + 84 * n) ?c) ?s) \<and> sr_healthy rep \<and>
      sr_valid_records rep = n \<and> sr_last_sequence rep = seq_or_0 (take n (log_frames ?c)) \<and>
      sr_checkpoint_generation rep = ck_generation slot \<and>
      sr_committed_length rep = ck_committed_length slot \<and>
      (sr_log_truncated rep \<longleftrightarrow> rr_truncated report \<or> 24 + 84 * n < length ?c) \<and>
      sr_journal_found rep"
  proof (rule recover_checkpoint_journal_ok)
    show "os_script ?s = []" "os_files ?s path = Some ?c" "os_files ?s ?jp = Some j" "length j = 104"
      using s j lj by simp_all
    show "log_header_ok ?c" "log_valid_bytes ?c = length ?c" "rr_valid_bytes report = log_valid_bytes ?c"
      "rr_healthy report"
      using cut rp by (simp_all add: recovered_prefix_def)
    show "newest_agreeing (dec_file_header (take 24 ?c)) (log_frames ?c) (dec_slots j) slot"
      "slot_commits (dec_file_header (take 24 ?c)) (take n (log_frames ?c)) slot"
      "n \<le> length (log_frames ?c)"
      using sel commits n unfolding hd fr by simp_all
  qed
  then obtain rep where rep: "recover_checkpoint_journal path ?jp report ?s =
      (rep, set_file path (take (24 + 84 * n) log) s)" "sr_healthy rep"
      "sr_valid_records rep = n" "sr_last_sequence rep = seq_or_0 (take n (log_frames log))"
      "sr_checkpoint_generation rep = ck_generation slot" "sr_committed_length rep = ck_committed_length slot"
      "sr_log_truncated rep \<longleftrightarrow> rr_truncated report \<or> 24 + 84 * n < length ?c" "sr_journal_found rep"
    unfolding inner fr by auto
  have "path_exists ?jp ?s" "stat_size ?jp ?s = 104"
    using j lj by (simp_all add: path_exists_def stat_size_def file_bytes_def)
  then have "recover_startup_state path s = (rep, set_file path (take (24 + 84 * n) log) s)"
    by (simp add: recover_startup_state_def scan rep(1) Let_def)
  moreover have "sr_log_truncated rep \<longleftrightarrow> 24 + 84 * n < length log"
    using rep(7) rp vle le by (auto simp: recovered_prefix_def)
  ultimately show ?thesis using rep by blast
qed

section \<open>Migration when the system does not fail\<close>

lemma write_full_calm:
  assumes "os_script s = []" and "data \<noteq> []"
  shows "write_full path pos data s = (True, set_file path (overwrite (file_bytes path s) pos data) s)"
  using assms by (subst write_full.simps) (simp add: os_simps write_full.simps [of path _ "[]"])

lemma write_full_append:
  assumes "os_script s = []" and "data \<noteq> []" and "os_files s path = Some c"
  shows "write_full path (stat_size path s) data s = (True, set_file path (c @ data) s)"
  using assms by (simp add: write_full_calm stat_size_def file_bytes_some overwrite_end)

lemma enc_nonempty: "enc_record_header h \<noteq> []" "enc_payload p \<noteq> []" "le 4 (c :: u32) \<noteq> []"
  using rhc.enc_length [of h] plc.enc_length [of p] by (auto simp: numeral_eq_Suc)

lemma append_recovered_record_calm:
  assumes "os_script s = []" and "os_files s path = Some c"
  shows "append_recovered_record path e s = (True,
    (set_file path (c @ enc_frame (je_record_header e, je_payload e, je_record_crc32 e)) s)
      \<lparr>os_synced := (os_synced s)(path \<mapsto> c @ enc_frame (je_record_header e, je_payload e, je_record_crc32 e))\<rparr>)"
  using assms
  by (simp add: append_recovered_record_def os_simps path_exists_def write_full_append enc_nonempty enc_frame_def)

lemma write_checkpoint_journal_calm:
  assumes "os_script s = []"
    and j_def: "j = enc_checkpoint_slot (migrated_slot h report) @ enc_checkpoint_slot zero_slot"
  shows "write_checkpoint_journal jp h report s = (True, (set_file jp j s)\<lparr>os_synced := (os_synced s)(jp \<mapsto> j)\<rparr>)"
proof -
  have "j \<noteq> []" "length j = 104" by (auto simp: j_def codec_simps dest: arg_cong [where f = length])
  then show ?thesis
    using assms(1) by (simp add: write_checkpoint_journal_def Let_def os_simps write_full_calm overwrite_start
        resize_prefix j_def [symmetric])
qed

lemma migrate_calm:
  assumes "os_script s = []" and "os_files s path = Some log" and "log_header_ok log"
    and j_def: "j = enc_checkpoint_slot (migrated_slot (dec_file_header (take 24 log)) report) @ enc_checkpoint_slot zero_slot"
  shows "migrate path jp report s = (True, (set_file jp j s)\<lparr>os_synced := (os_synced s)(jp \<mapsto> j)\<rparr>)"
  using assms(1-3) write_checkpoint_journal_calm [OF assms(1) j_def]
  by (simp add: migrate_def read_file_header_ok)

text \<open>One more frame that continues the log.\<close>

lemma log_frames_extend:
  assumes "log_header_ok log" and "log_valid_bytes log = length log" and "frame_ok f"
    and "follows (last_seq None (log_frames log)) (frame_seq f)"
  shows "log_frames (log @ enc_frame f) = log_frames log @ [f]" and "log_header_ok (log @ enc_frame f)"
    and "log_valid_bytes (log @ enc_frame f) = length (log @ enc_frame f)"
proof -
  from assms(1) have len: "24 \<le> length log" by (simp add: log_header_ok_def)
  from log_body_split [OF assms(1)] assms(2) have body: "drop 24 log = enc_frames (log_frames log)"
    by (metis add_cancel_right_right append_Nil2 length_0_conv)
  have chain: "chain_ok None (log_frames log @ [f])"
    using assms(3,4) log_frames_chain [of log] by (simp add: chain_ok_append)
  have d: "drop 24 (log @ enc_frame f) = enc_frames (log_frames log @ [f]) @ []"
    using len body by simp
  have "log_frames (log @ enc_frame f) = valid_prefix None (enc_frames (log_frames log @ [f]) @ [])"
    by (simp only: log_frames_def [of "log @ enc_frame f"] d)
  also have "\<dots> = log_frames log @ [f]"
    by (simp only: valid_prefix_append [OF chain]) (simp add: valid_prefix_stop)
  finally show fr: "log_frames (log @ enc_frame f) = log_frames log @ [f]" .
  show "log_header_ok (log @ enc_frame f)" using assms(1) by (simp add: log_header_ok_def)
  show "log_valid_bytes (log @ enc_frame f) = length (log @ enc_frame f)"
    using assms(2) by (simp add: log_valid_bytes_def fr codec_simps)
qed

lemma inspect_journal_pending:
  assumes "os_script s = []" and "os_files s jp = Some (enc_journal_entry e)"
    and "journal_entry_metadata_ok e" and "compute_journal_crc e = je_journal_crc32 e" and "journal_entry_payload_ok e"
  shows "\<exists>m. inspect_journal jp s = (\<lparr>ji_status = JournalPending, ji_entry = e, ji_message = m\<rparr>, s)"
  using assms by (auto simp: inspect_journal_def Let_def path_exists_def stat_size_def file_bytes_some os_simps
      codec_simps jec.dec_enc)

section \<open>Properties\<close>

text \<open>C6. Startup recovery restores exactly the committed prefix. Whatever follows the committed
  frames in the log (torn frames, whole unacknowledged frames, any other bytes), if the newest
  checkpoint slot that agrees with the log commits \<open>n\<close> frames, the log is cut to these frames, no
  other file changes, and the report counts them and names the checkpoint.\<close>

theorem recovery_restores_committed_prefix:
  assumes "os_script s = []" and "os_files s path = Some log" and "log_header_ok log"
    and "os_files s (journal_path_for_log path) = Some j" and "length j = 104"
    and "newest_agreeing (dec_file_header (take 24 log)) (log_frames log) (dec_slots j) slot"
    and "n \<le> length (log_frames log)"
    and "slot_commits (dec_file_header (take 24 log)) (take n (log_frames log)) slot"
  shows "\<exists>rep. recover_startup_state path s = (rep, set_file path (take (24 + 84 * n) log) s) \<and>
      take (24 + 84 * n) log = take 24 log @ enc_frames (take n (log_frames log)) \<and>
      sr_healthy rep \<and> sr_valid_records rep = n \<and>
      sr_last_sequence rep = seq_or_0 (take n (log_frames log)) \<and>
      sr_checkpoint_generation rep = ck_generation slot \<and>
      sr_committed_length rep = ck_committed_length slot \<and>
      (sr_log_truncated rep \<longleftrightarrow> 24 + 84 * n < length log)"
  using recover_startup_ok [OF assms] cut_log(1) [OF assms(3,7)] by blast

definition sample_log :: bytes where
  "sample_log = log_bytes 7 sample_frames @ [1, 2, 3]"

definition sample_journal :: bytes where
  "sample_journal = enc_checkpoint_slot (make_slot 1 7 24 0 0) @ enc_checkpoint_slot (make_slot 2 7 108 1 1)"

definition sample_disk :: os where
  "sample_disk = \<lparr>os_files = [''log'' \<mapsto> sample_log, journal_path_for_log ''log'' \<mapsto> sample_journal],
     os_synced = Map.empty, os_script = [], os_elapsed = [], os_now = 7, os_keep_size = False\<rparr>"

lemma sample_disk_log:
  "log_frames sample_log = sample_frames"
  unfolding sample_log_def by (rule log_bytes_frames [OF sample_chain]) (simp add: acceptable_def)

lemma sample_commits:
  "slot_commits (new_file_header 7) (take 1 sample_frames) (make_slot 2 7 108 1 1)"
  "slot_commits (new_file_header 7) (take 0 sample_frames) (make_slot 1 7 24 0 0)"
  by (simp_all add: slot_commits_def sample_frames_def new_file_header_start seq_or_0_def)

lemma sample_newest:
  "newest_agreeing (new_file_header 7) sample_frames (dec_slots sample_journal) (make_slot 2 7 108 1 1)"
proof -
  have "1 \<le> length sample_frames" by (simp add: sample_frames_def)
  then have "slot_agrees (new_file_header 7) sample_frames (make_slot 2 7 108 1 1)"
    using sample_commits(1) unfolding slot_agrees_def by blast
  then show ?thesis
    by (auto simp: newest_agreeing_def dec_slots_def codec_simps sample_journal_def)
qed

lemma sample_recoverable:
  "os_script sample_disk = []" "os_files sample_disk ''log'' = Some sample_log" "log_header_ok sample_log"
  "os_files sample_disk (journal_path_for_log ''log'') = Some sample_journal" "length sample_journal = 104"
  "newest_agreeing (dec_file_header (take 24 sample_log)) (log_frames sample_log) (dec_slots sample_journal)
    (make_slot 2 7 108 1 1)"
  "1 \<le> length (log_frames sample_log)"
  "slot_commits (dec_file_header (take 24 sample_log)) (take 1 (log_frames sample_log)) (make_slot 2 7 108 1 1)"
proof -
  have hd: "dec_file_header (take 24 sample_log) = new_file_header 7"
    unfolding sample_log_def by (rule log_bytes_header(2))
  show "newest_agreeing (dec_file_header (take 24 sample_log)) (log_frames sample_log) (dec_slots sample_journal)
    (make_slot 2 7 108 1 1)"
    "slot_commits (dec_file_header (take 24 sample_log)) (take 1 (log_frames sample_log)) (make_slot 2 7 108 1 1)"
    unfolding hd sample_disk_log by (rule sample_newest, rule sample_commits(1))
  show "log_header_ok sample_log" unfolding sample_log_def by (rule log_bytes_header(1))
  show "1 \<le> length (log_frames sample_log)" by (simp add: sample_disk_log sample_frames_def)
qed (simp_all add: sample_disk_def sample_journal_def codec_simps)

theorem recovery_restores_committed_prefix_witness:
  "\<exists>rep s'. recover_startup_state ''log'' sample_disk = (rep, s') \<and> sr_healthy rep \<and> sr_valid_records rep = 1"
  using recovery_restores_committed_prefix [OF sample_recoverable] by blast

text \<open>Run again on what it left, recovery reports the same and changes nothing.\<close>

lemma recover_again:
  assumes "os_script s = []" and "os_files s path = Some log" and "log_header_ok log"
    and "os_files s (journal_path_for_log path) = Some j" and "length j = 104"
    and "newest_agreeing (dec_file_header (take 24 log)) (log_frames log) (dec_slots j) slot"
    and "n \<le> length (log_frames log)"
    and "slot_commits (dec_file_header (take 24 log)) (take n (log_frames log)) slot"
    and "recover_startup_state path s = (rep, s')"
  shows "\<exists>rep'. recover_startup_state path s' = (rep', s') \<and> sr_healthy rep' \<and>
    \<not> sr_log_truncated rep' \<and> sr_valid_records rep' = sr_valid_records rep \<and>
    sr_last_sequence rep' = sr_last_sequence rep \<and>
    sr_checkpoint_generation rep' = sr_checkpoint_generation rep"
proof -
  let ?c = "take (24 + 84 * n) log" and ?fs = "take n (log_frames log)" and ?h = "dec_file_header (take 24 log)"
  from recover_startup_ok [OF assms(1-8)] assms(9) have
    s': "s' = set_file path ?c s" and rep: "sr_valid_records rep = n" "sr_last_sequence rep = seq_or_0 ?fs"
      "sr_checkpoint_generation rep = ck_generation slot"
    by auto
  note cut = cut_log [OF assms(3,7)]
  have hd: "take 24 ?c = take 24 log" by (simp add: min_def)
  have agrees: "slot_agrees ?h (log_frames log) t" if "slot_agrees ?h ?fs t" for t
  proof -
    from that obtain m where m: "m \<le> n" "slot_commits ?h (take m ?fs) t"
      using assms(7) by (auto simp: slot_agrees_def)
    then have "take m ?fs = take m (log_frames log)" "m \<le> length (log_frames log)"
      using assms(7) by (simp_all add: min_def)
    with m(2) show ?thesis unfolding slot_agrees_def by auto
  qed
  have own: "slot_agrees ?h ?fs slot"
    using assms(7,8) unfolding slot_agrees_def by (intro exI [of _ n]) simp
  have newest: "newest_agreeing ?h ?fs (dec_slots j) slot"
    using assms(6) agrees own by (auto simp: newest_agreeing_def)
  have pre: "os_script s' = []" "os_files s' path = Some ?c" "os_files s' (journal_path_for_log path) = Some j"
    using assms(1,4) by (simp_all add: s')
  have "n \<le> length (log_frames ?c)" "take n (log_frames ?c) = ?fs" using assms(7) by (simp_all add: cut(2))
  from recover_startup_ok [OF pre(1,2) cut(3) pre(3) assms(5), unfolded hd cut(2), of slot n]
  obtain rep' where r: "recover_startup_state path s' = (rep', set_file path (take (24 + 84 * n) ?c) s')"
    "sr_healthy rep'" "sr_valid_records rep' = n" "sr_last_sequence rep' = seq_or_0 ?fs"
    "sr_checkpoint_generation rep' = ck_generation slot" "sr_log_truncated rep' \<longleftrightarrow> 24 + 84 * n < length ?c"
    using newest assms(7,8) by auto
  have "set_file path (take (24 + 84 * n) ?c) s' = s'" using pre(2) by (simp add: set_file_same)
  with r rep cut(4) show ?thesis by simp
qed

text \<open>C7. Recovery is idempotent: run again on what it left, it reports the same committed prefix
  and changes nothing.\<close>

theorem recovery_is_idempotent:
  assumes "os_script s = []" and "os_files s path = Some log" and "log_header_ok log"
    and "os_files s (journal_path_for_log path) = Some j" and "length j = 104"
    and "newest_agreeing (dec_file_header (take 24 log)) (log_frames log) (dec_slots j) slot"
    and "n \<le> length (log_frames log)"
    and "slot_commits (dec_file_header (take 24 log)) (take n (log_frames log)) slot"
    and "recover_startup_state path s = (rep, s')"
  shows "\<exists>rep'. recover_startup_state path s' = (rep', s') \<and> sr_healthy rep' \<and>
    \<not> sr_log_truncated rep' \<and> sr_valid_records rep' = sr_valid_records rep \<and>
    sr_last_sequence rep' = sr_last_sequence rep \<and>
    sr_checkpoint_generation rep' = sr_checkpoint_generation rep"
  using recover_again [OF assms] .

theorem recovery_is_idempotent_witness:
  "\<exists>rep s' rep'. recover_startup_state ''log'' sample_disk = (rep, s') \<and>
     recover_startup_state ''log'' s' = (rep', s') \<and> sr_valid_records rep' = sr_valid_records rep"
proof -
  obtain rep s' where r: "recover_startup_state ''log'' sample_disk = (rep, s')" by force
  from recovery_is_idempotent [OF sample_recoverable r] r show ?thesis by blast
qed

text \<open>The three ways in which there is nothing to recover from: no journal, a journal of a length none
  has, and no slot that agrees with the log.\<close>

lemma refused_without_journal:
  assumes "os_script s = []" and "os_files s path = Some log" and "log_header_ok log"
    and "os_files s (journal_path_for_log path) = None"
  shows "\<exists>rep s'. recover_startup_state path s = (rep, s') \<and> \<not> sr_healthy rep \<and>
    os_files s' (journal_path_for_log path) = None"
proof -
  let ?s = "set_file path (take (log_valid_bytes log) log) s"
  from scan_healthy_prefix_ok [OF assms(1-3)] obtain report where
    scan: "scan_healthy_prefix path True s = (report, ?s)" by blast
  have "path_exists path ?s" "\<not> path_exists (journal_path_for_log path) ?s" using assms(4) by (simp_all add: path_exists_def)
  then show ?thesis
    using scan assms(4) by (simp add: recover_startup_state_def Let_def inspect_journal_def empty_startup_def)
qed

lemma refused_odd_journal:
  assumes "os_script s = []" and "os_files s path = Some log" and "log_header_ok log"
    and "os_files s (journal_path_for_log path) = Some j" and "length j \<notin> {0, 104, 112}"
  shows "\<exists>rep s'. recover_startup_state path s = (rep, s') \<and> \<not> sr_healthy rep \<and>
    os_files s' (journal_path_for_log path) = Some j"
proof -
  let ?s = "set_file path (take (log_valid_bytes log) log) s"
  from scan_healthy_prefix_ok [OF assms(1-3)] obtain report where
    scan: "scan_healthy_prefix path True s = (report, ?s)" by blast
  have "path_exists (journal_path_for_log path) ?s" "stat_size (journal_path_for_log path) ?s = length j"
    using assms(4) by (simp_all add: path_exists_def stat_size_def file_bytes_some)
  then show ?thesis using scan assms(4,5) by (simp add: recover_startup_state_def Let_def empty_startup_def)
qed

lemma refused_without_checkpoint:
  assumes "os_script s = []" and "os_files s path = Some log" and "log_header_ok log"
    and "os_files s (journal_path_for_log path) = Some j" and "length j = 104"
    and "\<forall>slot\<in>set (dec_slots j). \<not> slot_agrees (dec_file_header (take 24 log)) (log_frames log) slot"
  shows "\<exists>rep s'. recover_startup_state path s = (rep, s') \<and> \<not> sr_healthy rep \<and>
    os_files s' (journal_path_for_log path) = Some j"
proof -
  let ?jp = "journal_path_for_log path" and ?c = "take (log_valid_bytes log) log"
  let ?s = "set_file path ?c s" and ?h = "dec_file_header (take 24 log)"
  from scan_healthy_prefix_ok [OF assms(1-3)] obtain report where
    scan: "scan_healthy_prefix path True s = (report, ?s)" and rp: "recovered_prefix log report" by blast
  note cut = cut_log [OF assms(3) order_refl, folded log_valid_bytes_def]
  have j: "path_exists ?jp ?s" "stat_size ?jp ?s = length j" "file_bytes ?jp ?s = j"
    using assms(4) by (simp_all add: path_exists_def stat_size_def file_bytes_some)
  have hd: "take 24 ?c = take 24 log" by (simp add: log_valid_bytes_def min_def)
  have s1: "os_script ?s = []" "os_files ?s path = Some ?c" using assms(1) by simp_all
  have vb: "rr_valid_bytes report = log_valid_bytes ?c" using rp cut(5) by (simp add: recovered_prefix_def)
  have no: "\<not> slot_agrees ?h (log_frames ?c) slot" if "slot \<in> set (dec_slots j)" for slot
    using assms(6) that cut(2) by auto
  have sel: "select_checkpoint path ?h report (dec_slots j) None ?s = (None, ?s)"
    using select_checkpoint_none [OF s1 cut(3) vb] no unfolding dec_slots_def by simp
  have rd: "read_file_header path ?s = (Some ?h, ?s)"
    using read_file_header_ok [OF s1 cut(3)] unfolding hd .
  have "rr_healthy report" using rp by (simp add: recovered_prefix_def)
  then have "\<exists>r. recover_checkpoint_journal path ?jp report ?s = (r, ?s) \<and> \<not> sr_healthy r"
    using s1(1) j assms(5) sel rd by (simp add: recover_checkpoint_journal_def os_simps Let_def empty_startup_def)
  then show ?thesis using scan j assms(4,5) by (auto simp: recover_startup_state_def Let_def)
qed



text \<open>The slot a migration writes commits the frames that the scan reported.\<close>

lemma migrated_slot_commits:
  assumes "rr_valid_records rep = length fs" and "rr_valid_bytes rep = 24 + 84 * length fs"
    and "rr_last_sequence rep = seq_or_0 fs" and "24 + 84 * length fs < 2 ^ 64"
  shows "slot_commits h fs (migrated_slot h rep)"
proof -
  have "unat (word_of_nat (24 + 84 * length fs) :: u64) = 24 + 84 * length fs"
    "unat (word_of_nat (length fs) :: u64) = length fs"
    using assms(4) by (simp_all only: unat_of_nat) simp_all
  then show ?thesis
    using assms by (simp only: slot_commits_def migrated_slot_def make_slot_fields make_slot_valid) simp
qed

text \<open>C9. A legacy journal with one valid pending entry is rolled forward: the entry's record is
  appended to the log, the log validates with it, and the journal is replaced by checkpoint slots
  that commit all frames.\<close>

theorem legacy_entry_is_rolled_forward:
  assumes "os_script s = []" and "os_files s path = Some log" and "log_header_ok log"
    and "log_valid_bytes log = length log" and "length log + 84 < 2 ^ 64"
    and "os_files s (journal_path_for_log path) = Some (enc_journal_entry e)"
    and "journal_entry_metadata_ok e" and "compute_journal_crc e = je_journal_crc32 e" and "journal_entry_payload_ok e"
    and "seq_or_0 (log_frames log) < je_sequence e" and "je_sequence e = seq_or_0 (log_frames log) + 1"
  defines "f \<equiv> (je_record_header e, je_payload e, je_record_crc32 e)"
  shows "\<exists>rep s' slot. recover_startup_state path s = (rep, s') \<and> sr_healthy rep \<and>
    sr_journal_replayed rep \<and> sr_journal_migrated rep \<and> sr_last_sequence rep = je_sequence e \<and>
    sr_valid_records rep = length (log_frames log) + 1 \<and>
    os_files s' path = Some (log @ enc_frame f) \<and> log_frames (log @ enc_frame f) = log_frames log @ [f] \<and>
    os_files s' (journal_path_for_log path) = Some (enc_checkpoint_slot slot @ enc_checkpoint_slot zero_slot) \<and>
    slot_commits (dec_file_header (take 24 log)) (log_frames log @ [f]) slot"
proof -
  let ?jp = "journal_path_for_log path" and ?h = "dec_file_header (take 24 log)" and ?new = "log @ enc_frame f"
  let ?s1 = "(set_file path ?new s)\<lparr>os_synced := (os_synced s)(path \<mapsto> ?new)\<rparr>"
  have f: "frame_ok f" "frame_seq f = je_sequence e"
    using assms(9) by (simp_all add: f_def frame_ok_def frame_seq_def journal_entry_payload_ok_def)
  have max: "seq_or_0 (log_frames log) \<noteq> - 1" using assms(10,11) by auto
  have fol: "follows (last_seq None (log_frames log)) (frame_seq f)"
    using f(2) assms(11) max by (auto simp: follows_def last_seq_def seq_or_0_def)
  note ext = log_frames_extend [OF assms(3,4) f(1) fol]
  from scan_healthy_prefix_ok [OF assms(1-3)] assms(4) set_file_same [OF assms(2)] obtain report where
    scan: "scan_healthy_prefix path True s = (report, s)" and rp: "recovered_prefix log report" by auto
  obtain m where insp: "inspect_journal ?jp s = (\<lparr>ji_status = JournalPending, ji_entry = e, ji_message = m\<rparr>, s)"
    using inspect_journal_pending [OF assms(1,6-9)] by blast
  have app: "append_recovered_record path e s = (True, ?s1)"
    using append_recovered_record_calm [OF assms(1,2)] by (simp add: f_def)
  have s1: "os_script ?s1 = []" "os_files ?s1 path = Some ?new" using assms(1) by simp_all
  from recovered_prefix_healthy [OF s1 ext(2,3)] obtain report2 where
    scan2: "scan_healthy_prefix path False ?s1 = (report2, ?s1)" and rp2: "recovered_prefix ?new report2" by blast
  let ?j = "enc_checkpoint_slot (migrated_slot ?h report2) @ enc_checkpoint_slot zero_slot"
  have hd: "take 24 ?new = take 24 log" using assms(3) by (simp add: log_header_ok_def)
  have mig: "migrate path ?jp report2 ?s1 = (True, (set_file ?jp ?j ?s1)\<lparr>os_synced := (os_synced ?s1)(?jp \<mapsto> ?j)\<rparr>)"
    using migrate_calm [OF s1 ext(2) refl, of ?jp report2] unfolding hd .
  have nums: "rr_healthy report2" "rr_valid_records report2 = length (log_frames log) + 1"
    "rr_last_sequence report2 = je_sequence e" "rr_valid_bytes report2 = length log + 84"
    "rr_healthy report" "rr_last_sequence report = seq_or_0 (log_frames log)"
    using rp rp2 f(2) ext(3) by (simp_all add: recovered_prefix_def ext(1) seq_or_0_def codec_simps)
  have jx: "path_exists ?jp s" "stat_size ?jp s = 112"
    using assms(6) by (simp_all add: path_exists_def stat_size_def file_bytes_some codec_simps)
  have "length log = 24 + 84 * length (log_frames log)" using assms(4) by (simp add: log_valid_bytes_def)
  then have "slot_commits ?h (log_frames log @ [f]) (migrated_slot ?h report2)"
    using assms(5) f(2) nums by (intro migrated_slot_commits) (simp_all add: seq_or_0_def)
  moreover have "\<exists>rep. recover_startup_state path s = (rep, (set_file ?jp ?j ?s1)\<lparr>os_synced := (os_synced ?s1)(?jp \<mapsto> ?j)\<rparr>) \<and>
      sr_healthy rep \<and> sr_journal_replayed rep \<and> sr_journal_migrated rep \<and> sr_last_sequence rep = je_sequence e \<and>
      sr_valid_records rep = length (log_frames log) + 1"
    using assms(10,11) nums jx
    by (simp add: recover_startup_state_def scan Let_def insp app scan2 mig migrated_report_def not_le [symmetric])
  ultimately show ?thesis using ext(1) by auto
qed

definition sample_entry :: persisted_journal_entry where
  "sample_entry =
    (let f = make_frame default_flight_record 3;
         entry = \<lparr>je_magic = kJournalMagic, je_version = kLogFormatVersion, je_header_size = 112,
           je_state = kJournalStatePending, je_entry_size = 112, je_sequence = 3, je_record_header = fst f,
           je_payload = fst (snd f), je_record_crc32 = snd (snd f), je_journal_crc32 = 0\<rparr>
     in entry\<lparr>je_journal_crc32 := compute_journal_crc entry\<rparr>)"

lemma sample_entry_ok:
  "journal_entry_metadata_ok sample_entry" "compute_journal_crc sample_entry = je_journal_crc32 sample_entry"
  "journal_entry_payload_ok sample_entry" "je_sequence sample_entry = 3"
  by (simp_all add: sample_entry_def Let_def journal_entry_metadata_ok_def compute_journal_crc_def
      journal_entry_payload_ok_def make_frame_def record_metadata_ok_def)

theorem legacy_entry_is_rolled_forward_witness:
  "\<exists>s rep s'. recover_startup_state ''log'' s = (rep, s') \<and> sr_journal_replayed rep \<and> sr_valid_records rep = 3"
proof -
  let ?log = "log_bytes 7 sample_frames"
  let ?s = "sample_disk\<lparr>os_files := [''log'' \<mapsto> ?log, journal_path_for_log ''log'' \<mapsto> enc_journal_entry sample_entry]\<rparr>"
  have fr: "log_frames ?log = sample_frames" using log_bytes_frames [OF sample_chain, of "[]" 7] by simp
  have "length ?log = 192" "seq_or_0 sample_frames = 2"
    using log_bytes_header(3) [of 7 sample_frames] by (simp_all add: sample_frames_def seq_or_0_def)
  then have "log_valid_bytes ?log = length ?log" "length ?log + 84 < 2 ^ 64"
    "seq_or_0 (log_frames ?log) < je_sequence sample_entry" "je_sequence sample_entry = seq_or_0 (log_frames ?log) + 1"
    by (simp_all add: log_valid_bytes_def fr sample_entry_ok) (simp add: sample_frames_def)
  note facts = this
  have files: "os_script ?s = []" "os_files ?s ''log'' = Some ?log" "log_header_ok ?log"
    "os_files ?s (journal_path_for_log ''log'') = Some (enc_journal_entry sample_entry)"
    using log_bytes_header(1) [of 7 sample_frames "[]"] by (simp_all add: sample_disk_def)
  obtain rep s' where "recover_startup_state ''log'' ?s = (rep, s')" "sr_journal_replayed rep"
    "sr_valid_records rep = length (log_frames ?log) + 1"
    using legacy_entry_is_rolled_forward [OF files(1-3) facts(1,2) files(4) sample_entry_ok(1-3) facts(3,4)] by blast
  moreover have "length (log_frames ?log) + 1 = 3" unfolding fr by (simp add: sample_frames_def)
  ultimately show ?thesis by metis
qed

text \<open>\<open>recover\<close> with truncation keeps exactly the longest valid prefix of a log with a valid
  header; a file without one is never modified and is reported as not healthy.\<close>

theorem recover_keeps_longest_prefix:
  assumes "os_script s = []" and "os_files s path = Some log"
  shows "\<exists>report. if log_header_ok log
    then recover path True s = (report, set_file path (take 24 log @ enc_frames (log_frames log)) s) \<and> rr_healthy report \<and>
      rr_valid_records report = length (log_frames log) \<and> (rr_truncated report \<longleftrightarrow> log_valid_bytes log < length log)
    else recover path True s = (report, s) \<and> \<not> rr_healthy report"
proof (cases "log_header_ok log")
  case True
  from scan_healthy_prefix_ok [OF assms True] cut_log(1) [OF True order_refl] True show ?thesis
    by (auto simp: recover_def recovered_prefix_def log_valid_bytes_def)
next
  case False
  from scan_contents_bad [OF False] obtain report where r: "scan_contents log = (report, empty_metadata, [])"
    "\<not> rr_healthy report" "rr_valid_bytes report = 0" "\<not> rr_truncated report" by blast
  then show ?thesis
    using assms False
    by (simp add: recover_def scan_healthy_prefix_def scan_file_def path_exists_def os_simps file_bytes_some)
qed

theorem recover_keeps_longest_prefix_witness:
  "\<exists>report s'. recover ''log'' True sample_disk = (report, s') \<and> rr_healthy report \<and> rr_valid_records report = 2"
  using recover_keeps_longest_prefix [OF sample_recoverable(1,2)] sample_recoverable(3) sample_disk_log
  by (auto simp: sample_frames_def)

end
