(* ===== verification/Latency.thy ===== *)
theory Latency
  imports Prelude
begin

text \<open>
  The latency histograms of \<open>binary_log_writer.cpp\<close>: the bin of a measured duration, the
  update of the counters and the percentiles read off them, with their accuracy. The array of bins is the function
  from bin numbers to counters, and counters are natural numbers.
\<close>

definition kLatencyBinWidthNs :: nat where [simp]: "kLatencyBinWidthNs = 100"
definition kLatencyFineBinCount :: nat where [simp]: "kLatencyFineBinCount = 10000"
definition kLatencyCoarseBinWidthNs :: nat where [simp]: "kLatencyCoarseBinWidthNs = 10000"
definition kLatencyCoarseBinCount :: nat where [simp]: "kLatencyCoarseBinCount = 9900"
definition kLatencyBinCount :: nat where
  [simp]: "kLatencyBinCount = kLatencyFineBinCount + kLatencyCoarseBinCount + 1"

record latency_histogram =
  lh_bins :: "nat \<Rightarrow> nat"
  lh_samples :: nat
  lh_maximum :: nat

record latency_summary =
  ls_samples :: nat
  ls_p50_ns :: nat
  ls_p95_ns :: nat
  ls_p99_ns :: nat
  ls_max_ns :: nat

definition empty_histogram :: latency_histogram where
  "empty_histogram = \<lparr>lh_bins = (\<lambda>_. 0), lh_samples = 0, lh_maximum = 0\<rparr>"

definition latency_bin :: "nat \<Rightarrow> nat" where
  "latency_bin elapsed_ns =
    (let fine_limit = kLatencyFineBinCount * kLatencyBinWidthNs in
     if elapsed_ns < fine_limit then elapsed_ns div kLatencyBinWidthNs
     else min (kLatencyBinCount - 1)
       (kLatencyFineBinCount + (elapsed_ns - fine_limit) div kLatencyCoarseBinWidthNs))"

definition observe_latency :: "nat \<Rightarrow> latency_histogram \<Rightarrow> latency_histogram" where
  "observe_latency elapsed_ns h =
    \<lparr>lh_bins = (lh_bins h)(latency_bin elapsed_ns := lh_bins h (latency_bin elapsed_ns) + 1),
     lh_samples = lh_samples h + 1, lh_maximum = max (lh_maximum h) elapsed_ns\<rparr>"

function percentile_from :: "latency_histogram \<Rightarrow> nat \<Rightarrow> nat \<Rightarrow> nat \<Rightarrow> nat" where
  "percentile_from h rank index cumulative =
    (if kLatencyBinCount \<le> index then lh_maximum h
     else let cumulative' = cumulative + lh_bins h index in
       if rank \<le> cumulative' then
         (if index + 1 = kLatencyBinCount then lh_maximum h
          else if index < kLatencyFineBinCount then (index + 1) * kLatencyBinWidthNs
          else kLatencyFineBinCount * kLatencyBinWidthNs +
            (index - kLatencyFineBinCount + 1) * kLatencyCoarseBinWidthNs)
       else percentile_from h rank (index + 1) cumulative')"
  by pat_completeness auto
termination
  by (relation "measure (\<lambda>(h, rank, index, cumulative). kLatencyBinCount - index)") auto

declare percentile_from.simps [simp del]

definition percentile :: "latency_histogram \<Rightarrow> nat \<Rightarrow> nat" where
  "percentile h numerator = percentile_from h ((lh_samples h * numerator + 99) div 100) 0 0"

definition summarize_histogram :: "latency_histogram \<Rightarrow> latency_summary" where
  "summarize_histogram h =
    (if lh_samples h = 0 then
       \<lparr>ls_samples = 0, ls_p50_ns = 0, ls_p95_ns = 0, ls_p99_ns = 0, ls_max_ns = lh_maximum h\<rparr>
     else \<lparr>ls_samples = lh_samples h, ls_p50_ns = percentile h 50, ls_p95_ns = percentile h 95,
           ls_p99_ns = percentile h 99, ls_max_ns = lh_maximum h\<rparr>)"

section \<open>What a percentile says\<close>

text \<open>A histogram filled with the durations \<open>es\<close>.\<close>

definition observed :: "nat list \<Rightarrow> latency_histogram" where
  "observed es = fold observe_latency es empty_histogram"

lemma latency_bin_cases:
  "latency_bin e = (if e < 1000000 then e div 100
     else if e < 100000000 then 10000 + (e - 1000000) div 10000 else 19900)"
proof -
  have "(e - 1000000) div 10000 < 9900 \<longleftrightarrow> e < 100000000" if "1000000 \<le> e"
    using that by (simp add: div_less_iff_less_mult) linarith
  then show ?thesis by (auto simp: latency_bin_def Let_def)
qed

lemma latency_bin_bound: "latency_bin e < kLatencyBinCount"
  by (auto simp: latency_bin_cases intro: less_mult_imp_div_less)

lemma latency_bin_mono:
  assumes "e \<le> e'"
  shows "latency_bin e \<le> latency_bin e'"
proof -
  consider (fine) "e' < 1000000" | (split) "e < 1000000" "1000000 \<le> e'" | (coarse) "1000000 \<le> e" "e' < 100000000"
    | (last) "1000000 \<le> e" "100000000 \<le> e'" by linarith
  then show ?thesis
  proof cases
    case fine
    then show ?thesis using assms by (simp add: latency_bin_cases div_le_mono)
  next
    case split
    then have "e div 100 < 10000" by (intro less_mult_imp_div_less) simp
    with split show ?thesis by (simp add: latency_bin_cases)
  next
    case coarse
    then show ?thesis using assms by (simp add: latency_bin_cases div_le_mono)
  next
    case last
    then show ?thesis using latency_bin_bound [of e] by (simp add: latency_bin_cases [of e'])
  qed
qed

lemma observed_snoc: "observed (es @ [e]) = observe_latency e (observed es)"
  by (simp add: observed_def)

lemma observed_nil: "observed [] = empty_histogram"
  by (simp add: observed_def)

lemma observed_samples: "lh_samples (observed es) = length es"
  by (induction es rule: rev_induct) (simp_all add: observed_nil observed_snoc observe_latency_def empty_histogram_def)

lemma observed_bins: "lh_bins (observed es) i = length (filter (\<lambda>e. latency_bin e = i) es)"
  by (induction es rule: rev_induct) (auto simp: observed_nil observed_snoc observe_latency_def empty_histogram_def)

lemma observed_maximum: "lh_maximum (observed es) = fold max es 0"
  by (induction es rule: rev_induct)
    (simp_all add: observed_nil observed_snoc observe_latency_def empty_histogram_def max.commute)

definition below :: "nat \<Rightarrow> nat list \<Rightarrow> nat" where
  "below i es = length (filter (\<lambda>e. latency_bin e < i) es)"

lemma below_Suc: "below (Suc i) es = below i es + lh_bins (observed es) i"
  unfolding below_def observed_bins
  by (induction es) (auto simp: less_Suc_eq)

definition bin_limit :: "nat \<Rightarrow> nat" where
  "bin_limit i = (if i < 10000 then (i + 1) * 100 else 1000000 + (i - 10000 + 1) * 10000)"

text \<open>The loop stops at the bin of the duration that has the rank.\<close>

lemma percentile_from_bin:
  assumes "\<And>i. rank \<le> below (Suc i) es \<longleftrightarrow> target \<le> i" and "index \<le> target" and "target < kLatencyBinCount"
  shows "percentile_from (observed es) rank index (below index es) =
    (if target + 1 = kLatencyBinCount then fold max es 0 else bin_limit target)"
  using assms(2)
proof (induction "target - index" arbitrary: index)
  case 0
  then have "index = target" by simp
  with assms show ?case
    by (subst percentile_from.simps) (simp add: Let_def below_Suc [symmetric] observed_maximum bin_limit_def)
next
  case (Suc d)
  then have "\<not> rank \<le> below (Suc index) es" "index < kLatencyBinCount" using assms(1,3) by auto
  with Suc(1) [of "Suc index"] Suc(2,3) show ?case
    by (subst percentile_from.simps) (simp add: Let_def below_Suc [symmetric])
qed

lemma sorted_filter_down:
  assumes "sorted xs" and "\<And>x y. x \<le> y \<Longrightarrow> P y \<Longrightarrow> P x" and "k < length xs"
  shows "P (xs ! k) \<longleftrightarrow> k < length (filter P xs)"
  using assms
proof (induction xs arbitrary: k)
  case (Cons x xs)
  show ?case
  proof (cases "P x")
    case True
    with Cons show ?thesis by (cases k) auto
  next
    case False
    with Cons.prems(1,2) have "\<forall>y\<in>set (x # xs). \<not> P y" by auto
    then have "filter P (x # xs) = []" by (simp add: filter_empty_conv)
    moreover have "(x # xs) ! k \<in> set (x # xs)" by (rule nth_mem [OF Cons.prems(3)])
    ultimately show ?thesis using \<open>\<forall>y\<in>set (x # xs). \<not> P y\<close> by (metis list.size(3) not_less_zero)
  qed
qed simp

lemma below_rank:
  assumes "0 < rank" and "rank \<le> length es"
  shows "rank \<le> below (Suc i) es \<longleftrightarrow> latency_bin (sort es ! (rank - 1)) \<le> i"
proof -
  have "latency_bin (sort es ! (rank - 1)) < Suc i \<longleftrightarrow> rank - 1 < length (filter (\<lambda>e. latency_bin e < Suc i) (sort es))"
    by (rule sorted_filter_down) (use assms in \<open>auto intro: le_less_trans [OF latency_bin_mono]\<close>)
  moreover have "length (filter (\<lambda>e. latency_bin e < Suc i) (sort es)) = below (Suc i) es"
    unfolding below_def by (metis filter_sort length_sort)
  ultimately show ?thesis using assms(1) by auto
qed

lemma rank_in_range:
  assumes "es \<noteq> []" and "0 < p" and "p \<le> 100"
  shows "0 < (length es * p + 99) div 100" and "(length es * p + 99) div 100 \<le> length es"
proof -
  have "0 < length es * p" using assms(1,2) by simp
  then show "0 < (length es * p + 99) div 100"
    using div_le_mono [of 100 "length es * p + 99" 100] by linarith
  have "(length es * p + 99) div 100 \<le> (length es * 100 + 99) div 100"
    by (intro div_le_mono add_right_mono mult_le_mono2 assms(3))
  then show "(length es * p + 99) div 100 \<le> length es" by simp
qed

lemma le_fold_max: "e \<in> set es \<or> e \<le> m \<Longrightarrow> e \<le> fold max es (m :: nat)"
proof (induction es arbitrary: m)
  case (Cons x es)
  have "e \<in> set es \<or> e \<le> max x m" using Cons.prems by (auto simp: le_max_iff_disj)
  then show ?case using Cons.IH by simp
qed simp

lemma percentile_of_rank:
  assumes "es \<noteq> []" and "0 < p" and "p \<le> 100"
  defines "rank \<equiv> (length es * p + 99) div 100"
  shows "percentile (observed es) p =
    (let b = latency_bin (sort es ! (rank - 1)) in if b + 1 = kLatencyBinCount then fold max es 0 else bin_limit b)"
proof -
  note r = rank_in_range [OF assms(1-3), folded rank_def]
  have "below 0 es = 0" by (simp add: below_def)
  then show ?thesis
    using percentile_from_bin [of rank es "latency_bin (sort es ! (rank - 1))" 0] below_rank [OF r] latency_bin_bound
    by (simp add: percentile_def observed_samples rank_def Let_def)
qed

text \<open>C37. A reported percentile is accurate to its bin: with \<open>x\<close> the duration of the requested rank
  among those measured, the percentile is at least \<open>x\<close>, above it by at most 100 ns up to a
  millisecond and by at most 10 us up to 100 ms, and beyond that it is the largest duration.\<close>

theorem percentile_accuracy:
  assumes "es \<noteq> []" and "0 < p" and "p \<le> 100"
  defines "x \<equiv> sort es ! ((length es * p + 99) div 100 - 1)"
  shows "x \<le> percentile (observed es) p \<and>
    (if x < 1000000 then percentile (observed es) p \<le> x + 100
     else if x < 100000000 then percentile (observed es) p \<le> x + 10000
     else percentile (observed es) p = fold max es 0)"
proof -
  have "x \<in> set (sort es)" unfolding x_def
    by (rule nth_mem, unfold length_sort) (use rank_in_range [OF assms(1-3)] in linarith)
  then have top: "x \<le> fold max es 0" using le_fold_max [of x es 0] by simp
  have p: "percentile (observed es) p =
      (let b = latency_bin x in if b + 1 = kLatencyBinCount then fold max es 0 else bin_limit b)"
    unfolding x_def by (rule percentile_of_rank [OF assms(1-3)])
  consider (fine) "x < 1000000" | (coarse) "1000000 \<le> x" "x < 100000000" | (long) "100000000 \<le> x" by linarith
  then show ?thesis
  proof cases
    case fine
    then have "x div 100 < 10000" by (simp add: less_mult_imp_div_less)
    with fine p show ?thesis by (simp add: latency_bin_cases bin_limit_def)
  next
    case coarse
    define k where "k = (x - 1000000) div 10000"
    have "k * 10000 \<le> x - 1000000" unfolding k_def by (rule div_times_less_eq_dividend)
    moreover have "x - 1000000 < 10000 + k * 10000" unfolding k_def by (rule dividend_less_div_times) simp
    moreover have "k < 9900" unfolding k_def by (rule less_mult_imp_div_less) (use coarse in simp)
    moreover have "percentile (observed es) p = 1010000 + k * 10000"
      using coarse p \<open>k < 9900\<close> by (simp add: latency_bin_cases bin_limit_def k_def [symmetric])
    ultimately show ?thesis using coarse by auto
  next
    case long
    with p top show ?thesis by (simp add: latency_bin_cases)
  qed
qed

theorem percentile_accuracy_witness:
  "percentile (observed [250, 120, 40]) 50 \<le> 120 + 100 \<and> 120 \<le> percentile (observed [250, 120, 40]) 50"
  using percentile_accuracy [of "[250, 120, 40]" 50] by simp

text \<open>A percentile is the upper limit of its bin, so it can lie above the reported maximum.\<close>

lemma percentile_above_maximum:
  "summarize_histogram (observed [50]) =
    \<lparr>ls_samples = 1, ls_p50_ns = 100, ls_p95_ns = 100, ls_p99_ns = 100, ls_max_ns = 50\<rparr>"
  by (simp add: summarize_histogram_def percentile_def percentile_from.simps observed_def observe_latency_def
      empty_histogram_def latency_bin_cases Let_def)

end
