(* ===== verification/Writer.thy ===== *)
theory Writer
  imports Recovery Latency
begin

text \<open>
  The log writer, \<open>binary_log_writer.cpp\<close>: the state of \<open>BinaryLogWriter\<close> and each of its
  operations, in the order of the source, over the operating system of \<open>Os_Files\<close>. A call of
  \<open>_exit\<close> in an armed fault ends the process: the result is then the exit code, with the files as
  they were left.
\<close>

section \<open>State\<close>

datatype runtime_fault_mode =
    NoFault
  | CrashBeforeMainLogWrite
  | CrashAfterJournalSync
  | CrashDuringMainLogWrite
  | CrashAfterMainLogWrite
  | CrashBeforeMainLogSync
  | CrashAfterMainLogSync
  | CrashBeforeCheckpointWrite
  | CrashDuringCheckpointWrite
  | CrashAfterCheckpointWrite
  | CrashBeforeJournalSync
  | DropCommit

text \<open>The acknowledgement descriptor is the file it refers to, \<open>None\<close> for a negative one.\<close>

record runtime_fault_config =
  fc_mode :: runtime_fault_mode
  fc_trigger_sequence :: u64
  fc_partial_write_bytes :: nat
  fc_acknowledgement_fd :: "string option"

definition no_fault_config :: runtime_fault_config where
  "no_fault_config = \<lparr>fc_mode = NoFault, fc_trigger_sequence = 1, fc_partial_write_bytes = 0,
     fc_acknowledgement_fd = None\<rparr>"

record sequenced_record =
  sq_record :: flight_record
  sq_sequence :: u64

record writer_options =
  wo_batch_capacity_records :: nat
  wo_sync_every_batches :: nat
  wo_preallocation_chunk_bytes :: nat
  wo_serialization_buffer_alignment :: u64

definition default_writer_options :: writer_options where
  "default_writer_options = \<lparr>wo_batch_capacity_records = 64, wo_sync_every_batches = 1,
     wo_preallocation_chunk_bytes = 4 * 1024 * 1024, wo_serialization_buffer_alignment = 4096\<rparr>"

record writer_stats =
  ws_records_written :: nat
  ws_batches_written :: nat
  ws_bytes_written :: nat
  ws_write_calls :: nat
  ws_sync_calls :: nat
  ws_preallocation_calls :: nat
  ws_checkpoint_writes :: nat
  ws_journal_sync_calls :: nat
  ws_records_committed :: nat
  ws_commits :: nat
  ws_failures :: nat
  ws_write_latency :: latency_histogram
  ws_sync_latency :: latency_histogram

definition empty_writer_stats :: writer_stats where
  "empty_writer_stats = \<lparr>ws_records_written = 0, ws_batches_written = 0, ws_bytes_written = 0,
     ws_write_calls = 0, ws_sync_calls = 0, ws_preallocation_calls = 0, ws_checkpoint_writes = 0,
     ws_journal_sync_calls = 0, ws_records_committed = 0, ws_commits = 0, ws_failures = 0,
     ws_write_latency = empty_histogram, ws_sync_latency = empty_histogram\<rparr>"

record writer =
  w_path :: string
  w_journal_path :: string
  w_fd_open :: bool
  w_journal_fd_open :: bool
  w_recorder_start_time_us :: u64
  w_fault_config :: runtime_fault_config
  w_options :: writer_options
  w_serialization_buffer :: bool
  w_logical_end :: nat
  w_preallocated_end :: nat
  w_unsynced_batches :: nat
  w_checkpoint_generation :: u64
  w_active_checkpoint_slot :: nat
  w_file_record_count :: u64
  w_last_written_sequence :: u64
  w_fault_injected :: bool
  w_pending_commit_fault :: runtime_fault_mode
  w_failed :: bool
  w_stats :: writer_stats

definition make_writer :: "string \<Rightarrow> runtime_fault_config \<Rightarrow> writer_options \<Rightarrow> writer" where
  "make_writer path fault_config options = \<lparr>w_path = path,
     w_journal_path = journal_path_for_log path, w_fd_open = False, w_journal_fd_open = False,
     w_recorder_start_time_us = 0, w_fault_config = fault_config, w_options = options,
     w_serialization_buffer = False, w_logical_end = 0, w_preallocated_end = 0,
     w_unsynced_batches = 0, w_checkpoint_generation = 0, w_active_checkpoint_slot = 1,
     w_file_record_count = 0, w_last_written_sequence = 0, w_fault_injected = False,
     w_pending_commit_fault = NoFault, w_failed = False, w_stats = empty_writer_stats\<rparr>"

text \<open>A call returns, or ends the process with an exit code.\<close>

datatype 'a call = Returns 'a | Exits nat

section \<open>Counters\<close>

definition bump_stats :: "(writer_stats \<Rightarrow> writer_stats) \<Rightarrow> writer \<Rightarrow> writer" where
  "bump_stats f w = w\<lparr>w_stats := f (w_stats w)\<rparr>"

definition record_failure :: "writer \<Rightarrow> writer" where
  "record_failure w = bump_stats (\<lambda>st. st\<lparr>ws_failures := ws_failures st + 1\<rparr>) (w\<lparr>w_failed := True\<rparr>)"

definition reset_measurement_counters :: "writer \<Rightarrow> writer" where
  "reset_measurement_counters w = w\<lparr>w_stats := empty_writer_stats\<rparr>"

section \<open>Writing and synchronising\<close>

function write_at_full :: "string \<Rightarrow> bytes \<Rightarrow> nat \<Rightarrow> bool \<Rightarrow> writer \<Rightarrow> os \<Rightarrow> bool \<times> writer \<times> os" where
  "write_at_full path data off count_main_write w s =
    (if data = [] then (True, w, s)
     else
     let w1 = (if count_main_write
               then bump_stats (\<lambda>st. st\<lparr>ws_write_calls := ws_write_calls st + 1\<rparr>) w else w) in
     case pwrite path data off s of (written, s1) \<Rightarrow>
     case next_elapsed s1 of (elapsed, s2) \<Rightarrow>
     let w2 = (if count_main_write
               then bump_stats (\<lambda>st. st\<lparr>ws_write_latency :=
                      observe_latency (unat elapsed) (ws_write_latency st)\<rparr>) w1 else w1) in
     (case written of
       Eintr \<Rightarrow> write_at_full path data off count_main_write w2 s2
     | Eother \<Rightarrow> (False, w2, s2)
     | Wrote n \<Rightarrow>
         if n = 0 then (False, w2, s2)
         else write_at_full path (drop n data) (off + n) count_main_write
           (if count_main_write
            then bump_stats (\<lambda>st. st\<lparr>ws_bytes_written := ws_bytes_written st + n\<rparr>) w2 else w2) s2))"
  by pat_completeness auto

lemma next_elapsed_script: "next_elapsed s = (e, s') \<Longrightarrow>
    os_script s' = os_script s \<and> os_files s' = os_files s \<and> os_synced s' = os_synced s"
  by (auto simp: next_elapsed_def split: list.splits)

lemma write_step_measure:
  assumes "(Wrote n, s1) = pwrite path data off s" and "(e, s2) = next_elapsed s1" and "data \<noteq> []" and "0 < n"
  shows "length data - n + length (os_script s2) < length data + length (os_script s)"
  using pwrite_measure [OF assms(1) [symmetric] assms(3)] next_elapsed_script [OF assms(2) [symmetric]] assms(4)
  by simp

lemma retry_step_measure:
  assumes "(Eintr, s1) = pwrite path data off s" and "(e, s2) = next_elapsed s1"
  shows "length (os_script s2) < length (os_script s)"
  using pwrite_eintr_measure [OF assms(1) [symmetric]] next_elapsed_script [OF assms(2) [symmetric]] by simp

termination write_at_full
  by (relation "measure (\<lambda>(_, data, _, _, _, s). length data + length (os_script s))")
    (auto dest: write_step_measure retry_step_measure)

declare write_at_full.simps [simp del]

definition sync_main_file :: "writer \<Rightarrow> os \<Rightarrow> bool \<times> writer \<times> os" where
  "sync_main_file w s =
    (let w1 = bump_stats (\<lambda>st. st\<lparr>ws_sync_calls := ws_sync_calls st + 1\<rparr>) w in
     case sync_file (w_path w) s of (ok, s1) \<Rightarrow>
     case next_elapsed s1 of (elapsed, s2) \<Rightarrow>
     let w2 = bump_stats (\<lambda>st. st\<lparr>ws_sync_latency :=
                observe_latency (unat elapsed) (ws_sync_latency st)\<rparr>) w1 in
     if \<not> ok then (False, record_failure w2, s2) else (True, w2, s2))"

definition ensure_preallocated :: "nat \<Rightarrow> writer \<Rightarrow> os \<Rightarrow> bool \<times> writer \<times> os" where
  "ensure_preallocated upcoming_bytes w s =
    (if wo_preallocation_chunk_bytes (w_options w) = 0 \<or> \<not> os_keep_size s then (True, w, s)
     else let required = w_logical_end w + upcoming_bytes in
     if required \<le> w_preallocated_end w then (True, w, s)
     else
     let chunk = wo_preallocation_chunk_bytes (w_options w);
         target = ((required + chunk - 1) div chunk) * chunk;
         w1 = bump_stats (\<lambda>st. st\<lparr>ws_preallocation_calls := ws_preallocation_calls st + 1\<rparr>) w in
     case succeeds s of (ok, s1) \<Rightarrow>
     if \<not> ok then (False, w1, s1) else (True, w1\<lparr>w_preallocated_end := target\<rparr>, s1))"

section \<open>Committing\<close>

definition next_slot_index :: "writer \<Rightarrow> nat" where
  "next_slot_index w = (w_active_checkpoint_slot w + 1) mod kCheckpointSlotCount"

definition next_slot :: "writer \<Rightarrow> persisted_checkpoint_slot" where
  "next_slot w = make_slot (w_checkpoint_generation w + 1) (w_recorder_start_time_us w)
     (word_of_nat (w_logical_end w)) (w_file_record_count w) (w_last_written_sequence w)"

definition commit_checkpoint :: "writer \<Rightarrow> os \<Rightarrow> bool call \<times> writer \<times> os" where
  "commit_checkpoint w s =
    (if w_checkpoint_generation w = - 1 then (Returns False, w, s)
     else
     let slot_index = next_slot_index w; slot = next_slot w;
         off = slot_index * sizeof_checkpoint_slot; fault = w_pending_commit_fault w in
     if fault = CrashAfterMainLogSync then (Exits 85, w, s)
     else if fault = CrashBeforeCheckpointWrite then (Exits 86, w, s)
     else if fault = CrashDuringCheckpointWrite then
       (let requested = (if fc_partial_write_bytes (w_fault_config w) = 0
              then sizeof_checkpoint_slot div 2 else fc_partial_write_bytes (w_fault_config w));
            partial_size = min (sizeof_checkpoint_slot - 1) requested in
        case pwrite (w_journal_path w) (take partial_size (enc_checkpoint_slot slot)) off s of
          (_, s1) \<Rightarrow> (Exits 87, w, s1))
     else case write_at_full (w_journal_path w) (enc_checkpoint_slot slot) off False w s of
       (ok1, w1, s1) \<Rightarrow>
     if \<not> ok1 then (Returns False, w1, s1)
     else case truncate_file (w_journal_path w) kCheckpointJournalSize s1 of (ok2, s2) \<Rightarrow>
     if \<not> ok2 then (Returns False, w1, s2)
     else
     let w2 = bump_stats (\<lambda>st. st\<lparr>ws_checkpoint_writes := ws_checkpoint_writes st + 1\<rparr>) w1 in
     if fault = CrashAfterCheckpointWrite then (Exits 88, w2, s2)
     else if fault = CrashBeforeJournalSync then (Exits 89, w2, s2)
     else
     let w3 = bump_stats (\<lambda>st. st\<lparr>ws_journal_sync_calls := ws_journal_sync_calls st + 1\<rparr>) w2 in
     case sync_file (w_journal_path w) s2 of (ok3, s3) \<Rightarrow>
     if \<not> ok3 then (Returns False, w3, s3)
     else
       (Returns True,
        bump_stats (\<lambda>st. st\<lparr>ws_records_committed := ws_records_written st, ws_commits := ws_commits st + 1\<rparr>)
          (w3\<lparr>w_checkpoint_generation := ck_generation slot, w_active_checkpoint_slot := slot_index\<rparr>), s3))"

text \<open>The acknowledgement the crash tests read: the last committed sequence, written and synchronised.\<close>

definition acknowledge :: "string \<Rightarrow> u64 \<Rightarrow> os \<Rightarrow> nat \<times> os" where
  "acknowledge ack acknowledged s =
    (case pwrite ack (le 8 acknowledged) 0 s of (written, s1) \<Rightarrow>
     if written \<noteq> Wrote 8 then (93, s1)
     else case sync_file ack s1 of (ok, s2) \<Rightarrow> if \<not> ok then (93, s2) else (90, s2))"

definition flush :: "writer \<Rightarrow> os \<Rightarrow> bool call \<times> writer \<times> os" where
  "flush w s =
    (if \<not> w_fd_open w \<or> w_failed w then (Returns False, record_failure w, s)
     else if w_unsynced_batches w = 0 then (Returns True, w, s)
     else if w_pending_commit_fault w = CrashBeforeMainLogSync then (Exits 84, w, s)
     else case sync_main_file w s of (ok1, w1, s1) \<Rightarrow>
     if \<not> ok1 then (Returns False, record_failure w1, s1)
     else case commit_checkpoint w1 s1 of (result, w2, s2) \<Rightarrow>
     (case result of
       Exits code \<Rightarrow> (Exits code, w2, s2)
     | Returns ok2 \<Rightarrow>
     if \<not> ok2 then (Returns False, record_failure w2, s2)
     else if w_pending_commit_fault w2 = CrashAfterJournalSync then
       (case fc_acknowledgement_fd (w_fault_config w2) of
          None \<Rightarrow> (Exits 90, w2, s2)
        | Some ack \<Rightarrow> (case acknowledge ack (w_last_written_sequence w2) s2 of
            (code, s3) \<Rightarrow> (Exits code, w2, s3)))
     else
       (Returns True,
        (if w_pending_commit_fault w2 \<noteq> NoFault then w2\<lparr>w_fault_injected := True\<rparr> else w2)
          \<lparr>w_pending_commit_fault := NoFault, w_unsynced_batches := 0\<rparr>, s2)))"

definition close :: "writer \<Rightarrow> os \<Rightarrow> unit call \<times> writer \<times> os" where
  "close w s =
    (case (if w_fd_open w \<and> w_unsynced_batches w \<noteq> 0 \<and> \<not> w_failed w then flush w s
           else (Returns True, w, s)) of (result, w1, s1) \<Rightarrow>
     (case result of
       Exits code \<Rightarrow> (Exits code, w1, s1)
     | Returns _ \<Rightarrow> (Returns (), w1\<lparr>w_journal_fd_open := False, w_fd_open := False\<rparr>, s1)))"

section \<open>Opening\<close>

definition allocate_serialization_buffer :: "writer \<Rightarrow> os \<Rightarrow> bool \<times> writer \<times> os" where
  "allocate_serialization_buffer w s =
    (let capacity = wo_batch_capacity_records (w_options w);
         alignment = wo_serialization_buffer_alignment (w_options w) in
     if w_serialization_buffer w then (True, w, s)
     else if capacity = 0 \<or> alignment < 8 \<or> alignment AND (alignment - 1) \<noteq> 0 \<or>
         (2 ^ 64 - 1) div kPersistedRecordSize < capacity then (False, record_failure w, s)
     else case succeeds s of (ok, s1) \<Rightarrow>
     if \<not> ok then (False, record_failure w, s1)
     else (True, w\<lparr>w_serialization_buffer := True\<rparr>, s1))"

text \<open>\<open>find_last_of\<close> the separator, and what is before it.\<close>

definition parent_directory :: "string \<Rightarrow> string" where
  "parent_directory path =
    (if CHR ''/'' \<notin> set path then ''.''
     else let directory = rev (tl (dropWhile (\<lambda>c. c \<noteq> CHR ''/'') (rev path))) in
       if directory = [] then ''/'' else directory)"

definition sync_parent_directory :: "string \<Rightarrow> os \<Rightarrow> bool \<times> os" where
  "sync_parent_directory path s = sync_directory (parent_directory path) s"

definition write_file_header :: "writer \<Rightarrow> os \<Rightarrow> bool \<times> writer \<times> os" where
  "write_file_header w s =
    (case write_at_full (w_path w) (enc_file_header (new_file_header (w_recorder_start_time_us w))) 0 False w s of
       (ok, w1, s1) \<Rightarrow>
     if \<not> ok then (False, record_failure w1, s1)
     else (True, w1\<lparr>w_logical_end := sizeof_file_header\<rparr>, s1))"

definition open_journal :: "writer \<Rightarrow> os \<Rightarrow> bool \<times> writer \<times> os" where
  "open_journal w s =
    (if w_journal_fd_open w then (True, w, s)
     else case open_create (w_journal_path w) s of (ok, s1) \<Rightarrow> (ok, w\<lparr>w_journal_fd_open := ok\<rparr>, s1))"

definition slot_current :: "writer \<Rightarrow> persisted_checkpoint_slot \<Rightarrow> bool" where
  "slot_current w slot \<longleftrightarrow>
     checkpoint_metadata_valid slot \<and>
     ck_recorder_start_time_us slot = w_recorder_start_time_us w \<and>
     sizeof_file_header \<le> unat (ck_committed_length slot) \<and>
     ck_committed_length slot = word_of_nat (w_logical_end w) \<and>
     ck_record_count slot =
       (ck_committed_length slot - word_of_nat sizeof_file_header) div word_of_nat kPersistedRecordSize"

primrec select_slot :: "writer \<Rightarrow> (nat \<times> persisted_checkpoint_slot) list \<Rightarrow>
    (nat \<times> persisted_checkpoint_slot) option \<Rightarrow> (nat \<times> persisted_checkpoint_slot) option" where
  "select_slot w [] selected = selected"
| "select_slot w (indexed # slots) selected =
     select_slot w slots
       (if slot_current w (snd indexed) \<and>
           (case selected of None \<Rightarrow> True
            | Some chosen \<Rightarrow> ck_generation (snd chosen) < ck_generation (snd indexed))
        then Some indexed else selected)"

definition initialize_checkpoint :: "writer \<Rightarrow> os \<Rightarrow> bool call \<times> writer \<times> os" where
  "initialize_checkpoint w s =
    (let count = (w_logical_end w - sizeof_file_header) div kPersistedRecordSize;
         w1 = w\<lparr>w_file_record_count := word_of_nat count\<rparr>;
         fresh = (\<lambda>w. w\<lparr>w_checkpoint_generation := 0, w_active_checkpoint_slot := 1\<rparr>) in
     if w_file_record_count w1 \<noteq> 0 then
       (case pread (w_path w) sizeof_record_header (w_logical_end w - kPersistedRecordSize) s of
          (None, s1) \<Rightarrow> (Returns False, w1, s1)
        | (Some bs, s1) \<Rightarrow>
            if length bs \<noteq> sizeof_record_header then (Returns False, w1, s1)
            else commit_checkpoint (fresh (w1\<lparr>w_last_written_sequence := rh_sequence (dec_record_header bs)\<rparr>)) s1)
     else commit_checkpoint (fresh w1) s)"

definition load_checkpoint :: "writer \<Rightarrow> os \<Rightarrow> bool call \<times> writer \<times> os" where
  "load_checkpoint w s =
    (case pread (w_journal_path w) kCheckpointJournalSize 0 s of
       (None, s1) \<Rightarrow> (Returns False, w, s1)
     | (Some bs, s1) \<Rightarrow>
         if length bs \<noteq> kCheckpointJournalSize then (Returns False, w, s1)
         else (case select_slot w (zip [0..<kCheckpointSlotCount] (dec_slots bs)) None of
           None \<Rightarrow> (Returns False, w, s1)
         | Some (index, selected) \<Rightarrow>
             (Returns True,
              w\<lparr>w_active_checkpoint_slot := index, w_checkpoint_generation := ck_generation selected,
                w_file_record_count := ck_record_count selected,
                w_last_written_sequence := ck_last_sequence selected\<rparr>, s1)))"

definition load_or_initialize_checkpoint :: "writer \<Rightarrow> os \<Rightarrow> bool call \<times> writer \<times> os" where
  "load_or_initialize_checkpoint w s =
    (case succeeds s of (ok, s1) \<Rightarrow>
     if \<not> ok then (Returns False, w, s1)
     else if stat_size (w_journal_path w) s1 = 0 then initialize_checkpoint w s1
     else if stat_size (w_journal_path w) s1 \<noteq> kCheckpointJournalSize then (Returns False, w, s1)
     else load_checkpoint w s1)"

text \<open>Every failure after the log is open closes it again.\<close>

definition abandon :: "writer \<Rightarrow> os \<Rightarrow> bool call \<times> writer \<times> os" where
  "abandon w s = (case close w s of (result, w1, s1) \<Rightarrow>
     (case result of Exits code \<Rightarrow> (Exits code, w1, s1) | Returns _ \<Rightarrow> (Returns False, w1, s1)))"

definition start_new_log :: "writer \<Rightarrow> os \<Rightarrow> bool \<times> writer \<times> os" where
  "start_new_log w s =
    (case write_file_header (w\<lparr>w_recorder_start_time_us := os_now s\<rparr>) s of (ok, w1, s1) \<Rightarrow>
     if \<not> ok then (False, w1, s1) else sync_main_file w1 s1)"

definition read_log_header :: "writer \<Rightarrow> os \<Rightarrow> bool \<times> writer \<times> os" where
  "read_log_header w s =
    (case pread (w_path w) sizeof_file_header 0 s of (data, s1) \<Rightarrow>
     (case data of
        None \<Rightarrow> (False, record_failure w, s1)
      | Some bs \<Rightarrow>
          let header = dec_file_header bs in
          if length bs \<noteq> sizeof_file_header \<or> fh_magic header \<noteq> kLogFileMagic \<or>
             fh_version header \<noteq> kLogFormatVersion \<or>
             compute_file_header_crc header \<noteq> fh_header_crc32 header \<or>
             (w_logical_end w - sizeof_file_header) mod kPersistedRecordSize \<noteq> 0
          then (False, record_failure w, s1)
          else (True, w\<lparr>w_recorder_start_time_us := fh_recorder_start_time_us header\<rparr>, s1)))"

definition open_checkpoint :: "bool \<Rightarrow> writer \<Rightarrow> os \<Rightarrow> bool call \<times> writer \<times> os" where
  "open_checkpoint both_existed w s =
    (case open_journal w s of (ok1, w1, s1) \<Rightarrow>
     if \<not> ok1 then abandon (record_failure w1) s1
     else case load_or_initialize_checkpoint w1 s1 of (result, w2, s2) \<Rightarrow>
     (case result of
        Exits code \<Rightarrow> (Exits code, w2, s2)
      | Returns ok2 \<Rightarrow>
     if \<not> ok2 then abandon (record_failure w2) s2
     else if both_existed then (Returns True, w2, s2)
     else case sync_parent_directory (w_path w2) s2 of (ok3, s3) \<Rightarrow>
     if \<not> ok3 then abandon (record_failure w2) s3
     else (Returns True, w2, s3)))"

definition open_writer :: "writer \<Rightarrow> os \<Rightarrow> bool call \<times> writer \<times> os" where
  "open_writer w s =
    (if w_fd_open w then (Returns True, w, s)
     else case (if w_path w = [] \<or> wo_sync_every_batches (w_options w) = 0 then (False, w, s)
                else allocate_serialization_buffer w s) of (ok0, w0, s0) \<Rightarrow>
     if \<not> ok0 then (Returns False, record_failure w0, s0)
     else
     let both_existed = (path_exists (w_path w0) s0 \<and> path_exists (w_journal_path w0) s0) in
     case open_create (w_path w0) s0 of (ok1, s1) \<Rightarrow>
     if \<not> ok1 then (Returns False, record_failure w0, s1)
     else let w1 = w0\<lparr>w_fd_open := True\<rparr> in
     case succeeds s1 of (ok2, s2) \<Rightarrow>
     if \<not> ok2 then abandon (record_failure w1) s2
     else
     let size = stat_size (w_path w1) s2;
         w2 = w1\<lparr>w_logical_end := size, w_preallocated_end := size\<rparr> in
     case (if size = 0 then start_new_log w2 s2 else read_log_header w2 s2) of (ok3, w3, s3) \<Rightarrow>
     if \<not> ok3 then abandon w3 s3
     else open_checkpoint both_existed w3 s3)"

section \<open>Appending\<close>

fun consecutive :: "sequenced_record list \<Rightarrow> bool" where
  "consecutive (a # b # rs) \<longleftrightarrow> sq_sequence b = sq_sequence a + 1 \<and> consecutive (b # rs)"
| "consecutive _ \<longleftrightarrow> True"

definition batch_frames :: "sequenced_record list \<Rightarrow> log_frame list" where
  "batch_frames records = map (\<lambda>input. make_frame (sq_record input) (sq_sequence input)) records"

definition serialize_batch :: "sequenced_record list \<Rightarrow> bytes" where
  "serialize_batch records = enc_frames (batch_frames records)"

definition fault_armed :: "sequenced_record list \<Rightarrow> writer \<Rightarrow> bool" where
  "fault_armed records w \<longleftrightarrow> \<not> w_fault_injected w \<and> fc_mode (w_fault_config w) \<noteq> NoFault \<and>
     sq_sequence (hd records) \<le> fc_trigger_sequence (w_fault_config w) \<and>
     fc_trigger_sequence (w_fault_config w) \<le> sq_sequence (last records)"

definition batch_written :: "sequenced_record list \<Rightarrow> writer \<Rightarrow> writer" where
  "batch_written records w =
    (bump_stats (\<lambda>st. st\<lparr>ws_records_written := ws_records_written st + length records,
         ws_batches_written := ws_batches_written st + 1\<rparr>) w)
      \<lparr>w_logical_end := w_logical_end w + length records * kPersistedRecordSize,
       w_file_record_count := w_file_record_count w + word_of_nat (length records),
       w_last_written_sequence := sq_sequence (last records),
       w_unsynced_batches := w_unsynced_batches w + 1\<rparr>"

text \<open>After the batch is in the file: the armed faults, then the periodic commit.\<close>

definition after_batch :: "bool \<Rightarrow> writer \<Rightarrow> os \<Rightarrow> bool call \<times> writer \<times> os" where
  "after_batch armed w s =
    (let mode = fc_mode (w_fault_config w) in
     if armed \<and> mode = CrashAfterMainLogWrite then (Exits 83, w\<lparr>w_fault_injected := True\<rparr>, s)
     else if armed \<and> mode = DropCommit then
       (Returns False, record_failure (w\<lparr>w_fault_injected := True\<rparr>), s)
     else
     let w1 = (if armed then w\<lparr>w_pending_commit_fault := mode\<rparr> else w) in
     if wo_sync_every_batches (w_options w1) \<le> w_unsynced_batches w1 then flush w1 s
     else (Returns True, w1, s))"

definition write_batch :: "sequenced_record list \<Rightarrow> writer \<Rightarrow> os \<Rightarrow> bool call \<times> writer \<times> os" where
  "write_batch records w s =
    (let buffer = serialize_batch records; armed = fault_armed records w;
         mode = fc_mode (w_fault_config w) in
     if armed \<and> mode = CrashBeforeMainLogWrite then (Exits 81, w\<lparr>w_fault_injected := True\<rparr>, s)
     else
     let batch_bytes = length records * kPersistedRecordSize in
     case ensure_preallocated batch_bytes w s of (ok1, w1, s1) \<Rightarrow>
     if \<not> ok1 then (Returns False, record_failure w1, s1)
     else if armed \<and> mode = CrashDuringMainLogWrite then
       (let requested = (if fc_partial_write_bytes (w_fault_config w) = 0 then batch_bytes div 2
                         else fc_partial_write_bytes (w_fault_config w));
            partial_size = min (batch_bytes - 1) requested in
        case write_at_full (w_path w1) (take partial_size buffer) (w_logical_end w1) True
               (w1\<lparr>w_fault_injected := True\<rparr>) s1 of (_, w2, s2) \<Rightarrow>
        case sync_main_file w2 s2 of (_, w3, s3) \<Rightarrow> (Exits 92, w3, s3))
     else case write_at_full (w_path w1) buffer (w_logical_end w1) True w1 s1 of (ok2, w2, s2) \<Rightarrow>
     if \<not> ok2 then (Returns False, record_failure w2, s2)
     else after_batch armed (batch_written records w2) s2)"

definition append_batch :: "sequenced_record list \<Rightarrow> writer \<Rightarrow> os \<Rightarrow> bool call \<times> writer \<times> os" where
  "append_batch records w s =
    (if records = [] \<or> wo_batch_capacity_records (w_options w) < length records
     then (Returns False, record_failure w, s)
     else case open_writer w s of (result, w1, s1) \<Rightarrow>
     (case result of
        Exits code \<Rightarrow> (Exits code, w1, s1)
      | Returns opened \<Rightarrow>
     if \<not> opened then (Returns False, w1, s1)
     else if \<not> consecutive records then (Returns False, record_failure w1, s1)
     else if w_file_record_count w1 \<noteq> 0 \<and> sq_sequence (hd records) \<noteq> w_last_written_sequence w1 + 1
       then (Returns False, record_failure w1, s1)
     else write_batch records w1 s1))"

definition append :: "flight_record \<Rightarrow> u64 \<Rightarrow> writer \<Rightarrow> os \<Rightarrow> bool call \<times> writer \<times> os" where
  "append record sequence w s = append_batch [\<lparr>sq_record = record, sq_sequence = sequence\<rparr>] w s"

end
