(* ===== verification/Reopen.thy ===== *)
theory Reopen
  imports Writer
begin

text \<open>
  Opening a log that a session has left: what \<open>open_writer\<close> does up to the checkpoint, and that it
  succeeds whenever a slot of the journal commits the whole log.
\<close>

section \<open>Slots and options\<close>

definition slot_at :: "nat \<Rightarrow> bytes \<Rightarrow> bytes" where
  "slot_at i j = take 52 (drop (i * 52) j)"

lemma dec_slots_at: "dec_slots j = [dec_checkpoint_slot (slot_at 0 j), dec_checkpoint_slot (slot_at 1 j)]"
  by (simp add: dec_slots_def slot_at_def)

lemma unat_of_nat_len: "n < 2 ^ 64 \<Longrightarrow> unat (word_of_nat n :: u64) = n"
  by (simp add: unat_of_nat)

text \<open>Options with which the buffer can be allocated.\<close>

definition options_ok :: "writer_options \<Rightarrow> bool" where
  "options_ok o1 \<longleftrightarrow> 0 < wo_batch_capacity_records o1 \<and>
     wo_batch_capacity_records o1 \<le> (2 ^ 64 - 1) div kPersistedRecordSize \<and>
     8 \<le> wo_serialization_buffer_alignment o1 \<and>
     wo_serialization_buffer_alignment o1 AND (wo_serialization_buffer_alignment o1 - 1) = 0 \<and>
     wo_sync_every_batches o1 \<noteq> 0"

section \<open>Up to the checkpoint\<close>

definition before_checkpoint :: "persisted_file_header \<Rightarrow> log_frame list \<Rightarrow> writer \<Rightarrow> writer" where
  "before_checkpoint h fs w = w\<lparr>w_serialization_buffer := True, w_fd_open := True, w_logical_end := 24 + 84 * length fs,
     w_preallocated_end := 24 + 84 * length fs, w_recorder_start_time_us := fh_recorder_start_time_us h,
     w_journal_fd_open := True\<rparr>"

lemma open_with_checkpoint:
  assumes s: "os_script s = []" and log: "os_files s path = Some (enc_file_header h @ enc_frames fs)"
    and h: "file_header_ok h" and j: "os_files s (journal_path_for_log path) \<noteq> None"
    and path: "path \<noteq> []" and opt: "options_ok options"
    and w_def: "w = make_writer path faults options"
    and load: "load_or_initialize_checkpoint (before_checkpoint h fs w) s = (Returns True, w', s)"
  shows "open_writer w s = (Returns True, w', s)"
proof -
  let ?w0 = "w\<lparr>w_serialization_buffer := True\<rparr>"
  let ?w2 = "?w0\<lparr>w_fd_open := True, w_logical_end := 24 + 84 * length fs, w_preallocated_end := 24 + 84 * length fs\<rparr>"
  let ?w3 = "?w2\<lparr>w_recorder_start_time_us := fh_recorder_start_time_us h\<rparr>"
  have w: "w_path w = path" "w_journal_path w = journal_path_for_log path" "w_options w = options" "\<not> w_fd_open w"
    "\<not> w_serialization_buffer w" "\<not> w_journal_fd_open w"
    by (simp_all add: w_def make_writer_def)
  have ex: "path_exists path s" "path_exists (journal_path_for_log path) s" using log j by (simp_all add: path_exists_def)
  have size: "stat_size path s = 24 + 84 * length fs" by (simp add: stat_size_def file_bytes_some [OF log] codec_simps)
  have alloc: "allocate_serialization_buffer w s = (True, ?w0, s)"
    using s opt w by (auto simp: allocate_serialization_buffer_def options_ok_def Let_def os_simps)
  have hdr: "read_log_header ?w2 s = (True, ?w3, s)"
    using s h w file_bytes_some [OF log]
    by (simp add: read_log_header_def os_simps codec_simps file_header_ok_def file_metadata_ok_def Let_def)
  have w4: "before_checkpoint h fs w = ?w3\<lparr>w_journal_fd_open := True\<rparr>" by (simp add: before_checkpoint_def)
  have oj: "open_journal ?w3 s = (True, ?w3\<lparr>w_journal_fd_open := True\<rparr>, s)"
    using s w ex by (simp add: open_journal_def os_simps)
  show ?thesis
    using s opt path alloc w ex size hdr oj load [unfolded w4]
    by (simp add: open_writer_def options_ok_def Let_def os_simps open_checkpoint_def)
qed

section \<open>With a slot that commits the log\<close>

lemma slot_current_commits:
  assumes "slot_commits h fs slot" and "w_recorder_start_time_us w = fh_recorder_start_time_us h"
    and "w_logical_end w = 24 + 84 * length fs" and "24 + 84 * length fs < 2 ^ 64"
  shows "slot_current w slot"
proof -
  have c: "unat (ck_committed_length slot) = 24 + 84 * unat (ck_record_count slot)"
    using assms(1) by (simp add: slot_commits_def)
  then have shape: "ck_record_count slot = (ck_committed_length slot - 24) div 84"
    using committed_shape [of "ck_committed_length slot" "ck_record_count slot"] by simp
  have "ck_committed_length slot = word_of_nat (w_logical_end w)"
    using assms(1,3,4) unat_of_nat_len [OF assms(4)] by (simp only: slot_commits_def word_unat_eq_iff)
  then show ?thesis
    using assms(1,2) c shape by (simp add: slot_current_def slot_commits_def)
qed

definition opens_again :: "string \<Rightarrow> os \<Rightarrow> bool" where
  "opens_again path s \<longleftrightarrow> (\<forall>faults options. path \<noteq> [] \<longrightarrow> options_ok options \<longrightarrow>
     (\<exists>w. open_writer (make_writer path faults options) s = (Returns True, w, s)))"

lemma load_current_slot:
  assumes s: "os_script s = []" and j: "os_files s (w_journal_path w) = Some j" "length j = 104"
    and i: "i < 2" and cur: "slot_current w (dec_checkpoint_slot (slot_at i j))"
  shows "\<exists>w'. load_or_initialize_checkpoint w s = (Returns True, w', s)"
proof -
  have "i = 0 \<or> i = 1" using i by auto
  then have "select_slot w (zip [0..<kCheckpointSlotCount] (dec_slots j)) None \<noteq> None"
    using cur by (auto simp: dec_slots_at upt_rec split: if_splits option.splits)
  then obtain k slot where "select_slot w (zip [0..<kCheckpointSlotCount] (dec_slots j)) None = Some (k, slot)"
    by auto
  then show ?thesis
    using s j by (auto simp: load_or_initialize_checkpoint_def load_checkpoint_def os_simps stat_size_def file_bytes_some)
qed

lemma committed_opens:
  assumes s: "os_script s = []" and log: "os_files s path = Some (enc_file_header h @ enc_frames fs)" and h: "file_header_ok h"
    and j: "os_files s (journal_path_for_log path) = Some j" "length j = 104"
    and i: "i < 2" and commits: "slot_commits h fs (dec_checkpoint_slot (slot_at i j))"
  shows "opens_again path s"
  unfolding opens_again_def
proof (intro allI impI)
  fix faults options
  assume path: "path \<noteq> []" and opt: "options_ok options"
  let ?w = "before_checkpoint h fs (make_writer path faults options)" and ?slot = "dec_checkpoint_slot (slot_at i j)"
  have "unat (ck_committed_length ?slot) < 2 ^ LENGTH(64)" by (rule unsigned_less)
  then have len: "24 + 84 * length fs < 2 ^ 64" using commits by (simp add: slot_commits_def)
  have w: "w_journal_path ?w = journal_path_for_log path" by (simp add: before_checkpoint_def make_writer_def)
  have "slot_current ?w ?slot" by (rule slot_current_commits [OF commits _ _ len]) (simp_all add: before_checkpoint_def)
  with load_current_slot [OF s, of ?w j i] j i obtain w' where
    "load_or_initialize_checkpoint ?w s = (Returns True, w', s)" unfolding w by blast
  from open_with_checkpoint [OF s log h _ path opt refl this] j(1)
  show "\<exists>w. open_writer (make_writer path faults options) s = (Returns True, w, s)" by auto
qed

end
