(* ===== verification/Durability.thy ===== *)
theory Durability
  imports Reopen
begin

text \<open>
  What the writer and the recovery promise together. First the effect of each writer operation on
  the disk under every script of outcomes, down to the prefix an interrupted write leaves; then
  torn checkpoint slots; then the invariant of a running writer and the crash safety of a flush,
  of a batch and of a whole run, stated by what \<open>recover_startup_state\<close> makes of the disk that is
  left; last, that the operations succeed when the system does not fail.
\<close>

section \<open>What a write leaves behind\<close>

text \<open>Everything a call of the file system may change besides the file \<open>p\<close> is unchanged.\<close>

definition only_file :: "string \<Rightarrow> os \<Rightarrow> os \<Rightarrow> bool" where
  "only_file p s s' \<longleftrightarrow> (\<forall>q. q \<noteq> p \<longrightarrow> os_files s' q = os_files s q) \<and>
     os_synced s' = os_synced s \<and> os_keep_size s' = os_keep_size s \<and> os_now s' = os_now s"

lemma only_file_refl [simp]: "only_file p s s"
  by (simp add: only_file_def)

lemma only_file_trans: "only_file p s s1 \<Longrightarrow> only_file p s1 s2 \<Longrightarrow> only_file p s s2"
  by (simp add: only_file_def)

lemma only_file_set [simp]: "only_file p s (set_file p c s)"
  by (simp add: only_file_def set_file_def)

lemma next_outcome_only: "next_outcome s = (r, s') \<Longrightarrow> os_files s' = os_files s \<and> only_file p s s'"
  by (auto simp: next_outcome_def only_file_def split: list.splits)

lemma next_elapsed_only: "next_elapsed s = (e, s') \<Longrightarrow> os_files s' = os_files s \<and> only_file p s s'"
  by (auto simp: next_elapsed_def only_file_def split: list.splits)

lemma succeeds_only: "succeeds s = (ok, s') \<Longrightarrow> os_files s' = os_files s \<and> only_file p s s'"
  by (auto simp: succeeds_def split: prod.splits dest: next_outcome_only)

text \<open>\<open>wrote p off k data s s'\<close>: the first \<open>k\<close> bytes of \<open>data\<close> are at \<open>off\<close>, nothing else changed.\<close>

definition wrote :: "string \<Rightarrow> nat \<Rightarrow> nat \<Rightarrow> bytes \<Rightarrow> os \<Rightarrow> os \<Rightarrow> bool" where
  "wrote p off k data s s' \<longleftrightarrow> k \<le> length data \<and>
     (\<exists>c. os_files s p = Some c \<and> os_files s' p = Some (overwrite c off (take k data))) \<and> only_file p s s'"

lemma wrote_nothing: "os_files s p = Some c \<Longrightarrow> off \<le> length c \<Longrightarrow>
    os_files s' = os_files s \<Longrightarrow> only_file p s s' \<Longrightarrow> wrote p off 0 data s s'"
  by (simp add: wrote_def)

lemma wrote_trans:
  assumes "wrote p off n data s s1" and "wrote p (off + n) k (drop n data) s1 s2"
  shows "wrote p off (n + k) data s s2"
proof -
  from assms(1) obtain c where c: "os_files s p = Some c" "os_files s1 p = Some (overwrite c off (take n data))"
    "n \<le> length data" "only_file p s s1"
    by (auto simp: wrote_def)
  from assms(2) have d: "os_files s2 p = Some (overwrite (overwrite c off (take n data)) (off + n) (take k (drop n data)))"
    "k \<le> length data - n" "only_file p s1 s2"
    by (auto simp: wrote_def c)
  have "length (take n data) = n" using c(3) by simp
  then have "os_files s2 p = Some (overwrite c off (take (n + k) data))"
    unfolding d(1) using overwrite_overwrite [of c off "take n data" "take k (drop n data)"]
    by (simp add: take_add)
  with c d show ?thesis by (auto simp: wrote_def intro: only_file_trans)
qed

lemma pwrite_wrote:
  assumes "pwrite p data off s = (r, s')" and "os_files s p = Some c" and "off \<le> length c"
  shows "wrote p off (case r of Wrote n \<Rightarrow> n | _ \<Rightarrow> 0) data s s'"
proof -
  obtain o1 s1 where o: "next_outcome s = (o1, s1)" by force
  note same = next_outcome_only [OF o, of p]
  have cut: "take (min n (length data)) data = take n data" for n by (simp add: min_def)
  have fb: "file_bytes p s1 = c" "file_bytes p s = c" using assms(2) same by (simp_all add: file_bytes_def)
  show ?thesis
    using assms same fb
    by (cases o1) (auto simp: pwrite_def o wrote_def cut only_file_def set_file_def)
qed

lemma wrote_file: "wrote p off k data s s' \<Longrightarrow> \<exists>c. os_files s' p = Some c \<and> off + k \<le> length c"
  by (auto simp: wrote_def length_overwrite)

lemma wrote_same_files:
  "wrote p off k data s s1 \<Longrightarrow> os_files s2 = os_files s1 \<Longrightarrow> only_file p s1 s2 \<Longrightarrow> wrote p off k data s s2"
  by (auto simp: wrote_def intro: only_file_trans)

lemma bump_stats_shape: "\<exists>st. bump_stats f w = w\<lparr>w_stats := st\<rparr>"
  by (auto simp: bump_stats_def)

definition stats_only :: "writer \<Rightarrow> writer \<Rightarrow> bool" where
  "stats_only w w' \<longleftrightarrow> w' = w\<lparr>w_stats := w_stats w'\<rparr>"

lemma stats_only_refl [simp]: "stats_only w w"
  by (simp add: stats_only_def)

lemma stats_only_bump [simp]: "stats_only w (bump_stats f w)"
  by (simp add: stats_only_def bump_stats_def)

lemma stats_only_trans: "stats_only w w1 \<Longrightarrow> stats_only w1 w2 \<Longrightarrow> stats_only w w2"
  by (cases w) (cases w1, cases w2, simp add: stats_only_def)

lemma stats_only_bumped: "stats_only w w1 \<Longrightarrow> stats_only w (bump_stats f w1)"
  by (rule stats_only_trans [OF _ stats_only_bump])

lemma write_at_full_wrote:
  assumes "write_at_full p data off c w s = (ok, w', s')" and "os_files s p = Some b" and "off \<le> length b"
  shows "(\<exists>k. wrote p off k data s s' \<and> (ok \<longrightarrow> k = length data)) \<and> stats_only w w'"
  using assms
proof (induction p data off c w s arbitrary: b ok w' s' rule: write_at_full.induct)
  case (1 p data off c w s)
  let ?w1 = "if c then bump_stats (\<lambda>st. st\<lparr>ws_write_calls := ws_write_calls st + 1\<rparr>) w else w"
  obtain r s1 where pw: "pwrite p data off s = (r, s1)" by force
  obtain e s2 where el: "next_elapsed s1 = (e, s2)" by force
  let ?w2 = "if c then bump_stats (\<lambda>st. st\<lparr>ws_write_latency :=
      observe_latency (unat e) (ws_write_latency st)\<rparr>) ?w1 else ?w1"
  have w2: "stats_only w ?w2" by (simp add: stats_only_def bump_stats_def)
  have step: "wrote p off (case r of Wrote n \<Rightarrow> n | _ \<Rightarrow> 0) data s s2"
    using pwrite_wrote [OF pw "1.prems"(2,3)] next_elapsed_only [OF el, of p] wrote_same_files by blast
  show ?case
  proof (cases "data = []")
    case True
    then show ?thesis using "1.prems"
      by (simp add: write_at_full.simps wrote_nothing)
  next
    case False
    from wrote_file [OF step] obtain b2 where b2: "os_files s2 p = Some b2"
      "off + (case r of Wrote n \<Rightarrow> n | _ \<Rightarrow> 0) \<le> length b2" by blast
    show ?thesis
    proof (cases r)
      case (Wrote n)
      let ?w3 = "if c then bump_stats (\<lambda>st. st\<lparr>ws_bytes_written := ws_bytes_written st + n\<rparr>) ?w2 else ?w2"
      show ?thesis
      proof (cases "n = 0")
        case True
        then have "(ok, w', s') = (False, ?w2, s2)"
          using "1.prems"(1) False by (subst (asm) write_at_full.simps) (simp add: pw el Wrote Let_def)
        with step w2 Wrote True show ?thesis by auto
      next
        case n: False
        then have rec: "write_at_full p (drop n data) (off + n) c ?w3 s2 = (ok, w', s')"
          using "1.prems"(1) False by (subst (asm) write_at_full.simps) (simp add: pw el Wrote Let_def)
        from "1.IH"(1) [OF False refl pw [symmetric] el [symmetric] refl Wrote n rec b2(1)]
        obtain k where k: "wrote p (off + n) k (drop n data) s2 s'" "ok \<longrightarrow> k = length (drop n data)"
          and st: "stats_only ?w3 w'"
          using b2(2) Wrote by auto
        from wrote_trans [of p off n data s s2 k s'] step k(1) Wrote
        have "wrote p off (n + k) data s s'" by simp
        moreover have "n \<le> length data" using step Wrote by (simp add: wrote_def)
        moreover have "stats_only w ?w3" using w2 by (simp add: stats_only_bumped)
        then have "stats_only w w'" using st by (rule stats_only_trans)
        ultimately show ?thesis using k(2) by (intro conjI exI [of _ "n + k"]) auto
      qed
    next
      case Eintr
      then have rec: "write_at_full p data off c ?w2 s2 = (ok, w', s')"
        using "1.prems"(1) False by (subst (asm) write_at_full.simps) (simp add: pw el Let_def)
      from "1.IH"(2) [OF False refl pw [symmetric] el [symmetric] refl Eintr rec b2(1)]
      obtain k where k: "wrote p off k data s2 s'" "ok \<longrightarrow> k = length data" "stats_only ?w2 w'"
        using b2(2) Eintr by auto
      have "wrote p off (0 + k) data s s'"
        by (rule wrote_trans) (use step Eintr k(1) in simp_all)
      with k w2 show ?thesis by (auto intro: stats_only_trans)
    next
      case Eother
      then have "(ok, w', s') = (False, ?w2, s2)"
        using "1.prems"(1) False by (subst (asm) write_at_full.simps) (simp add: pw el Let_def)
      with step w2 Eother show ?thesis by auto
    qed
  qed
qed

lemma write_at_full_done:
  assumes "write_at_full p data off c w s = (True, w', s')" and "os_files s p = Some b" and "off \<le> length b"
  shows "wrote p off (length data) data s s'" and "stats_only w w'"
  using write_at_full_wrote [OF assms] by auto

definition same_disk :: "os \<Rightarrow> os \<Rightarrow> bool" where
  "same_disk s s' \<longleftrightarrow> os_files s' = os_files s \<and> os_synced s' = os_synced s \<and>
     os_keep_size s' = os_keep_size s \<and> os_now s' = os_now s"

lemma same_disk_refl [simp]: "same_disk s s"
  by (simp add: same_disk_def)

lemma same_disk_trans: "same_disk s s1 \<Longrightarrow> same_disk s1 s2 \<Longrightarrow> same_disk s s2"
  by (simp add: same_disk_def)

lemma next_elapsed_disk: "next_elapsed s = (e, s') \<Longrightarrow> same_disk s s'"
  by (auto simp: next_elapsed_def same_disk_def split: list.splits)

lemma succeeds_disk: "succeeds s = (ok, s') \<Longrightarrow> same_disk s s'"
  by (auto simp: succeeds_def next_outcome_def same_disk_def split: prod.splits list.splits)

text \<open>The disk after a synchronisation that succeeded or not.\<close>

definition synced_disk :: "bool \<Rightarrow> string \<Rightarrow> os \<Rightarrow> os \<Rightarrow> bool" where
  "synced_disk ok p s s' \<longleftrightarrow> os_files s' = os_files s \<and> os_keep_size s' = os_keep_size s \<and> os_now s' = os_now s \<and>
     os_synced s' = (if ok then (os_synced s)(p \<mapsto> file_bytes p s) else os_synced s)"

lemma sync_file_disk: "sync_file p s = (ok, s') \<Longrightarrow> synced_disk ok p s s'"
  by (auto simp: sync_file_def synced_disk_def split: prod.splits dest: succeeds_disk [unfolded same_disk_def])

lemma truncate_file_disk:
  "truncate_file p n s = (ok, s') \<Longrightarrow> os_files s p = Some c \<Longrightarrow> length c = n \<Longrightarrow> same_disk s s'"
  by (auto simp: truncate_file_def same_disk_def file_bytes_some set_file_def fun_upd_idem split: prod.splits if_splits
      dest!: succeeds_disk [unfolded same_disk_def])

lemma sync_main_file_effect:
  assumes "sync_main_file w s = (ok, w', s')"
  shows "synced_disk ok (w_path w) s s'" and "ok \<Longrightarrow> stats_only w w'"
    and "\<not> ok \<Longrightarrow> stats_only (w\<lparr>w_failed := True\<rparr>) w'"
proof -
  obtain ok1 s1 where sync: "sync_file (w_path w) s = (ok1, s1)" by force
  obtain e s2 where el: "next_elapsed s1 = (e, s2)" by force
  note def = sync_main_file_def Let_def sync el stats_only_def bump_stats_def record_failure_def
  have "ok1 = ok" "s2 = s'" using assms by (auto simp: def split: if_splits)
  then show "synced_disk ok (w_path w) s s'"
    using sync_file_disk [OF sync] next_elapsed_disk [OF el] by (auto simp: synced_disk_def same_disk_def)
  show "stats_only w w'" if ok using assms that by (auto simp: def split: if_splits)
  show "stats_only (w\<lparr>w_failed := True\<rparr>) w'" if "\<not> ok" using assms that by (auto simp: def split: if_splits)
qed

lemma ensure_preallocated_effect:
  assumes "ensure_preallocated n w s = (ok, w', s')"
  shows "same_disk s s'" and "\<exists>st e. w' = w\<lparr>w_stats := st, w_preallocated_end := e\<rparr>"
proof -
  show "same_disk s s'"
    using assms by (auto simp: ensure_preallocated_def Let_def split: prod.splits if_splits dest: succeeds_disk)
  show "\<exists>st e. w' = w\<lparr>w_stats := st, w_preallocated_end := e\<rparr>"
    using assms
    by (cases w) (auto simp: ensure_preallocated_def Let_def bump_stats_def split: prod.splits if_splits)
qed

section \<open>Committing under every outcome\<close>

text \<open>
  A commit leaves a prefix of the new slot over the inactive one; only a commit that returns true
  has written all of it and synchronised it.
\<close>

definition commit_disk :: "nat \<Rightarrow> writer \<Rightarrow> bytes \<Rightarrow> os \<Rightarrow> os \<Rightarrow> bool" where
  "commit_disk k w j s s' \<longleftrightarrow> k \<le> 52 \<and>
     os_files s' = (os_files s)(w_journal_path w \<mapsto>
       overwrite j (next_slot_index w * 52) (take k (enc_checkpoint_slot (next_slot w)))) \<and>
     (\<forall>q. q \<noteq> w_journal_path w \<longrightarrow> os_synced s' q = os_synced s q)"

definition committed_writer :: "writer \<Rightarrow> writer \<Rightarrow> bool" where
  "committed_writer w w' \<longleftrightarrow> stats_only
     (w\<lparr>w_checkpoint_generation := w_checkpoint_generation w + 1,
        w_active_checkpoint_slot := next_slot_index w\<rparr>) w'"

lemma wrote_journal:
  assumes "wrote (w_journal_path w) (next_slot_index w * 52) k (enc_checkpoint_slot (next_slot w)) s s'"
    and "os_files s (w_journal_path w) = Some j"
  shows "commit_disk k w j s s'"
  using assms by (auto simp: wrote_def commit_disk_def only_file_def codec_simps)

lemma commit_disk_same: "commit_disk k w j s s1 \<Longrightarrow> same_disk s1 s2 \<Longrightarrow> commit_disk k w j s s2"
  by (simp add: commit_disk_def same_disk_def)

lemma commit_disk_synced:
  "commit_disk k w j s s1 \<Longrightarrow> synced_disk ok (w_journal_path w) s1 s2 \<Longrightarrow> commit_disk k w j s s2"
  by (auto simp: commit_disk_def synced_disk_def)

lemma commit_file:
  assumes "commit_disk k w j s s'" and "length j = 104" and "w_active_checkpoint_slot w < 2"
  shows "\<exists>c. os_files s' (w_journal_path w) = Some c \<and> length c = 104"
  using assms by (auto simp: commit_disk_def length_overwrite codec_simps next_slot_index_def)

lemma commit_checkpoint_effect:
  assumes "commit_checkpoint w s = (r, w', s')" and j: "os_files s (w_journal_path w) = Some j"
    and len: "length j = 104" and act: "w_active_checkpoint_slot w < 2"
  shows "\<exists>k. commit_disk k w j s s' \<and>
     (r = Returns True \<longrightarrow> k = 52 \<and> committed_writer w w' \<and>
        os_synced s' (w_journal_path w) = os_files s' (w_journal_path w) \<and> w_checkpoint_generation w \<noteq> - 1) \<and>
     (r \<noteq> Returns True \<longrightarrow> stats_only w w')"
proof -
  let ?f = "w_pending_commit_fault w" and ?e = "enc_checkpoint_slot (next_slot w)" and ?jp = "w_journal_path w"
  let ?off = "next_slot_index w * 52"
  have off: "?off \<le> length j" using len by (simp add: next_slot_index_def)
  have none: "commit_disk 0 w j s s"
    by (rule wrote_journal [OF wrote_nothing]) (use j off in simp_all)
  obtain pr s1 where pw: "pwrite ?jp (take (min 51 (if fc_partial_write_bytes (w_fault_config w) = 0
              then sizeof_checkpoint_slot div 2 else fc_partial_write_bytes (w_fault_config w))) ?e) ?off s = (pr, s1)"
    by force
  obtain ok1 w1 s2 where wr: "write_at_full ?jp ?e ?off False w s = (ok1, w1, s2)" by (metis prod_cases3)
  obtain ok2 s3 where tr: "truncate_file ?jp kCheckpointJournalSize s2 = (ok2, s3)" by force
  obtain ok3 s4 where sy: "sync_file ?jp s3 = (ok3, s4)" by force
  have disk1: "ok1 \<Longrightarrow> commit_disk 52 w j s s2" and st1: "stats_only w w1"
    and any1: "\<exists>k. commit_disk k w j s s2"
    using write_at_full_wrote [OF wr j off] wrote_journal [OF _ j] by (auto simp: codec_simps)
  have disk2: "commit_disk k w j s s2 \<Longrightarrow> commit_disk k w j s s3" for k
    using commit_file [OF _ len act] truncate_file_disk [OF tr] commit_disk_same by fastforce
  have disk3: "commit_disk k w j s s2 \<Longrightarrow> commit_disk k w j s s4" for k
    using disk2 commit_disk_synced sync_file_disk [OF sy] by blast
  have partial: "\<exists>k. commit_disk k w j s s1"
  proof -
    let ?k = "case pr of Wrote n \<Rightarrow> n | _ \<Rightarrow> 0"
    from pwrite_wrote [OF pw j off] have "wrote ?jp ?off (min ?k 51) ?e s s1"
      by (auto simp: wrote_def codec_simps min_def take_take)
    then show ?thesis using wrote_journal [OF _ j] by blast
  qed
  consider "w_checkpoint_generation w = - 1" | "w_checkpoint_generation w \<noteq> - 1" "?f = CrashAfterMainLogSync"
    | "w_checkpoint_generation w \<noteq> - 1" "?f = CrashBeforeCheckpointWrite"
    | "w_checkpoint_generation w \<noteq> - 1" "?f = CrashDuringCheckpointWrite"
    | "w_checkpoint_generation w \<noteq> - 1" "?f \<notin> {CrashAfterMainLogSync, CrashBeforeCheckpointWrite, CrashDuringCheckpointWrite}"
    by blast
  then show ?thesis
  proof cases
    case 5
    then have body: "commit_checkpoint w s =
      (if \<not> ok1 then (Returns False, w1, s2) else if \<not> ok2 then (Returns False, w1, s3)
       else
       let w2 = bump_stats (\<lambda>st. st\<lparr>ws_checkpoint_writes := ws_checkpoint_writes st + 1\<rparr>) w1 in
       if ?f = CrashAfterCheckpointWrite then (Exits 88, w2, s3)
       else if ?f = CrashBeforeJournalSync then (Exits 89, w2, s3)
       else
       let w3 = bump_stats (\<lambda>st. st\<lparr>ws_journal_sync_calls := ws_journal_sync_calls st + 1\<rparr>) w2 in
       if \<not> ok3 then (Returns False, w3, s4)
       else (Returns True,
         bump_stats (\<lambda>st. st\<lparr>ws_records_committed := ws_records_written st, ws_commits := ws_commits st + 1\<rparr>)
           (w3\<lparr>w_checkpoint_generation := ck_generation (next_slot w),
              w_active_checkpoint_slot := next_slot_index w\<rparr>), s4))"
      using wr tr sy by (simp add: commit_checkpoint_def Let_def)
    show ?thesis
    proof (cases "r = Returns True")
      case True
      with body assms(1) have ok: ok1 ok3 and w': "w' = bump_stats (\<lambda>st. st\<lparr>ws_records_committed := ws_records_written st, ws_commits := ws_commits st + 1\<rparr>)
           ((bump_stats (\<lambda>st. st\<lparr>ws_journal_sync_calls := ws_journal_sync_calls st + 1\<rparr>)
             (bump_stats (\<lambda>st. st\<lparr>ws_checkpoint_writes := ws_checkpoint_writes st + 1\<rparr>) w1))
             \<lparr>w_checkpoint_generation := ck_generation (next_slot w),
              w_active_checkpoint_slot := next_slot_index w\<rparr>)" and "s' = s4"
        by (auto simp: Let_def split: if_splits)
      have disk: "commit_disk 52 w j s s3" using disk2 disk1 ok by blast
      from sync_file_disk [OF sy] ok commit_file [OF disk len act]
      have "os_synced s4 ?jp = os_files s4 ?jp" by (auto simp: synced_disk_def file_bytes_some)
      moreover have "committed_writer w w'"
        using st1 unfolding w' by (cases w1) (auto simp: committed_writer_def stats_only_def bump_stats_def next_slot_def)
      ultimately show ?thesis using disk3 disk1 ok \<open>s' = s4\<close> True 5 by blast
    next
      case False
      have "stats_only w (bump_stats f w1)" "stats_only w (bump_stats g (bump_stats f w1))" for f g
        using st1 by (simp_all add: stats_only_bumped)
      with body assms(1) False st1 have "stats_only w w'" and "s' = s2 \<or> s' = s3 \<or> s' = s4"
        by (auto simp: Let_def split: if_splits)
      then show ?thesis using any1 disk2 disk3 False by blast
    qed
  qed (use assms none partial pw in \<open>auto simp: commit_checkpoint_def Let_def split: if_splits\<close>)
qed
section \<open>Torn slots\<close>

text \<open>The bytes of a slot of which only the first \<open>k\<close> were written over the old ones.\<close>

definition torn :: "nat \<Rightarrow> bytes \<Rightarrow> bytes \<Rightarrow> bytes" where
  "torn k new old = take k new @ drop k old"

lemma length_torn: "length new = n \<Longrightarrow> length old = n \<Longrightarrow> length (torn k new old) = n"
  by (simp add: torn_def)

lemma torn_new: "off + n \<le> k \<Longrightarrow> k \<le> length new \<Longrightarrow> take n (drop off (torn k new old)) = take n (drop off new)"
  by (simp add: torn_def drop_take min_def) arith

lemma torn_old: "k \<le> off \<Longrightarrow> k \<le> length new \<Longrightarrow> drop off (torn k new old) = drop off old"
  by (simp add: torn_def)

lemma torn_agree:
  "take p new = take p old \<Longrightarrow> k \<le> p \<Longrightarrow> torn k new old = old"
  by (metis append_take_drop_id min.absorb1 take_take torn_def)

lemma slot_fields:
  "ck_generation (dec_checkpoint_slot bs) = field 8 8 bs"
  "ck_recorder_start_time_us (dec_checkpoint_slot bs) = field 8 16 bs"
  "ck_committed_length (dec_checkpoint_slot bs) = field 8 24 bs"
  "ck_record_count (dec_checkpoint_slot bs) = field 8 32 bs"
  "ck_last_sequence (dec_checkpoint_slot bs) = field 8 40 bs"
  by (simp_all add: dec_checkpoint_slot_def)

lemma field_bytes:
  "off + 8 \<le> length u \<Longrightarrow> off + 8 \<le> length v \<Longrightarrow>
    (field 8 off u :: u64) = field 8 off v \<longleftrightarrow> take 8 (drop off u) = take 8 (drop off v)"
  unfolding field_def by (rule un_le_inject) simp_all

text \<open>A torn slot that has the new data up to its checksum and is valid is the new slot.\<close>

lemma same_data_same_slot:
  assumes "length u = 52" and "length v = 52" and "take 48 u = take 48 v"
    and "checkpoint_metadata_valid (dec_checkpoint_slot u)" and "checkpoint_metadata_valid (dec_checkpoint_slot v)"
  shows "u = v"
proof -
  have "un_le (take 4 (drop 48 u)) = (un_le (take 4 (drop 48 v)) :: u32)"
    using assms(3-5) unfolding checkpoint_metadata_valid_def slot_crc_bytes [OF assms(1)]
      slot_crc_bytes [OF assms(2)] slot_crc_field by simp
  then have "take 4 (drop 48 u) = take 4 (drop 48 v)"
    by (subst (asm) un_le_inject) (simp_all add: assms)
  then have "drop 48 u = drop 48 v" using assms(1,2) by simp
  then show ?thesis using assms(3) by (metis append_take_drop_id)
qed

lemma take_split: "p + a = q \<Longrightarrow> take p u = take p v \<Longrightarrow> take a (drop p u) = take a (drop p v) \<Longrightarrow> take q u = take q v"
  by (metis take_append_slice)

lemma slot_agrees_shape:
  assumes "slot_agrees h frames slot"
  shows "checkpoint_metadata_valid slot"
    and "unat (ck_committed_length slot) = 24 + 84 * unat (ck_record_count slot)"
    and "ck_last_sequence slot = seq_or_0 (take (unat (ck_record_count slot)) frames)"
proof -
  from assms obtain n where n: "n \<le> length frames" "slot_commits h (take n frames) slot"
    by (auto simp: slot_agrees_def)
  then have "unat (ck_record_count slot) = n" by (simp add: slot_commits_def)
  with n show "checkpoint_metadata_valid slot"
    "unat (ck_committed_length slot) = 24 + 84 * unat (ck_record_count slot)"
    "ck_last_sequence slot = seq_or_0 (take (unat (ck_record_count slot)) frames)"
    by (simp_all add: slot_commits_def)
qed

lemma torn_late:
  assumes N: "length N = 52" and M: "length M = 52" and k: "32 < k" "k \<le> 52"
    and new: "slot_agrees h frames (dec_checkpoint_slot N)"
    and agrees: "slot_agrees h frames (dec_checkpoint_slot (torn k N M))"
  shows "torn k N M = N"
proof -
  let ?X = "torn k N M"
  have X: "length ?X = 52" by (rule length_torn) fact+
  note ag = slot_agrees_shape [OF agrees, unfolded slot_fields] and nw = slot_agrees_shape [OF new, unfolded slot_fields]
  have t32: "take 32 ?X = take 32 N" using k N by (simp add: torn_def min_def)
  then have "field 8 24 ?X = (field 8 24 N :: u64)"
    using torn_new [of 24 8 k N M] k N by (simp add: field_def)
  with ag(2) nw(2) have "field 8 32 ?X = (field 8 32 N :: u64)" by (simp add: word_unat_eq_iff)
  with ag(3) nw(3) have cnt: "take 8 (drop 32 ?X) = take 8 (drop 32 N)" and "field 8 40 ?X = (field 8 40 N :: u64)"
    by (simp_all add: field_bytes X N)
  then have "take 8 (drop 40 ?X) = take 8 (drop 40 N)" by (simp add: field_bytes X N)
  with t32 cnt have "take 48 ?X = take 48 N"
    using take_split [of 32 8 40 ?X N] take_split [of 40 8 48 ?X N] by simp
  then show ?thesis by (rule same_data_same_slot [OF X N _ ag(1) nw(1)])
qed

lemma torn_nth: "length N = length M \<Longrightarrow> i < length M \<Longrightarrow> torn k N M ! i = (if i < k then N ! i else M ! i)"
  by (auto simp: torn_def nth_append min_def)

lemma torn_early:
  assumes N: "length N = 52" and M: "length M = 52" and k: "k \<le> 32"
    and same: "\<And>i. i < 8 \<or> 12 \<le> i \<and> i < 24 \<Longrightarrow> N ! i = M ! i"
    and old: "checkpoint_metadata_valid (dec_checkpoint_slot M)"
      "unat (field 8 24 M :: u64) = 24 + 84 * unat (field 8 32 M :: u64)"
    and agrees: "slot_agrees h frames (dec_checkpoint_slot (torn k N M))"
  shows "torn k N M = M"
proof -
  let ?X = "torn k N M"
  have X: "length ?X = 52" by (rule length_torn) fact+
  note ag = slot_agrees_shape [OF agrees, unfolded slot_fields]
  have d32: "drop 32 ?X = drop 32 M" using k N by (simp add: torn_old)
  then have "field 8 32 ?X = (field 8 32 M :: u64)" by (simp add: field_def)
  then have "field 8 24 ?X = (field 8 24 M :: u64)" using ag(2) old(2) by (simp add: word_unat_eq_iff)
  then have "take 8 (drop 24 ?X) = take 8 (drop 24 M)" by (simp add: field_bytes X M)
  with d32 have d24: "drop 24 ?X = drop 24 M"
    using take_drop_append_drop [of 8 24 ?X] take_drop_append_drop [of 8 24 M] by simp
  have nth24: "?X ! i = M ! i" if "24 \<le> i" "i < 52" for i
    using arg_cong [OF d24, of "\<lambda>xs. xs ! (i - 24)"] that X M by simp
  have nth: "?X ! i = M ! i" if "i < 52" "i < 8 \<or> 12 \<le> i" for i
    using nth24 [of i] same [of i] that N M by (cases "i < 24") (auto simp: torn_nth)
  have X': "?X = take 8 M @ take 4 (drop 8 ?X) @ drop 12 M"
  proof -
    have "take 8 ?X = take 8 M" by (rule nth_take_lemma) (simp_all add: X M nth)
    moreover have "drop 12 ?X = drop 12 M" by (rule nth_equalityI) (simp_all add: X M nth)
    ultimately show ?thesis using slices [of ?X 8 4] by simp
  qed
  have M': "M = take 8 M @ take 4 (drop 8 M) @ drop 12 M" using slices [of M 8 4] by simp
  show ?thesis
  proof (rule ccontr)
    assume "?X \<noteq> M"
    then have "take 4 (drop 8 ?X) \<noteq> take 4 (drop 8 M)" using X' M' by metis
    moreover have "enc_checkpoint_slot (dec_checkpoint_slot M) = take 8 M @ take 4 (drop 8 M) @ drop 12 M"
      using M' ckc.enc_dec [OF M] by simp
    ultimately have "\<not> checkpoint_metadata_valid (dec_checkpoint_slot (take 8 M @ take 4 (drop 8 ?X) @ drop 12 M))"
      by (intro slot_burst_detected [OF old(1), of "take 8 M" "take 4 (drop 8 M)" "drop 12 M"])
        (simp_all add: X M)
    with ag(1) X' show False by simp
  qed
qed

lemma torn_over_zero:
  assumes N: "length N = 52" and k: "k \<le> 32" and M: "M = replicate 52 0"
    and new: "dec_checkpoint_slot N = make_slot g t c n q"
    and crc: "compute_checkpoint_crc (make_slot g t 24 0 0) \<noteq> 0"
  shows "\<not> slot_agrees h frames (dec_checkpoint_slot (torn k N M))"
proof
  let ?X = "torn k N M"
  assume agrees: "slot_agrees h frames (dec_checkpoint_slot ?X)"
  note ag = slot_agrees_shape [OF agrees, unfolded slot_fields]
  have X: "length ?X = 52" using N M by (simp add: length_torn)
  have d: "drop p ?X = replicate (52 - p) 0" if "k \<le> p" for p using that k N M by (simp add: torn_old)
  have z: "(field 8 p ?X :: u64) = 0" if "k \<le> p" "p \<le> 44" for p
    using that d [of p] by (simp add: field_def min_def eval_nat_numeral)
  have cnt: "field 8 32 ?X = (0 :: u64)" and last: "field 8 40 ?X = (0 :: u64)" using z k by simp_all
  with ag(2) have len: "unat (field 8 24 ?X :: u64) = 24" by simp
  then have k24: "24 < k" using z [of 24] by (cases "k \<le> 24") auto
  let ?T = "dec_checkpoint_slot ?X" and ?S = "make_slot g t 24 0 0"
  have "field 8 8 ?X = (field 8 8 N :: u64)" "field 8 16 ?X = (field 8 16 N :: u64)"
    using k24 k N by (simp_all add: field_def torn_new)
  then have gt: "ck_generation ?T = g" "ck_recorder_start_time_us ?T = t"
    using new slot_fields(1,2) [of N] by (simp_all add: slot_fields)
  have "ck_committed_length ?T = 24" using len by (simp add: slot_fields word_unat_eq_iff)
  moreover have "ck_record_count ?T = 0" "ck_last_sequence ?T = 0" using cnt last by (simp_all add: slot_fields)
  ultimately have "?T\<lparr>ck_checkpoint_crc32 := 0\<rparr> = ?S\<lparr>ck_checkpoint_crc32 := 0\<rparr>"
    using ag(1) gt by (cases ?T) (simp add: checkpoint_metadata_valid_def make_slot_def seal_slot_def)
  then have "compute_checkpoint_crc ?T = compute_checkpoint_crc ?S"
    by (metis compute_checkpoint_crc_sealed)
  moreover have "ck_checkpoint_crc32 ?T = 0"
    using d [of 48] k by (simp add: slot_crc_field eval_nat_numeral)
  ultimately show False using ag(1) crc by (simp add: checkpoint_metadata_valid_def)
qed

lemma le_add: "le (m + n) w = le m w @ le n (drop_bit (8 * m) w)"
  by (induction m arbitrary: w) (simp_all add: drop_bit_drop_bit add.commute)

lemma nth_outside:
  assumes "length p = 8" and "length g = 4" and "length g' = 4" and "length q = 12"
    and "i < 8 \<or> 12 \<le> i \<and> i < 24"
  shows "(p @ g @ q @ r) ! i = (p @ g' @ q @ r') ! i"
  using assms by (auto simp: nth_append)

lemma slot_same_bytes:
  assumes "checkpoint_metadata_valid a" and "checkpoint_metadata_valid b"
    and "ck_recorder_start_time_us a = ck_recorder_start_time_us b"
    and "drop_bit 32 (ck_generation a) = drop_bit 32 (ck_generation b)"
    and "i < 8 \<or> 12 \<le> i \<and> i < 24"
  shows "enc_checkpoint_slot a ! i = enc_checkpoint_slot b ! i"
proof -
  let ?P = "le 4 kJournalMagic @ le 2 kCheckpointJournalVersion @ le 2 (word_of_nat sizeof_checkpoint_slot :: u16)"
  let ?Q = "\<lambda>x. le 4 (drop_bit 32 (ck_generation x)) @ le 8 (ck_recorder_start_time_us x)"
  have split: "\<exists>r. enc_checkpoint_slot x = ?P @ le 4 (ck_generation x) @ ?Q x @ r" if "checkpoint_metadata_valid x" for x
    using that le_add [of 4 4 "ck_generation x"] by (simp add: enc_checkpoint_slot_def checkpoint_metadata_valid_def)
  have Q: "?Q a = ?Q b" using assms by simp
  obtain r r' where "enc_checkpoint_slot a = ?P @ le 4 (ck_generation a) @ ?Q a @ r"
    "enc_checkpoint_slot b = ?P @ le 4 (ck_generation b) @ ?Q a @ r'"
    using split [OF assms(1)] split [OF assms(2)] Q by metis
  then show ?thesis
    by (simp only:) (rule nth_outside, simp_all add: assms(5))
qed

section \<open>The slot to be overwritten\<close>

text \<open>
  What the inactive slot holds when a run has not been interrupted in the middle of a slot: zeros
  before its first use, later the checkpoint before the active one. Over zeros the checksum alone
  must tell a torn slot, so its value for the empty log is assumed not to be zero.
\<close>

definition reusable :: "persisted_checkpoint_slot \<Rightarrow> bytes \<Rightarrow> bool" where
  "reusable new old \<longleftrightarrow> length old = 52 \<and>
     (old = replicate 52 0 \<and>
        compute_checkpoint_crc (make_slot (ck_generation new) (ck_recorder_start_time_us new) 24 0 0) \<noteq> 0 \<or>
      checkpoint_metadata_valid (dec_checkpoint_slot old) \<and>
        unat (ck_committed_length (dec_checkpoint_slot old)) =
          24 + 84 * unat (ck_record_count (dec_checkpoint_slot old)) \<and>
        ck_recorder_start_time_us (dec_checkpoint_slot old) = ck_recorder_start_time_us new \<and>
        drop_bit 32 (ck_generation (dec_checkpoint_slot old)) = drop_bit 32 (ck_generation new))"

lemma torn_slot:
  assumes new: "new = make_slot g t c n q" "slot_agrees h frames new" and k: "k \<le> 52" and old: "reusable new old"
    and agrees: "slot_agrees h frames (dec_checkpoint_slot (torn k (enc_checkpoint_slot new) old))"
  shows "torn k (enc_checkpoint_slot new) old = enc_checkpoint_slot new \<or>
    torn k (enc_checkpoint_slot new) old = old"
proof (cases "k \<le> 32")
  case False
  then show ?thesis
    using torn_late [of "enc_checkpoint_slot new" old k h frames] assms by (simp add: codec_simps reusable_def)
next
  case k32: True
  from old have len: "length old = 52" by (simp add: reusable_def)
  from old consider (zero) "old = replicate 52 0" "compute_checkpoint_crc (make_slot g t 24 0 0) \<noteq> 0"
    | (valid) "checkpoint_metadata_valid (dec_checkpoint_slot old)"
      "unat (field 8 24 old :: u64) = 24 + 84 * unat (field 8 32 old :: u64)"
      "ck_recorder_start_time_us (dec_checkpoint_slot old) = ck_recorder_start_time_us new"
      "drop_bit 32 (ck_generation (dec_checkpoint_slot old)) = drop_bit 32 (ck_generation new)"
    unfolding reusable_def slot_fields(3,4) new(1) make_slot_fields by blast
  then show ?thesis
  proof cases
    case zero
    then show ?thesis
      using torn_over_zero [of "enc_checkpoint_slot new" k old g t c n q h frames] k32 agrees new(1)
      by (simp add: codec_simps)
  next
    case valid
    have "enc_checkpoint_slot new ! i = old ! i" if "i < 8 \<or> 12 \<le> i \<and> i < 24" for i
      using slot_same_bytes [OF slot_agrees_shape(1) [OF new(2)] valid(1) valid(3,4) [symmetric] that] ckc.enc_dec [OF len]
      by simp
    from torn_early [OF _ len k32 this valid(1,2) agrees] show ?thesis by (simp add: codec_simps)
  qed
qed

section \<open>What recovery restores\<close>

text \<open>
  After a restart, with the files as they are, recovery reports success and leaves the log with
  exactly the frames \<open>fs\<close> and everything else as it was; run again, it reports the same; and a writer
  can then open the log.
\<close>

definition restores :: "string \<Rightarrow> os \<Rightarrow> persisted_file_header \<Rightarrow> log_frame list \<Rightarrow> bool" where
  "restores path s h fs \<longleftrightarrow> (\<exists>rep rep' s'. recover_startup_state path (s\<lparr>os_script := []\<rparr>) = (rep, s') \<and>
     sr_healthy rep \<and> sr_valid_records rep = length fs \<and> sr_last_sequence rep = seq_or_0 fs \<and>
     s' = set_file path (enc_file_header h @ enc_frames fs) (s\<lparr>os_script := []\<rparr>) \<and>
     recover_startup_state path s' = (rep', s') \<and> sr_healthy rep' \<and> \<not> sr_log_truncated rep' \<and>
     sr_valid_records rep' = sr_valid_records rep \<and> sr_last_sequence rep' = sr_last_sequence rep \<and>
     sr_checkpoint_generation rep' = sr_checkpoint_generation rep \<and> opens_again path s')"

lemma restores_slot:
  assumes log: "os_files s path = Some (enc_file_header h @ body)" and h: "file_header_ok h"
    and j: "os_files s (journal_path_for_log path) = Some j" and lj: "length j = 104"
    and n: "n \<le> length (log_frames (enc_file_header h @ body))" and i: "i < 2"
    and commits: "slot_commits h (take n (log_frames (enc_file_header h @ body))) (dec_checkpoint_slot (slot_at i j))"
    and other: "slot_agrees h (log_frames (enc_file_header h @ body)) (dec_checkpoint_slot (slot_at (1 - i) j)) \<Longrightarrow>
      ck_generation (dec_checkpoint_slot (slot_at (1 - i) j)) < ck_generation (dec_checkpoint_slot (slot_at i j))"
  shows "restores path s h (take n (log_frames (enc_file_header h @ body)))"
proof -
  let ?log = "enc_file_header h @ body" and ?s = "s\<lparr>os_script := []\<rparr>"
  have hd: "dec_file_header (take 24 ?log) = h" "take 24 ?log = enc_file_header h" by (simp_all add: codec_simps)
  then have ok: "log_header_ok ?log" using h by (simp add: log_header_ok_def codec_simps)
  have i01: "i = 0 \<or> i = 1" using i by auto
  have newest: "newest_agreeing h (log_frames ?log) (dec_slots j) (dec_checkpoint_slot (slot_at i j))"
  proof -
    have "slot_agrees h (log_frames ?log) (dec_checkpoint_slot (slot_at i j))"
      using n commits by (auto simp: slot_agrees_def)
    with i01 other show ?thesis by (auto simp: newest_agreeing_def dec_slots_at)
  qed
  have "os_script ?s = []" "os_files ?s path = Some ?log" "os_files ?s (journal_path_for_log path) = Some j"
    using log j by simp_all
  note given = this(1,2) ok this(3) lj
  from recover_startup_ok [OF given _ n, unfolded hd(1), OF newest commits] obtain rep where
    rep: "recover_startup_state path ?s = (rep, set_file path (take (24 + 84 * n) ?log) ?s)" "sr_healthy rep"
    "sr_valid_records rep = n" "sr_last_sequence rep = seq_or_0 (take n (log_frames ?log))"
    by blast
  have left: "take (24 + 84 * n) ?log = enc_file_header h @ enc_frames (take n (log_frames ?log))"
    using cut_log(1) [OF ok n] hd(2) by simp
  have "opens_again path (set_file path (take (24 + 84 * n) ?log) ?s)"
    by (rule committed_opens [OF _ _ h _ lj i commits]) (use left j in simp_all)
  with recover_again [OF given _ n, unfolded hd(1), OF newest commits rep(1)] rep(2-4) n show ?thesis
    unfolding restores_def rep(1) left by auto
qed

text \<open>A log that ends in the middle of a batch holds the whole frames of it.\<close>

lemma log_frames_cut:
  assumes "chain_ok None fs" and "k \<le> 84 * length fs"
  shows "log_frames (enc_file_header h @ take k (enc_frames fs)) = take (k div 84) fs"
proof -
  let ?n = "k div 84"
  have n: "?n * 84 \<le> k" "k < ?n * 84 + 84"
    using mod_less_divisor [of 84 k] div_mult_mod_eq [of k 84] by linarith+
  have "take k (enc_frames fs) = take (?n * 84 + (k - ?n * 84)) (enc_frames fs)" using n by simp
  also have "\<dots> = enc_frames (take ?n fs) @ take (k - ?n * 84) (drop (?n * 84) (enc_frames fs))"
    unfolding take_add using frc.take_concat_enc [of ?n fs] by (simp add: enc_frames_def)
  finally have body: "take k (enc_frames fs) = enc_frames (take ?n fs) @ take (k - ?n * 84) (drop (?n * 84) (enc_frames fs))" .
  have "chain_ok None (take ?n fs)"
    using assms(1) chain_ok_append [of None "take ?n fs" "drop ?n fs"] by simp
  moreover have "\<not> acceptable (last_seq None (take ?n fs)) (take (k - ?n * 84) (drop (?n * 84) (enc_frames fs)))"
  proof -
    have "length (take (k - ?n * 84) (drop (?n * 84) (enc_frames fs))) < 84" using n by simp
    then show ?thesis unfolding acceptable_def by linarith
  qed
  ultimately show ?thesis
    by (simp add: log_frames_def codec_simps body valid_prefix_append valid_prefix_stop)
qed


section \<open>The disk of a running writer\<close>

text \<open>The cursors of the writer agree with the frames in the log.\<close>

definition writer_at :: "writer \<Rightarrow> persisted_file_header \<Rightarrow> log_frame list \<Rightarrow> bool" where
  "writer_at w h fs \<longleftrightarrow> w_recorder_start_time_us w = fh_recorder_start_time_us h \<and>
     w_logical_end w = 24 + 84 * length fs \<and> w_file_record_count w = word_of_nat (length fs) \<and>
     w_last_written_sequence w = seq_or_0 fs \<and> w_journal_path w = journal_path_for_log (w_path w)"

text \<open>The active slot commits the frames \<open>cs\<close>; the other one is older, or was never used.\<close>

definition journal_at :: "writer \<Rightarrow> persisted_file_header \<Rightarrow> log_frame list \<Rightarrow> bytes \<Rightarrow> bool" where
  "journal_at w h cs j \<longleftrightarrow> length j = 104 \<and> w_active_checkpoint_slot w < 2 \<and>
     (let active = dec_checkpoint_slot (slot_at (w_active_checkpoint_slot w) j);
          old = slot_at (1 - w_active_checkpoint_slot w) j;
          other = dec_checkpoint_slot old in
      slot_commits h cs active \<and> ck_generation active = w_checkpoint_generation w \<and>
      (old = replicate 52 0 \<and> w_checkpoint_generation w = 1 \<or>
       checkpoint_metadata_valid other \<and> ck_generation other < w_checkpoint_generation w \<and>
       unat (ck_committed_length other) = 24 + 84 * unat (ck_record_count other) \<and>
       ck_recorder_start_time_us other = fh_recorder_start_time_us h))"

definition writer_disk :: "writer \<Rightarrow> (string \<Rightarrow> bytes option) \<Rightarrow> persisted_file_header \<Rightarrow> log_frame list \<Rightarrow> nat \<Rightarrow> bool" where
  "writer_disk w files h fs n \<longleftrightarrow> file_header_ok h \<and> chain_ok None fs \<and> 24 + 84 * length fs < 2 ^ 64 \<and>
     n \<le> length fs \<and> writer_at w h fs \<and> files (w_path w) = Some (enc_file_header h @ enc_frames fs) \<and>
     (\<exists>j. files (w_journal_path w) = Some j \<and> journal_at w h (take n fs) j)"

text \<open>
  The bounds the crash theorems need: generations stay within 32 bits, and, for the first write
  over the unused slot, the checksum of an empty checkpoint is not zero.
\<close>

definition checkpoint_bounds :: "writer \<Rightarrow> bool" where
  "checkpoint_bounds w \<longleftrightarrow> unat (w_checkpoint_generation w) + 1 < 2 ^ 32 \<and>
     (w_checkpoint_generation w = 1 \<longrightarrow>
        compute_checkpoint_crc (make_slot 2 (w_recorder_start_time_us w) 24 0 0) \<noteq> 0)"

lemma zero_slot_invalid: "\<not> checkpoint_metadata_valid (dec_checkpoint_slot (replicate 52 0))"
  by (simp add: checkpoint_metadata_valid_def dec_checkpoint_slot_def field_def format_consts eval_nat_numeral)

lemma small_generations:
  fixes g g' :: u64
  assumes "unat g < 2 ^ 32" and "unat g' < 2 ^ 32"
  shows "drop_bit 32 g = drop_bit 32 g'"
proof -
  have "drop_bit 32 x = 0" if "unat x < 2 ^ 32" for x :: u64
  proof -
    have "unat (drop_bit 32 x) = drop_bit 32 (unat x)" by (rule unat_drop_bit_eq)
    also have "\<dots> = unat x div 2 ^ 32" by (rule drop_bit_eq_div)
    finally have "unat (drop_bit 32 x) = 0" using that by simp
    then show ?thesis by (simp add: unat_eq_zero)
  qed
  with assms show ?thesis by simp
qed

lemma unat_inc: "unat (g :: u64) + 1 < 2 ^ 64 \<Longrightarrow> unat (g + 1) = unat g + 1"
  by (simp add: unat_word_ariths)

lemma next_generation:
  assumes "unat (g :: u64) + 1 < 2 ^ 32"
  shows "unat (g + 1) = unat g + 1" and "g < g + 1"
proof -
  show "unat (g + 1) = unat g + 1"
    by (rule unat_inc, rule order_less_trans [OF assms]) simp
  then show "g < g + 1" by (simp add: word_less_nat_alt)
qed

lemma journal_reusable:
  assumes "journal_at w h cs j" and "checkpoint_bounds w" and "w_recorder_start_time_us w = fh_recorder_start_time_us h"
  shows "reusable (next_slot w) (slot_at (1 - w_active_checkpoint_slot w) j)"
proof -
  have len: "length (slot_at (1 - w_active_checkpoint_slot w) j) = 52"
    using assms(1) by (auto simp: journal_at_def slot_at_def less_Suc_eq numeral_2_eq_2)
  have g: "unat (w_checkpoint_generation w + 1) < 2 ^ 32"
    using assms(2) next_generation [of "w_checkpoint_generation w"] by (simp add: checkpoint_bounds_def)
  show ?thesis
    using assms(1) unfolding journal_at_def Let_def
  proof (elim conjE disjE)
    assume "slot_at (1 - w_active_checkpoint_slot w) j = replicate 52 0" "w_checkpoint_generation w = 1"
    then show ?thesis using assms(2) by (simp add: reusable_def checkpoint_bounds_def next_slot_def)
  next
    let ?o = "dec_checkpoint_slot (slot_at (1 - w_active_checkpoint_slot w) j)"
    assume o: "checkpoint_metadata_valid ?o" "ck_generation ?o < w_checkpoint_generation w"
      "unat (ck_committed_length ?o) = 24 + 84 * unat (ck_record_count ?o)"
      "ck_recorder_start_time_us ?o = fh_recorder_start_time_us h"
    then have "unat (ck_generation ?o) < 2 ^ 32"
      using assms(2) by (simp add: checkpoint_bounds_def word_less_nat_alt)
    then have "drop_bit 32 (ck_generation ?o) = drop_bit 32 (ck_generation (next_slot w))"
      by (rule small_generations) (use g in \<open>simp add: next_slot_def\<close>)
    with o len assms(3) show ?thesis by (simp add: reusable_def next_slot_def)
  qed
qed

lemma next_slot_commits:
  assumes "writer_at w h fs" and "24 + 84 * length fs < 2 ^ 64" and "w_checkpoint_generation w \<noteq> - 1"
  shows "slot_commits h fs (next_slot w)"
proof -
  have "w_checkpoint_generation w + 1 \<noteq> 0"
    using assms(3) by (metis add_eq_0_iff2 minus_equation_iff)
  moreover have "unat (word_of_nat (24 + 84 * length fs) :: u64) = 24 + 84 * length fs"
    "unat (word_of_nat (length fs) :: u64) = length fs"
    using assms(2) by (simp_all only: unat_of_nat_len)
  ultimately show ?thesis
    using assms(1) by (simp only: slot_commits_def next_slot_def writer_at_def make_slot_fields make_slot_valid simp_thms)
qed

text \<open>The slots of the journal after a partial or complete write of the next slot.\<close>

lemma overwritten_slots:
  assumes "length j = 104" and "w_active_checkpoint_slot w < 2" and "k \<le> 52"
  defines "j' \<equiv> overwrite j (next_slot_index w * 52) (take k (enc_checkpoint_slot (next_slot w)))"
  shows "slot_at (1 - w_active_checkpoint_slot w) j' =
      torn k (enc_checkpoint_slot (next_slot w)) (slot_at (1 - w_active_checkpoint_slot w) j)"
    and "slot_at (w_active_checkpoint_slot w) j' = slot_at (w_active_checkpoint_slot w) j"
    and "length j' = 104"
proof -
  let ?N = "enc_checkpoint_slot (next_slot w)"
  obtain a b where j: "j = a @ b" "length a = 52" "length b = 52"
    by (rule that [of "take 52 j" "drop 52 j"]) (simp_all add: assms(1))
  show "length j' = 104" using assms(1-3)
    by (auto simp: j'_def length_overwrite codec_simps next_slot_index_def)
  consider "w_active_checkpoint_slot w = 0" | "w_active_checkpoint_slot w = 1"
    using assms(2) by linarith
  then have "slot_at (1 - w_active_checkpoint_slot w) j' =
      torn k ?N (slot_at (1 - w_active_checkpoint_slot w) j) \<and>
      slot_at (w_active_checkpoint_slot w) j' = slot_at (w_active_checkpoint_slot w) j"
  proof cases
    case 1
    then have "j' = a @ torn k ?N b"
      using j assms(3) by (simp add: j'_def next_slot_index_def overwrite_mid codec_simps torn_def)
    with 1 j show ?thesis by (simp add: slot_at_def length_torn codec_simps)
  next
    case 2
    then have "j' = torn k ?N a @ b"
      using j assms(3) by (simp add: j'_def next_slot_index_def overwrite_start codec_simps torn_def)
    with 2 j show ?thesis by (simp add: slot_at_def length_torn codec_simps)
  qed
  then show "slot_at (1 - w_active_checkpoint_slot w) j' =
      torn k ?N (slot_at (1 - w_active_checkpoint_slot w) j)"
    and "slot_at (w_active_checkpoint_slot w) j' = slot_at (w_active_checkpoint_slot w) j"
    by blast+
qed

section \<open>A commit, whatever happens to it\<close>

lemma log_frames_whole: "chain_ok None fs \<Longrightarrow> log_frames (enc_file_header h @ enc_frames fs) = fs"
  using log_frames_cut [of fs "84 * length fs" h] by simp

lemma commit_disk_restores:
  assumes disk: "writer_disk w (os_files s) h fs n" and b: "checkpoint_bounds w"
    and j: "os_files s (w_journal_path w) = Some j" and c: "commit_disk k w j s s'"
    and g: "w_checkpoint_generation w \<noteq> - 1"
  shows "restores (w_path w) s' h (take n fs) \<or> restores (w_path w) s' h fs"
    and "k = 52 \<Longrightarrow> restores (w_path w) s' h fs"
    and "torn k (enc_checkpoint_slot (next_slot w)) (slot_at (1 - w_active_checkpoint_slot w) j) \<noteq>
      enc_checkpoint_slot (next_slot w) \<Longrightarrow> restores (w_path w) s' h (take n fs)"
proof -
  let ?a = "w_active_checkpoint_slot w" and ?N = "next_slot w" and ?jp = "w_journal_path w"
  let ?j' = "overwrite j (next_slot_index w * 52) (take k (enc_checkpoint_slot ?N))"
  let ?old = "slot_at (1 - ?a) j" and ?log = "enc_file_header h @ enc_frames fs"
  from disk j have h: "file_header_ok h" and chain: "chain_ok None fs" and len: "24 + 84 * length fs < 2 ^ 64"
    and n: "n \<le> length fs" and at: "writer_at w h fs" and log: "os_files s (w_path w) = Some ?log"
    and ja: "journal_at w h (take n fs) j"
    by (auto simp: writer_disk_def)
  have jp: "?jp = journal_path_for_log (w_path w)" and start: "w_recorder_start_time_us w = fh_recorder_start_time_us h"
    using at by (simp_all add: writer_at_def)
  from ja have lj: "length j = 104" and a: "?a < 2" and act: "slot_commits h (take n fs) (dec_checkpoint_slot (slot_at ?a j))"
    "ck_generation (dec_checkpoint_slot (slot_at ?a j)) = w_checkpoint_generation w"
    and old: "checkpoint_metadata_valid (dec_checkpoint_slot ?old) \<Longrightarrow>
      ck_generation (dec_checkpoint_slot ?old) < w_checkpoint_generation w"
    using zero_slot_invalid by (auto simp: journal_at_def Let_def)
  have k: "k \<le> 52" and files: "os_files s' (w_path w) = Some ?log" "os_files s' (journal_path_for_log (w_path w)) = Some ?j'"
    using c log jp by (auto simp: commit_disk_def)
  note slots = overwritten_slots [OF lj a k]
  have fr: "log_frames ?log = fs" by (rule log_frames_whole [OF chain])
  have new: "slot_commits h fs ?N" by (rule next_slot_commits [OF at len g])
  have gN: "ck_generation ?N = w_checkpoint_generation w + 1" by (simp add: next_slot_def)
  have gless: "w_checkpoint_generation w < w_checkpoint_generation w + 1"
    using b unfolding checkpoint_bounds_def by (blast intro: next_generation)
  have slotN: "slot_agrees h fs ?N" using new by (auto simp: slot_agrees_def)
  let ?T = "torn k (enc_checkpoint_slot ?N) ?old"
  have keep: "restores (w_path w) s' h (take n fs)"
    if "slot_agrees h fs (dec_checkpoint_slot ?T) \<Longrightarrow> ck_generation (dec_checkpoint_slot ?T) < w_checkpoint_generation w"
    by (rule restores_slot [OF files(1) h files(2) slots(3), of n ?a, unfolded fr slots(1,2), OF n a act(1)])
      (simp only: act(2) that)
  have advance: "restores (w_path w) s' h fs" if "dec_checkpoint_slot ?T = ?N"
  proof -
    have i: "1 - (1 - ?a) = ?a" "1 - ?a < 2" using a by auto
    have "restores (w_path w) s' h (take (length fs) fs)"
      by (rule restores_slot [OF files(1) h files(2) slots(3), of "length fs" "1 - ?a", unfolded fr i(1) slots(1,2) that, OF order_refl i(2)])
        (simp_all only: take_all order_refl new act(2) gN gless)
    then show ?thesis by simp
  qed
  show "k = 52 \<Longrightarrow> restores (w_path w) s' h fs"
    using lj a by (intro advance) (simp add: torn_def codec_simps slot_at_def)
  have old_or_new: "restores (w_path w) s' h (take n fs)" if "?T \<noteq> enc_checkpoint_slot ?N"
  proof (cases "slot_agrees h fs (dec_checkpoint_slot ?T)")
    case False
    then show ?thesis using keep by blast
  next
    case True
    from torn_slot [OF next_slot_def slotN k journal_reusable [OF ja b start] True] that
    have "?T = ?old" by blast
    then show ?thesis using keep old slot_agrees_shape(1) [OF True] by simp
  qed
  then show "?T \<noteq> enc_checkpoint_slot ?N \<Longrightarrow> restores (w_path w) s' h (take n fs)" .
  show "restores (w_path w) s' h (take n fs) \<or> restores (w_path w) s' h fs"
    using old_or_new advance by (cases "?T = enc_checkpoint_slot ?N") (simp_all add: codec_simps)
qed

section \<open>Flushing\<close>

lemma stats_only_fields:
  assumes "stats_only w w'"
  shows "w_path w' = w_path w" "w_journal_path w' = w_journal_path w" "w_fd_open w' = w_fd_open w"
    "w_recorder_start_time_us w' = w_recorder_start_time_us w" "w_fault_config w' = w_fault_config w"
    "w_logical_end w' = w_logical_end w" "w_unsynced_batches w' = w_unsynced_batches w"
    "w_checkpoint_generation w' = w_checkpoint_generation w" "w_options w' = w_options w"
    "w_active_checkpoint_slot w' = w_active_checkpoint_slot w" "w_file_record_count w' = w_file_record_count w"
    "w_last_written_sequence w' = w_last_written_sequence w" "w_failed w' = w_failed w"
    "w_pending_commit_fault w' = w_pending_commit_fault w" "w_fault_injected w' = w_fault_injected w"
proof -
  from assms obtain st where "w' = w\<lparr>w_stats := st\<rparr>" unfolding stats_only_def by blast
  then show "w_path w' = w_path w" "w_journal_path w' = w_journal_path w" "w_fd_open w' = w_fd_open w"
    "w_recorder_start_time_us w' = w_recorder_start_time_us w" "w_fault_config w' = w_fault_config w"
    "w_logical_end w' = w_logical_end w" "w_unsynced_batches w' = w_unsynced_batches w"
    "w_checkpoint_generation w' = w_checkpoint_generation w" "w_options w' = w_options w"
    "w_active_checkpoint_slot w' = w_active_checkpoint_slot w" "w_file_record_count w' = w_file_record_count w"
    "w_last_written_sequence w' = w_last_written_sequence w" "w_failed w' = w_failed w"
    "w_pending_commit_fault w' = w_pending_commit_fault w" "w_fault_injected w' = w_fault_injected w"
    by simp_all
qed

definition same_cursors :: "writer \<Rightarrow> writer \<Rightarrow> bool" where
  "same_cursors w w' \<longleftrightarrow> w_path w' = w_path w \<and> w_journal_path w' = w_journal_path w \<and>
     w_recorder_start_time_us w' = w_recorder_start_time_us w \<and> w_logical_end w' = w_logical_end w \<and>
     w_checkpoint_generation w' = w_checkpoint_generation w \<and>
     w_active_checkpoint_slot w' = w_active_checkpoint_slot w \<and>
     w_file_record_count w' = w_file_record_count w \<and>
     w_last_written_sequence w' = w_last_written_sequence w"

lemma same_cursors_disk: "same_cursors w w' \<Longrightarrow> writer_disk w' files h fs n = writer_disk w files h fs n"
  by (simp add: same_cursors_def writer_disk_def writer_at_def journal_at_def)


lemma stats_only_cursors: "stats_only w w' \<Longrightarrow> same_cursors w w'"
  by (simp add: same_cursors_def stats_only_fields)

lemma same_cursors_bounds: "same_cursors w w' \<Longrightarrow> checkpoint_bounds w' = checkpoint_bounds w"
  by (simp add: same_cursors_def checkpoint_bounds_def)

lemma same_cursors_trans: "same_cursors w w1 \<Longrightarrow> same_cursors w1 w2 \<Longrightarrow> same_cursors w w2"
  by (simp add: same_cursors_def)

text \<open>With the journal untouched, recovery cuts off whatever a batch left behind the committed frames.\<close>

lemma writer_disk_restores:
  assumes disk: "writer_disk w files h fs n" and chain: "chain_ok None (fs @ bs)"
    and log: "os_files s (w_path w) = Some (enc_file_header h @ enc_frames fs @ take k (enc_frames bs))"
    and j: "os_files s (w_journal_path w) = files (w_journal_path w)"
  shows "restores (w_path w) s h (take n fs)"
proof -
  let ?a = "w_active_checkpoint_slot w"
  from disk obtain jb where h: "file_header_ok h" and n: "n \<le> length fs" and at: "writer_at w h fs"
    and jb: "files (w_journal_path w) = Some jb" and ja: "journal_at w h (take n fs) jb"
    by (auto simp: writer_disk_def)
  let ?k = "min k (84 * length bs)" and ?m = "84 * length fs + min k (84 * length bs)"
  have body: "enc_frames fs @ take k (enc_frames bs) = take ?m (enc_frames (fs @ bs))"
    by (simp add: min_def)
  have fr: "log_frames (enc_file_header h @ enc_frames fs @ take k (enc_frames bs)) = take (?m div 84) (fs @ bs)"
    unfolding body by (rule log_frames_cut [OF chain]) simp
  have m: "n \<le> length (take (?m div 84) (fs @ bs))" "take n (take (?m div 84) (fs @ bs)) = take n fs"
    using n by (auto simp: min_def)
  from ja have lj: "length jb = 104" and a: "?a < 2"
    and act: "slot_commits h (take n fs) (dec_checkpoint_slot (slot_at ?a jb))"
    "ck_generation (dec_checkpoint_slot (slot_at ?a jb)) = w_checkpoint_generation w"
    and old: "checkpoint_metadata_valid (dec_checkpoint_slot (slot_at (1 - ?a) jb)) \<Longrightarrow>
      ck_generation (dec_checkpoint_slot (slot_at (1 - ?a) jb)) < w_checkpoint_generation w"
    using zero_slot_invalid by (auto simp: journal_at_def Let_def)
  have jp: "os_files s (journal_path_for_log (w_path w)) = Some jb"
    using at j jb by (simp add: writer_at_def)
  show ?thesis
    by (rule restores_slot [OF log h jp lj, of n ?a, unfolded fr m(2), OF m(1) a act(1)])
      (use old act(2) slot_agrees_shape(1) in metis)
qed

lemma commit_disk_path: "commit_disk k w j s s' \<Longrightarrow> q \<noteq> w_journal_path w \<Longrightarrow>
    os_files s' q = os_files s q \<and> os_synced s' q = os_synced s q"
  by (auto simp: commit_disk_def)

lemma commit_success:
  assumes disk: "writer_disk w (os_files s) h fs n" and b: "checkpoint_bounds w"
    and c: "commit_checkpoint w s = (Returns True, w', s')"
  shows "writer_disk w' (os_files s') h fs (length fs)"
    and "os_synced s' (w_journal_path w) = os_files s' (w_journal_path w)"
    and "\<And>q. q \<noteq> w_journal_path w \<Longrightarrow> os_files s' q = os_files s q \<and> os_synced s' q = os_synced s q"
proof -
  let ?a = "w_active_checkpoint_slot w" and ?N = "next_slot w" and ?jp = "w_journal_path w"
  from disk obtain j where j: "os_files s ?jp = Some j" and ja: "journal_at w h (take n fs) j"
    and at: "writer_at w h fs" and len: "24 + 84 * length fs < 2 ^ 64"
    and rest: "file_header_ok h" "chain_ok None fs" "n \<le> length fs" "os_files s (w_path w) = Some (enc_file_header h @ enc_frames fs)"
    by (auto simp: writer_disk_def)
  from ja have lj: "length j = 104" and a: "?a < 2"
    and act: "slot_commits h (take n fs) (dec_checkpoint_slot (slot_at ?a j))"
      "ck_generation (dec_checkpoint_slot (slot_at ?a j)) = w_checkpoint_generation w"
    by (auto simp: journal_at_def Let_def)
  from commit_checkpoint_effect [OF c j lj a] have cd: "commit_disk 52 w j s s'" and w': "committed_writer w w'"
    and sy: "os_synced s' ?jp = os_files s' ?jp" and g: "w_checkpoint_generation w \<noteq> - 1"
    by auto
  show "os_synced s' (w_journal_path w) = os_files s' (w_journal_path w)" by (rule sy)
  show other: "os_files s' q = os_files s q \<and> os_synced s' q = os_synced s q" if "q \<noteq> ?jp" for q
    using commit_disk_path [OF cd that] .
  let ?j' = "overwrite j (next_slot_index w * 52) (take 52 (enc_checkpoint_slot ?N))"
  have j': "os_files s' ?jp = Some ?j'" using cd by (simp add: commit_disk_def)
  note slots = overwritten_slots [OF lj a order_refl]
  have new: "slot_commits h fs ?N" by (rule next_slot_commits [OF at len g])
  let ?u = "w\<lparr>w_checkpoint_generation := w_checkpoint_generation w + 1, w_active_checkpoint_slot := next_slot_index w\<rparr>"
  have idx: "next_slot_index w = 1 - ?a" "1 - (1 - ?a) = ?a" "1 - ?a < 2"
    using a less_2_cases [OF a] by (auto simp: next_slot_index_def)
  have full: "torn 52 (enc_checkpoint_slot ?N) (slot_at (1 - ?a) j) = enc_checkpoint_slot ?N"
    using lj a by (simp add: torn_def slot_at_def codec_simps)
  have "journal_at ?u h fs ?j'"
  proof -
    have u: "w_active_checkpoint_slot ?u = 1 - ?a" "w_checkpoint_generation ?u = w_checkpoint_generation w + 1"
      using idx(1) by simp_all
    have g': "w_checkpoint_generation w < w_checkpoint_generation w + 1" and "ck_generation ?N = w_checkpoint_generation w + 1"
      using b unfolding checkpoint_bounds_def by (auto intro: next_generation simp: next_slot_def)
    then show ?thesis
      unfolding journal_at_def Let_def u idx(2) slots(1,2) full ckc.dec_enc
      using new idx(3) slots(3) act by (auto simp: slot_commits_def)
  qed
  moreover have "writer_at ?u h fs" using at by (simp add: writer_at_def)
  moreover have "w_path w \<noteq> ?jp" using at by (simp add: writer_at_def)
  ultimately have "writer_disk ?u (os_files s') h fs (length fs)"
    using rest len other [of "w_path w"] j' by (simp add: writer_disk_def)
  then show "writer_disk w' (os_files s') h fs (length fs)"
    using w' stats_only_cursors same_cursors_disk unfolding committed_writer_def by blast
qed

lemma acknowledge_files:
  assumes "acknowledge ack q s = (code, s')" and "p \<noteq> ack"
  shows "os_files s' p = os_files s p"
proof -
  obtain r s1 where pw: "pwrite ack (le 8 q) 0 s = (r, s1)" by force
  have "os_files s1 p = os_files s p"
    using pw assms(2) by (auto simp: pwrite_def set_file_def split: prod.splits outcome.splits dest!: next_outcome_files)
  then show ?thesis
    using assms(1) pw by (auto simp: acknowledge_def split: prod.splits if_splits dest!: sync_file_disk simp: synced_disk_def)
qed

text \<open>
  The state after a commit the caller was told of: the cursors go on from the whole log, and
  log and journal hold on stable storage what they hold now.
\<close>

definition durably_committed :: "writer \<Rightarrow> writer \<Rightarrow> os \<Rightarrow> persisted_file_header \<Rightarrow> log_frame list \<Rightarrow> bool" where
  "durably_committed w w' s' h fs \<longleftrightarrow> writer_disk w' (os_files s') h fs (length fs) \<and>
     w_unsynced_batches w' = 0 \<and> w_failed w' = w_failed w \<and> w_fd_open w' = w_fd_open w \<and>
     w_pending_commit_fault w' = NoFault \<and> w_path w' = w_path w \<and> w_options w' = w_options w \<and>
     w_journal_path w' = w_journal_path w \<and> w_fault_config w' = w_fault_config w \<and>
     w_recorder_start_time_us w' = w_recorder_start_time_us w \<and>
     w_checkpoint_generation w' = w_checkpoint_generation w + 1 \<and>
     os_synced s' (w_path w) = os_files s' (w_path w) \<and>
     os_synced s' (w_journal_path w) = os_files s' (w_journal_path w)"

lemma commit_exit_code: "commit_checkpoint w s = (Exits c, w', s') \<Longrightarrow> c \<in> {85, 86, 87, 88, 89}"
  by (auto simp: commit_checkpoint_def Let_def split: prod.splits if_splits)

text \<open>What \<open>flush\<close> does after the commit returned.\<close>

definition after_commit :: "bool call \<Rightarrow> writer \<Rightarrow> os \<Rightarrow> bool call \<times> writer \<times> os" where
  "after_commit r2 w2 s2 = (case r2 of
       Exits code \<Rightarrow> (Exits code, w2, s2)
     | Returns ok2 \<Rightarrow>
     if \<not> ok2 then (Returns False, record_failure w2, s2)
     else if w_pending_commit_fault w2 = CrashAfterJournalSync then
       (case fc_acknowledgement_fd (w_fault_config w2) of
          None \<Rightarrow> (Exits 90, w2, s2)
        | Some ack \<Rightarrow> (case acknowledge ack (w_last_written_sequence w2) s2 of
            (code, s3) \<Rightarrow> (Exits code, w2, s3)))
     else
       (Returns True,
        (if w_pending_commit_fault w2 \<noteq> NoFault then w2\<lparr>w_fault_injected := True\<rparr> else w2)
          \<lparr>w_pending_commit_fault := NoFault, w_unsynced_batches := 0\<rparr>, s2))"

lemma after_commit_safe:
  assumes a: "after_commit r2 w2 s2 = (r, w', s')" and r2: "r2 = Returns True"
    and w2: "committed_writer w1 w2" and disk: "writer_disk w2 (os_files s2) h fs (length fs)"
    and sy: "os_synced s2 (w_path w1) = os_files s2 (w_path w1)"
      "os_synced s2 (w_journal_path w1) = os_files s2 (w_journal_path w1)"
    and ack: "\<And>a. fc_acknowledgement_fd (w_fault_config w2) = Some a \<Longrightarrow> a \<noteq> w_path w1 \<and> a \<noteq> w_journal_path w1"
  shows "restores (w_path w1) s' h fs" and "r = Returns True \<Longrightarrow> durably_committed w1 w' s' h fs"
proof -
  note same = stats_only_fields [OF w2 [unfolded committed_writer_def], simplified]
  have chain: "chain_ok None (fs @ [])" and log: "os_files s2 (w_path w2) = Some (enc_file_header h @ enc_frames fs @ take 0 (enc_frames []))"
    using disk by (auto simp: writer_disk_def)
  have all: "restores (w_path w2) s h fs" if "os_files s (w_path w2) = os_files s2 (w_path w2)"
      "os_files s (w_journal_path w2) = os_files s2 (w_journal_path w2)" for s
    using writer_disk_restores [OF disk chain, of s 0] that log by simp
  show "restores (w_path w1) s' h fs"
  proof (cases "w_pending_commit_fault w2 = CrashAfterJournalSync \<and> fc_acknowledgement_fd (w_fault_config w2) \<noteq> None")
    case True
    then obtain a code where ak: "fc_acknowledgement_fd (w_fault_config w2) = Some a"
      "acknowledge a (w_last_written_sequence w2) s2 = (code, s')"
      using assms(1) r2 by (auto simp: after_commit_def split: prod.splits)
    from all [of s'] acknowledge_files [OF ak(2), of "w_path w1"]
      acknowledge_files [OF ak(2), of "w_journal_path w1"] ack [OF ak(1)] show ?thesis by (auto simp: same)
  next
    case False
    then have "s' = s2" using assms(1) r2 by (auto simp: after_commit_def split: if_splits)
    with all [of s2] show ?thesis by (simp add: same)
  qed
  assume "r = Returns True"
  then have w': "w' = (if w_pending_commit_fault w2 \<noteq> NoFault then w2\<lparr>w_fault_injected := True\<rparr> else w2)
          \<lparr>w_pending_commit_fault := NoFault, w_unsynced_batches := 0\<rparr>" and s': "s' = s2"
    using assms(1) r2 by (auto simp: after_commit_def split: if_splits prod.splits option.splits)
  have "same_cursors w2 w'" unfolding w' by (simp add: same_cursors_def)
  then show "durably_committed w1 w' s' h fs"
    using disk sy same_cursors_disk by (auto simp: durably_committed_def s' w' same)
qed

text \<open>The acknowledgement file is neither the log nor the journal.\<close>

definition ack_apart :: "writer \<Rightarrow> bool" where
  "ack_apart w \<longleftrightarrow> (\<forall>a. fc_acknowledgement_fd (w_fault_config w) = Some a \<longrightarrow>
     a \<noteq> w_path w \<and> a \<noteq> w_journal_path w)"

lemma flush_safe:
  assumes disk: "writer_disk w (os_files s) h fs n" and b: "checkpoint_bounds w"
    and ack: "ack_apart w" and f: "flush w s = (r, w', s')"
  shows "restores (w_path w) s' h (take n fs) \<or> restores (w_path w) s' h fs"
    and "r = Exits 90 \<Longrightarrow> restores (w_path w) s' h fs"
    and "r = Returns True \<Longrightarrow> w_unsynced_batches w \<noteq> 0 \<Longrightarrow> durably_committed w w' s' h fs"
    and "r = Returns True \<Longrightarrow> w_unsynced_batches w = 0 \<Longrightarrow> w' = w \<and> s' = s"
proof -
  let ?P = "\<lambda>s'. restores (w_path w) s' h (take n fs) \<or> restores (w_path w) s' h fs"
  have chain: "chain_ok None (fs @ [])" and log: "os_files s (w_path w) = Some (enc_file_header h @ enc_frames fs @ take 0 (enc_frames []))"
    and paths: "w_path w \<noteq> w_journal_path w"
    using disk by (auto simp: writer_disk_def writer_at_def)
  obtain ok1 w1 s1 where sm: "sync_main_file w s = (ok1, w1, s1)" by (metis prod_cases3)
  obtain r2 w2 s2 where cm: "commit_checkpoint w1 s1 = (r2, w2, s2)" by (metis prod_cases3)
  note sy = sync_main_file_effect [OF sm]
  from sy(1) have files1: "os_files s1 = os_files s" by (simp add: synced_disk_def)
  have base: "restores (w_path w) s h (take n fs)"
    by (rule writer_disk_restores [OF disk chain log]) simp
  have base1: "restores (w_path w) s1 h (take n fs)"
    by (rule writer_disk_restores [OF disk chain]) (simp_all add: files1 log)
  consider (closed) "\<not> w_fd_open w \<or> w_failed w" | (idle) "w_fd_open w" "\<not> w_failed w" "w_unsynced_batches w = 0"
    | (crash) "w_fd_open w" "\<not> w_failed w" "w_unsynced_batches w \<noteq> 0" "w_pending_commit_fault w = CrashBeforeMainLogSync"
    | (nosync) "w_fd_open w" "\<not> w_failed w" "w_unsynced_batches w \<noteq> 0" "w_pending_commit_fault w \<noteq> CrashBeforeMainLogSync" "\<not> ok1"
    | (commit) "w_fd_open w" "\<not> w_failed w" "w_unsynced_batches w \<noteq> 0" "w_pending_commit_fault w \<noteq> CrashBeforeMainLogSync" ok1
    by blast
  then have "?P s' \<and> (r = Exits 90 \<longrightarrow> restores (w_path w) s' h fs) \<and>
      (r = Returns True \<longrightarrow> w_unsynced_batches w \<noteq> 0 \<longrightarrow> durably_committed w w' s' h fs) \<and>
      (r = Returns True \<longrightarrow> w_unsynced_batches w = 0 \<longrightarrow> w' = w \<and> s' = s)"
  proof cases
    case commit
    then have fl: "after_commit r2 w2 s2 = (r, w', s')" using f by (simp add: flush_def sm cm after_commit_def)
    have w1: "stats_only w w1" using sy(2) commit by blast
    note same1 = stats_only_fields [OF w1]
    have disk1: "writer_disk w1 (os_files s1) h fs n" and b1: "checkpoint_bounds w1"
      using disk b stats_only_cursors [OF w1] by (simp_all add: same_cursors_disk same_cursors_bounds files1)
    from disk1 obtain j where j: "os_files s1 (w_journal_path w1) = Some j" "journal_at w1 h (take n fs) j"
      by (auto simp: writer_disk_def)
    then have "length j = 104" "w_active_checkpoint_slot w1 < 2" by (auto simp: journal_at_def)
    from commit_checkpoint_effect [OF cm j(1) this] obtain k where
      cd: "commit_disk k w1 j s1 s2" and ok2: "r2 = Returns True \<Longrightarrow> committed_writer w1 w2"
      by auto
    have g: "w_checkpoint_generation w1 \<noteq> - 1"
      using b1 next_generation(2) [of "w_checkpoint_generation w1"] by (auto simp: checkpoint_bounds_def)
    note cr = commit_disk_restores [OF disk1 b1 j(1) cd g]
    show ?thesis
    proof (cases "r2 = Returns True")
      case False
      have "s' = s2" "r \<noteq> Returns True" "r \<noteq> Exits 90"
        using fl False commit_exit_code [of w1 s1 _ w2 s2] cm
        by (cases r2; auto simp: after_commit_def)+
      then show ?thesis using cr(1) same1 by simp
    next
      case True
      note cs = commit_success [OF disk1 b1 cm [unfolded True]]
      note w2 = ok2 [OF True]
      note same2 = stats_only_fields [OF w2 [unfolded committed_writer_def], simplified]
      have "os_synced s1 (w_path w1) = os_files s1 (w_path w1)"
        using sy(1) commit log same1 by (simp add: synced_disk_def file_bytes_some)
      then have s2: "os_synced s2 (w_path w1) = os_files s2 (w_path w1)"
        using cs(3) [of "w_path w1"] paths same1 by simp
      note ac = after_commit_safe [OF fl True w2 cs(1) s2 cs(2)]
      have "restores (w_path w) s' h fs" "r = Returns True \<Longrightarrow> durably_committed w w' s' h fs"
        using ac ack same1 same2 by (simp_all add: durably_committed_def ack_apart_def)
      then show ?thesis using commit by blast
    qed
  qed (use f base base1 in \<open>auto simp: flush_def sm\<close>)
  then show "restores (w_path w) s' h (take n fs) \<or> restores (w_path w) s' h fs"
    and "r = Exits 90 \<Longrightarrow> restores (w_path w) s' h fs"
    and "r = Returns True \<Longrightarrow> w_unsynced_batches w \<noteq> 0 \<Longrightarrow> durably_committed w w' s' h fs"
    and "r = Returns True \<Longrightarrow> w_unsynced_batches w = 0 \<Longrightarrow> w' = w \<and> s' = s"
    by blast+
qed

section \<open>Appending a batch\<close>

definition same_session :: "writer \<Rightarrow> writer \<Rightarrow> bool" where
  "same_session w w' \<longleftrightarrow> w_path w' = w_path w \<and> w_journal_path w' = w_journal_path w \<and>
     w_fd_open w' = w_fd_open w \<and> w_failed w' = w_failed w \<and> w_options w' = w_options w \<and>
     w_fault_config w' = w_fault_config w \<and> w_recorder_start_time_us w' = w_recorder_start_time_us w \<and>
     w_checkpoint_generation w' = w_checkpoint_generation w"

lemma durably_committed_session:
  "same_session w w1 \<Longrightarrow> durably_committed w1 w' s' h fs = durably_committed w w' s' h fs"
  by (simp add: same_session_def durably_committed_def)

lemma batch_written_session: "same_session w (batch_written records w)"
  by (simp add: same_session_def batch_written_def bump_stats_def)

lemma length_batch_frames [simp]: "length (batch_frames records) = length records"
  by (simp add: batch_frames_def)

lemma batch_written_disk:
  assumes disk: "writer_disk w files h fs n" and chain: "chain_ok None (fs @ batch_frames records)"
    and len: "24 + 84 * (length fs + length records) < 2 ^ 64" and ne: "records \<noteq> []"
    and log: "files' (w_path w) = Some (enc_file_header h @ enc_frames (fs @ batch_frames records))"
    and j: "files' (w_journal_path w) = files (w_journal_path w)"
  shows "writer_disk (batch_written records w) files' h (fs @ batch_frames records) n"
proof -
  let ?w = "batch_written records w"
  have last: "sq_sequence (last records) = seq_or_0 (fs @ batch_frames records)"
    using ne by (simp add: seq_or_0_def batch_frames_def last_map)
  have "writer_at ?w h (fs @ batch_frames records)"
    using disk last by (auto simp: writer_disk_def writer_at_def batch_written_def bump_stats_def)
  moreover have "journal_at ?w h cs jb = journal_at w h cs jb" for cs jb
    by (simp add: journal_at_def batch_written_def bump_stats_def)
  moreover have "w_path ?w = w_path w" "w_journal_path ?w = w_journal_path w"
    using batch_written_session [of w records] by (simp_all add: same_session_def)
  ultimately show ?thesis
    using disk chain len log j by (auto simp: writer_disk_def)
qed

lemma prealloc_cursors: "same_cursors w (w\<lparr>w_stats := st, w_preallocated_end := e\<rparr>)"
  "same_session w (w\<lparr>w_stats := st, w_preallocated_end := e\<rparr>)"
  by (simp_all add: same_cursors_def same_session_def)

lemma after_batch_safe:
  assumes disk: "writer_disk w (os_files s) h fs n" and b: "checkpoint_bounds w"
    and ack: "ack_apart w"
    and u: "w_unsynced_batches w \<noteq> 0" and a: "after_batch armed w s = (r, w', s')"
  shows "restores (w_path w) s' h (take n fs) \<or> restores (w_path w) s' h fs"
    and "r = Exits 90 \<Longrightarrow> restores (w_path w) s' h fs"
    and "r = Returns True \<Longrightarrow> wo_sync_every_batches (w_options w) \<le> w_unsynced_batches w \<Longrightarrow> durably_committed w w' s' h fs"
    and "r = Returns True \<Longrightarrow> \<not> wo_sync_every_batches (w_options w) \<le> w_unsynced_batches w \<Longrightarrow>
      writer_disk w' (os_files s') h fs n \<and> w_unsynced_batches w' = w_unsynced_batches w \<and> same_session w w'"
proof -
  let ?m = "fc_mode (w_fault_config w)"
  let ?w1 = "if armed then w\<lparr>w_pending_commit_fault := ?m\<rparr> else w"
  have chain: "chain_ok None (fs @ [])" and log: "os_files s (w_path w) = Some (enc_file_header h @ enc_frames fs @ take 0 (enc_frames []))"
    using disk by (auto simp: writer_disk_def)
  have base: "restores (w_path w) s h (take n fs)"
    by (rule writer_disk_restores [OF disk chain log]) simp
  have cur: "same_cursors w ?w1" and ses: "same_session w ?w1" and u1: "w_unsynced_batches ?w1 = w_unsynced_batches w"
    by (simp_all add: same_cursors_def same_session_def)
  have disk1: "writer_disk ?w1 (os_files s) h fs n" and b1: "checkpoint_bounds ?w1"
    using disk b same_cursors_disk [OF cur] same_cursors_bounds [OF cur] by simp_all
  have same: "w_path ?w1 = w_path w" "w_journal_path ?w1 = w_journal_path w" "w_options ?w1 = w_options w"
    "w_fault_config ?w1 = w_fault_config w"
    using ses by (simp_all add: same_session_def)
  consider (crash) "armed \<and> (?m = CrashAfterMainLogWrite \<or> ?m = DropCommit)"
    | (flush) "\<not> (armed \<and> (?m = CrashAfterMainLogWrite \<or> ?m = DropCommit))" "wo_sync_every_batches (w_options w) \<le> w_unsynced_batches w"
    | (later) "\<not> (armed \<and> (?m = CrashAfterMainLogWrite \<or> ?m = DropCommit))" "\<not> wo_sync_every_batches (w_options w) \<le> w_unsynced_batches w"
    by blast
  then have "(restores (w_path w) s' h (take n fs) \<or> restores (w_path w) s' h fs) \<and>
    (r = Exits 90 \<longrightarrow> restores (w_path w) s' h fs) \<and>
    (r = Returns True \<longrightarrow> wo_sync_every_batches (w_options w) \<le> w_unsynced_batches w \<longrightarrow> durably_committed w w' s' h fs) \<and>
    (r = Returns True \<longrightarrow> \<not> wo_sync_every_batches (w_options w) \<le> w_unsynced_batches w \<longrightarrow>
      writer_disk w' (os_files s') h fs n \<and> w_unsynced_batches w' = w_unsynced_batches w \<and> same_session w w')"
  proof cases
    case crash
    then have "s' = s" "r \<noteq> Returns True" "r \<noteq> Exits 90"
      using a by (auto simp: after_batch_def Let_def split: if_splits)
    with base show ?thesis by blast
  next
    case flush
    then have f: "flush ?w1 s = (r, w', s')"
      using a by (auto simp: after_batch_def Let_def split: if_splits)
    have "ack_apart ?w1" using ack unfolding ack_apart_def same .
    note safe = flush_safe [OF disk1 b1 this f, unfolded same u1 durably_committed_session [OF ses]]
    show ?thesis
      by (intro conjI impI) (assumption | rule safe(1) safe(2) safe(3) [OF _ u] | simp add: flush(2))+
  next
    case later
    then have "after_batch armed w s = (Returns True, ?w1, s)"
      unfolding after_batch_def Let_def same u1 by (cases armed) simp_all
    with a have res: "r = Returns True" "w' = ?w1" "s' = s" by simp_all
    show ?thesis unfolding res using base disk1 u1 ses later(2) by blast
  qed
  then show "restores (w_path w) s' h (take n fs) \<or> restores (w_path w) s' h fs"
    and "r = Exits 90 \<Longrightarrow> restores (w_path w) s' h fs"
    and "r = Returns True \<Longrightarrow> wo_sync_every_batches (w_options w) \<le> w_unsynced_batches w \<Longrightarrow> durably_committed w w' s' h fs"
    and "r = Returns True \<Longrightarrow> \<not> wo_sync_every_batches (w_options w) \<le> w_unsynced_batches w \<Longrightarrow>
      writer_disk w' (os_files s') h fs n \<and> w_unsynced_batches w' = w_unsynced_batches w \<and> same_session w w'"
    by blast+
qed


lemma preallocated_disk:
  assumes "ensure_preallocated m w s = (ok, w1, s1)" and "writer_disk w (os_files s) h fs n"
  shows "writer_disk w1 (os_files s1) h fs n" and "same_cursors w w1" and "same_session w w1"
    and "w_unsynced_batches w1 = w_unsynced_batches w" and "os_files s1 = os_files s"
proof -
  from ensure_preallocated_effect [OF assms(1)] obtain st e where
    w1: "w1 = w\<lparr>w_stats := st, w_preallocated_end := e\<rparr>" and s1: "same_disk s s1" by blast
  show cur: "same_cursors w w1" "same_session w w1" unfolding w1 by (rule prealloc_cursors)+
  show "os_files s1 = os_files s" using s1 by (simp add: same_disk_def)
  then show "writer_disk w1 (os_files s1) h fs n" using assms(2) same_cursors_disk [OF cur(1)] by simp
  show "w_unsynced_batches w1 = w_unsynced_batches w" unfolding w1 by simp
qed

text \<open>A write at the end of the log appends a prefix of the batch.\<close>

lemma appended_bytes:
  assumes "wrote (w_path w) (w_logical_end w) k (take p (serialize_batch records)) s s'"
    and "writer_disk w (os_files s) h fs n"
  shows "os_files s' (w_path w) = Some (enc_file_header h @ enc_frames fs @
      take (min k p) (enc_frames (batch_frames records)))"
    and "os_files s' (w_journal_path w) = os_files s (w_journal_path w)"
proof -
  have "w_path w \<noteq> w_journal_path w" and at: "w_logical_end w = 24 + 84 * length fs"
    and log: "os_files s (w_path w) = Some (enc_file_header h @ enc_frames fs)"
    using assms(2) by (auto simp: writer_disk_def writer_at_def)
  then show "os_files s' (w_journal_path w) = os_files s (w_journal_path w)"
    using assms(1) by (simp add: wrote_def only_file_def)
  have "length (enc_file_header h @ enc_frames fs) = w_logical_end w" by (simp add: at codec_simps)
  then show "os_files s' (w_path w) = Some (enc_file_header h @ enc_frames fs @
      take (min k p) (enc_frames (batch_frames records)))"
    using assms(1) log overwrite_end [of "w_logical_end w" "enc_file_header h @ enc_frames fs"]
    by (auto simp: wrote_def serialize_batch_def)
qed

text \<open>
  Whatever happens while a batch is written, recovery restores either the committed frames alone
  or all frames with the whole batch; the log is never left with a part of a batch.
\<close>

definition batch_outcome :: "sequenced_record list \<Rightarrow> writer \<Rightarrow> persisted_file_header \<Rightarrow> log_frame list \<Rightarrow> nat \<Rightarrow>
    bool call \<Rightarrow> writer \<Rightarrow> os \<Rightarrow> bool" where
  "batch_outcome records w h fs n r w' s' \<longleftrightarrow>
     (restores (w_path w) s' h (take n fs) \<or> restores (w_path w) s' h (fs @ batch_frames records)) \<and>
     (r = Exits 90 \<longrightarrow> restores (w_path w) s' h (fs @ batch_frames records)) \<and>
     (r = Returns True \<longrightarrow>
       (if wo_sync_every_batches (w_options w) \<le> w_unsynced_batches w + 1
        then durably_committed w w' s' h (fs @ batch_frames records)
        else writer_disk w' (os_files s') h (fs @ batch_frames records) n \<and>
             w_unsynced_batches w' = w_unsynced_batches w + 1 \<and> same_session w w'))"

lemma write_batch_safe:
  assumes disk: "writer_disk w (os_files s) h fs n" and b: "checkpoint_bounds w"
    and ack: "ack_apart w"
    and chain: "chain_ok None (fs @ batch_frames records)"
    and len: "24 + 84 * (length fs + length records) < 2 ^ 64" and ne: "records \<noteq> []"
    and wb: "write_batch records w s = (r, w', s')"
  shows "batch_outcome records w h fs n r w' s'"
proof -
  let ?m = "fc_mode (w_fault_config w)" and ?armed = "fault_armed records w"
  let ?B = "batch_frames records" and ?bytes = "length records * kPersistedRecordSize"
  obtain ok1 w1 s1 where pre: "ensure_preallocated ?bytes w s = (ok1, w1, s1)" by (metis prod_cases3)
  note p = preallocated_disk [OF pre disk]
  have same: "w_path w1 = w_path w" "w_journal_path w1 = w_journal_path w" "w_options w1 = w_options w"
    "w_fault_config w1 = w_fault_config w"
    using p(3) by (simp_all add: same_session_def)
  have cut: "restores (w_path w) sx h (take n fs)"
    if "\<exists>k. os_files sx (w_path w) = Some (enc_file_header h @ enc_frames fs @ take k (enc_frames ?B))"
      "os_files sx (w_journal_path w) = os_files s (w_journal_path w)" for sx
    using writer_disk_restores [OF disk chain] that by blast
  have log0: "os_files s (w_path w) = Some (enc_file_header h @ enc_frames fs @ take 0 (enc_frames ?B))"
    and jf: "\<exists>c. os_files s (w_path w) = Some c \<and> w_logical_end w \<le> length c"
    using disk by (auto simp: writer_disk_def writer_at_def codec_simps)
  have stopped: "batch_outcome records w h fs n r w' s'"
    if "\<exists>k. os_files s' (w_path w) = Some (enc_file_header h @ enc_frames fs @ take k (enc_frames ?B))"
      "os_files s' (w_journal_path w) = os_files s (w_journal_path w)" "r \<noteq> Returns True" "r \<noteq> Exits 90"
    using cut [OF that(1,2)] that(3,4) by (simp add: batch_outcome_def)
  consider (before) "?armed \<and> ?m = CrashBeforeMainLogWrite" | (noalloc) "\<not> (?armed \<and> ?m = CrashBeforeMainLogWrite)" "\<not> ok1"
    | (during) "?armed \<and> ?m = CrashDuringMainLogWrite" ok1
    | (go) "\<not> (?armed \<and> (?m = CrashBeforeMainLogWrite \<or> ?m = CrashDuringMainLogWrite))" ok1
    by blast
  then show ?thesis
  proof cases
    case before
    then show ?thesis using wb log0 by (intro stopped) (auto simp: write_batch_def Let_def)
  next
    case noalloc
    then have "s' = s1" "r = Returns False" using wb pre by (auto simp: write_batch_def Let_def split: if_splits)
    then show ?thesis using log0 p(5) by (intro stopped) auto
  next
    case during
    let ?p = "min (?bytes - 1) (if fc_partial_write_bytes (w_fault_config w) = 0 then ?bytes div 2
                         else fc_partial_write_bytes (w_fault_config w))"
    let ?w1 = "w1\<lparr>w_fault_injected := True\<rparr>"
    obtain ok2 w2 s2 where wr: "write_at_full (w_path w1) (take ?p (serialize_batch records)) (w_logical_end w1) True ?w1 s1 = (ok2, w2, s2)"
      by (metis prod_cases3)
    obtain ok3 w3 s3 where sy: "sync_main_file w2 s2 = (ok3, w3, s3)" by (metis prod_cases3)
    have res: "r = Exits 92" "s' = s3"
      using wb pre during wr sy by (auto simp: write_batch_def Let_def simp del: kPersistedRecordSize_def)
    from jf p(2,5) obtain c where "os_files s1 (w_path w1) = Some c" "w_logical_end w1 \<le> length c"
      by (auto simp: same_cursors_def)
    from write_at_full_wrote [OF wr this] obtain k where
      "wrote (w_path w1) (w_logical_end w1) k (take ?p (serialize_batch records)) s1 s2" by blast
    from appended_bytes [OF this p(1)] same p(5) sync_main_file_effect(1) [OF sy] res show ?thesis
      by (intro stopped) (auto simp: synced_disk_def)
  next
    case go
    obtain ok2 w2 s2 where wr: "write_at_full (w_path w1) (serialize_batch records) (w_logical_end w1) True w1 s1 = (ok2, w2, s2)"
      by (metis prod_cases3)
    from jf p(2,5) obtain c where "os_files s1 (w_path w1) = Some c" "w_logical_end w1 \<le> length c"
      by (auto simp: same_cursors_def)
    from write_at_full_wrote [OF wr this] obtain k where
      k: "wrote (w_path w1) (w_logical_end w1) k (serialize_batch records) s1 s2" "ok2 \<longrightarrow> k = length (serialize_batch records)"
      and st: "stats_only w1 w2" by blast
    have full: "take (length (serialize_batch records)) (serialize_batch records) = serialize_batch records" by simp
    from appended_bytes [of w1 k "length (serialize_batch records)" records s1 s2 h fs n] k(1) p(1)
    have file2: "os_files s2 (w_path w) = Some (enc_file_header h @ enc_frames fs @ take k (enc_frames ?B))"
      and j2: "os_files s2 (w_journal_path w) = os_files s (w_journal_path w)"
      using k(1) p(5) same by (auto simp: full wrote_def min_def serialize_batch_def)
    show ?thesis
    proof (cases ok2)
      case False
      then have "s' = s2" "r = Returns False" using wb pre go wr by (auto simp: write_batch_def Let_def split: if_splits)
      then show ?thesis using file2 j2 by (intro stopped) auto
    next
      case True
      let ?w3 = "batch_written records w2"
      have ab: "after_batch ?armed ?w3 s2 = (r, w', s')"
        using wb pre go wr True by (auto simp: write_batch_def Let_def split: if_splits)
      have ses: "same_session w ?w3" and un: "w_unsynced_batches ?w3 = w_unsynced_batches w + 1"
        using p(3,4) stats_only_fields [OF st] batch_written_session [of w2 records]
        by (simp_all add: same_session_def batch_written_def bump_stats_def)
      have disk2: "writer_disk w2 (os_files s1) h fs n"
        using p(1) same_cursors_disk [OF stats_only_cursors [OF st]] by simp
      have "os_files s2 (w_path w2) = Some (enc_file_header h @ enc_frames (fs @ ?B))"
        using file2 k(2) True stats_only_fields(1) [OF st] same(1) by (simp add: serialize_batch_def)
      moreover have "os_files s2 (w_journal_path w2) = os_files s1 (w_journal_path w2)"
        using j2 p(5) stats_only_fields(2) [OF st] same(2) by simp
      ultimately have disk3: "writer_disk ?w3 (os_files s2) h (fs @ ?B) n"
        by (rule batch_written_disk [OF disk2 chain len ne])
      have b3: "checkpoint_bounds ?w3"
        using b p(2) stats_only_fields [OF st] by (simp add: checkpoint_bounds_def batch_written_def bump_stats_def same_cursors_def)
      have f: "w_path ?w3 = w_path w" "w_journal_path ?w3 = w_journal_path w" "w_options ?w3 = w_options w"
        "w_fault_config ?w3 = w_fault_config w"
        using ses by (simp_all add: same_session_def)
      have ack3: "ack_apart ?w3" using ack unfolding ack_apart_def f .
      note safe = after_batch_safe [OF disk3 b3 ack3 _ ab, unfolded f un durably_committed_session [OF ses]]
      have "take n (fs @ ?B) = take n fs" using disk by (simp add: writer_disk_def)
      moreover have "same_session ?w3 w' \<Longrightarrow> same_session w w'" using ses by (simp add: same_session_def)
      ultimately show ?thesis
        unfolding batch_outcome_def using safe by auto
    qed
  qed
qed

lemma append_batch_safe:
  assumes disk: "writer_disk w (os_files s) h fs n" and b: "checkpoint_bounds w"
    and ack: "ack_apart w"
    and chain: "chain_ok None (fs @ batch_frames records)"
    and len: "24 + 84 * (length fs + length records) < 2 ^ 64" and op: "w_fd_open w"
    and ab: "append_batch records w s = (r, w', s')"
  shows "batch_outcome records w h fs n r w' s'"
proof -
  have "chain_ok None (fs @ [])" and "os_files s (w_path w) = Some (enc_file_header h @ enc_frames fs @ take 0 (enc_frames []))"
    using disk by (auto simp: writer_disk_def)
  from writer_disk_restores [OF disk this] have base: "restores (w_path w) s h (take n fs)" by simp
  consider "s' = s" "r = Returns False" | "records \<noteq> []" "write_batch records w s = (r, w', s')"
    using ab op by (auto simp: append_batch_def open_writer_def split: if_splits)
  then show ?thesis
  proof cases
    case 1
    with base show ?thesis by (simp add: batch_outcome_def)
  next
    case 2
    show ?thesis by (rule write_batch_safe [OF disk b ack chain len 2])
  qed
qed

section \<open>Calls that do not fail\<close>

lemma next_elapsed_calm: "\<exists>e s'. next_elapsed s = (e, s') \<and> os_script s' = os_script s \<and> same_disk s s'"
  by (cases "os_elapsed s") (simp_all add: next_elapsed_def same_disk_def)

lemma write_at_full_calm:
  assumes "os_script s = []" and "data \<noteq> []"
  shows "\<exists>w' s'. write_at_full p data off c w s = (True, w', s') \<and> os_script s' = [] \<and> stats_only w w' \<and>
    same_disk (set_file p (overwrite (file_bytes p s) off data) s) s'"
proof -
  let ?s1 = "set_file p (overwrite (file_bytes p s) off data) s"
  obtain e s2 where el: "next_elapsed ?s1 = (e, s2)" "os_script s2 = os_script ?s1" "same_disk ?s1 s2"
    using next_elapsed_calm by blast
  from assms show ?thesis
    by (subst write_at_full.simps) (simp add: os_simps el Let_def write_at_full.simps [of p "[]"] stats_only_bumped)
qed

lemma sync_main_calm:
  assumes "os_script s = []"
  shows "\<exists>w' s'. sync_main_file w s = (True, w', s') \<and> os_script s' = [] \<and> stats_only w w' \<and>
    synced_disk True (w_path w) s s'"
proof -
  let ?s1 = "s\<lparr>os_synced := (os_synced s)(w_path w \<mapsto> file_bytes (w_path w) s)\<rparr>"
  obtain e s2 where el: "next_elapsed ?s1 = (e, s2)" "os_script s2 = os_script ?s1"
    using next_elapsed_calm by blast
  have "\<exists>w'. sync_main_file w s = (True, w', s2)"
    using assms by (simp add: sync_main_file_def os_simps el Let_def)
  then obtain w' where r: "sync_main_file w s = (True, w', s2)" by blast
  with sync_main_file_effect [OF r] el(2) assms show ?thesis by auto
qed

lemma same_disk_set: "same_disk (set_file p c s) s' \<Longrightarrow>
    os_files s' = (os_files s)(p \<mapsto> c) \<and> os_synced s' = os_synced s \<and> os_now s' = os_now s \<and> os_keep_size s' = os_keep_size s"
  by (simp add: same_disk_def set_file_def)

text \<open>The writer as it is after a successful \<open>open_writer\<close>.\<close>

definition opened :: "writer \<Rightarrow> writer \<Rightarrow> bool" where
  "opened w w' \<longleftrightarrow> w_fd_open w' \<and> w_journal_fd_open w' \<and> \<not> w_failed w' \<and> w_unsynced_batches w' = 0 \<and>
     w_pending_commit_fault w' = NoFault \<and> \<not> w_fault_injected w' \<and> w_path w' = w_path w \<and>
     w_options w' = w_options w \<and> w_fault_config w' = w_fault_config w"

lemma start_new_log_calm:
  assumes "os_script s = []" and "os_files s (w_path w) = Some []"
  shows "\<exists>w' s'. start_new_log w s = (True, w', s') \<and> os_script s' = [] \<and>
    stats_only (w\<lparr>w_recorder_start_time_us := os_now s, w_logical_end := 24\<rparr>) w' \<and>
    os_files s' = (os_files s)(w_path w \<mapsto> enc_file_header (new_file_header (os_now s))) \<and>
    os_synced s' = (os_synced s)(w_path w \<mapsto> enc_file_header (new_file_header (os_now s))) \<and> os_now s' = os_now s"
proof -
  let ?e = "enc_file_header (new_file_header (os_now s))" and ?w = "w\<lparr>w_recorder_start_time_us := os_now s\<rparr>"
  have "?e \<noteq> []" using fhc.enc_length [of "new_file_header (os_now s)"] by auto
  from write_at_full_calm [OF assms(1) this, of "w_path w" 0 False ?w] obtain w1 s1 where
    wr: "write_at_full (w_path w) ?e 0 False ?w s = (True, w1, s1)" "os_script s1 = []" "stats_only ?w w1"
      "same_disk (set_file (w_path w) ?e s) s1"
    using assms(2) by (auto simp: file_bytes_some overwrite_start)
  have path: "w_path w1 = w_path w" using stats_only_fields(1) [OF wr(3)] by simp
  obtain w2 s2 where sy: "sync_main_file (w1\<lparr>w_logical_end := sizeof_file_header\<rparr>) s1 = (True, w2, s2)"
    "os_script s2 = []" "stats_only (w1\<lparr>w_logical_end := sizeof_file_header\<rparr>) w2" "synced_disk True (w_path w) s1 s2"
    using sync_main_calm [OF wr(2), of "w1\<lparr>w_logical_end := sizeof_file_header\<rparr>"] path by auto
  obtain st where w1: "w1 = ?w\<lparr>w_stats := st\<rparr>" using wr(3) unfolding stats_only_def by blast
  have "stats_only (w\<lparr>w_recorder_start_time_us := os_now s, w_logical_end := 24\<rparr>) w2"
    using sy(3) unfolding w1 by (simp add: stats_only_def)
  then show ?thesis
    using wr sy same_disk_set [OF wr(4)]
    by (simp add: start_new_log_def write_file_header_def synced_disk_def file_bytes_some)
qed

lemma commit_calm:
  assumes "os_script s = []" and "w_pending_commit_fault w \<in> {NoFault, CrashAfterJournalSync}"
    and "w_checkpoint_generation w \<noteq> - 1" and "os_files s (w_journal_path w) = Some j"
  defines "j' \<equiv> resize 104 (overwrite j (next_slot_index w * 52) (enc_checkpoint_slot (next_slot w)))"
  shows "\<exists>w' s'. commit_checkpoint w s = (Returns True, w', s') \<and> os_script s' = [] \<and> committed_writer w w' \<and>
    os_files s' = (os_files s)(w_journal_path w \<mapsto> j') \<and> os_synced s' = (os_synced s)(w_journal_path w \<mapsto> j') \<and>
    os_now s' = os_now s"
proof -
  let ?e = "enc_checkpoint_slot (next_slot w)" and ?jp = "w_journal_path w"
  have "?e \<noteq> []" using ckc.enc_length [of "next_slot w"] by auto
  from write_at_full_calm [OF assms(1) this, of ?jp "next_slot_index w * 52" False w] obtain w1 s1 where
    wr: "write_at_full ?jp ?e (next_slot_index w * 52) False w s = (True, w1, s1)" "os_script s1 = []" "stats_only w w1"
      "same_disk (set_file ?jp (overwrite j (next_slot_index w * 52) ?e) s) s1"
    using assms(4) by (auto simp: file_bytes_some)
  note d = same_disk_set [OF wr(4)]
  then have j1: "file_bytes ?jp s1 = overwrite j (next_slot_index w * 52) ?e" by (simp add: file_bytes_some)
  have fault: "w_pending_commit_fault w \<notin> {CrashAfterMainLogSync, CrashBeforeCheckpointWrite,
      CrashDuringCheckpointWrite, CrashAfterCheckpointWrite, CrashBeforeJournalSync}"
    using assms(2) by auto
  obtain st where w1: "w1 = w\<lparr>w_stats := st\<rparr>" using wr(3) unfolding stats_only_def by blast
  have gen: "ck_generation (next_slot w) = w_checkpoint_generation w + 1" by (simp add: next_slot_def)
  show ?thesis
    using fault assms(3) wr(1,2) d
    by (simp add: commit_checkpoint_def Let_def os_simps j1 committed_writer_def stats_only_def bump_stats_def w1
        gen j'_def)
qed

lemma first_checkpoint_calm:
  assumes "os_script s = []" and "os_files s (w_journal_path w) = Some []" and "w_logical_end w = 24"
    and "w_pending_commit_fault w = NoFault" and "w_last_written_sequence w = 0"
  defines "j \<equiv> enc_checkpoint_slot (make_slot 1 (w_recorder_start_time_us w) 24 0 0) @ replicate 52 0"
  shows "\<exists>w' s'. load_or_initialize_checkpoint w s = (Returns True, w', s') \<and> os_script s' = [] \<and>
    stats_only (w\<lparr>w_file_record_count := 0, w_checkpoint_generation := 1, w_active_checkpoint_slot := 0\<rparr>) w' \<and>
    os_files s' = (os_files s)(w_journal_path w \<mapsto> j) \<and> os_synced s' = (os_synced s)(w_journal_path w \<mapsto> j) \<and>
    os_now s' = os_now s"
proof -
  let ?w = "w\<lparr>w_file_record_count := 0, w_checkpoint_generation := 0, w_active_checkpoint_slot := 1\<rparr>"
  have slot: "next_slot ?w = make_slot 1 (w_recorder_start_time_us w) 24 0 0" "next_slot_index ?w = 0"
    using assms(3,5) by (simp_all add: next_slot_def next_slot_index_def)
  have j: "resize 104 (overwrite [] (next_slot_index ?w * 52) (enc_checkpoint_slot (next_slot ?w))) = j"
    unfolding slot by (simp add: j_def overwrite_start resize_def codec_simps)
  from commit_calm [of s ?w "[]"] assms(1,2,4) obtain w' s' where
    c: "commit_checkpoint ?w s = (Returns True, w', s')" "os_script s' = []" "committed_writer ?w w'"
    "os_files s' = (os_files s)(w_journal_path w \<mapsto> j)" "os_synced s' = (os_synced s)(w_journal_path w \<mapsto> j)"
    "os_now s' = os_now s"
    unfolding j by auto
  have "load_or_initialize_checkpoint w s = commit_checkpoint ?w s"
    using assms(1-3) by (simp add: load_or_initialize_checkpoint_def os_simps stat_size_def file_bytes_some
        initialize_checkpoint_def Let_def)
  with c show ?thesis unfolding committed_writer_def slot by simp
qed

lemma journal_at_first:
  assumes "w_active_checkpoint_slot w = 0" and "w_checkpoint_generation w = 1"
    and "fh_recorder_start_time_us h = t"
  shows "journal_at w h [] (enc_checkpoint_slot (make_slot 1 t 24 0 0) @ replicate 52 0)"
  using assms by (simp add: journal_at_def slot_at_def codec_simps slot_commits_def seq_or_0_def)

lemma open_new_log:
  assumes "os_script s = []" and "os_files s path = None" and "os_files s (journal_path_for_log path) = None"
    and "path \<noteq> []" and "options_ok options" and w_def: "w = make_writer path faults options"
  shows "\<exists>w' s'. open_writer w s = (Returns True, w', s') \<and> os_script s' = [] \<and> opened w w' \<and>
    w_recorder_start_time_us w' = os_now s \<and> w_checkpoint_generation w' = 1 \<and>
    writer_disk w' (os_files s') (new_file_header (os_now s)) [] 0 \<and>
    os_synced s' path = os_files s' path \<and>
    os_synced s' (journal_path_for_log path) = os_files s' (journal_path_for_log path) \<and> os_now s' = os_now s \<and>
    w_active_checkpoint_slot w' = 0 \<and>
    os_files s' = (os_files s)(path \<mapsto> enc_file_header (new_file_header (os_now s)),
      journal_path_for_log path \<mapsto> enc_checkpoint_slot (make_slot 1 (os_now s) 24 0 0) @ replicate 52 0)"
proof -
  let ?jp = "journal_path_for_log path" and ?h = "new_file_header (os_now s)"
  let ?w0 = "w\<lparr>w_serialization_buffer := True\<rparr>" and ?s1 = "set_file path [] s"
  let ?w2 = "?w0\<lparr>w_fd_open := True, w_logical_end := 0, w_preallocated_end := 0\<rparr>"
  have w: "w_path w = path" "w_journal_path w = ?jp" "w_options w = options" "\<not> w_fd_open w"
    "\<not> w_serialization_buffer w" "\<not> w_journal_fd_open w"
    by (simp_all add: w_def make_writer_def)
  have alloc: "allocate_serialization_buffer w s = (True, ?w0, s)"
    using assms(1,5) w by (auto simp: allocate_serialization_buffer_def options_ok_def Let_def os_simps)
  from start_new_log_calm [of ?s1 ?w2] assms(1) w obtain w3 s3 where
    new: "start_new_log ?w2 ?s1 = (True, w3, s3)" "os_script s3 = []"
      "stats_only (?w2\<lparr>w_recorder_start_time_us := os_now s, w_logical_end := 24\<rparr>) w3"
      "os_files s3 = (os_files s)(path \<mapsto> enc_file_header ?h)" "os_synced s3 = (os_synced s)(path \<mapsto> enc_file_header ?h)"
      "os_now s3 = os_now s"
    by auto
  from new(3) obtain st where w3: "w3 = ?w2\<lparr>w_recorder_start_time_us := os_now s, w_logical_end := 24, w_stats := st\<rparr>"
    unfolding stats_only_def by auto
  let ?w4 = "w3\<lparr>w_journal_fd_open := True\<rparr>" and ?s4 = "set_file ?jp [] s3"
  have oj: "open_journal w3 s3 = (True, ?w4, ?s4)"
    using new(2,4) assms(3) w by (simp add: open_journal_def w3 os_simps path_exists_def)
  let ?j = "enc_checkpoint_slot (make_slot 1 (os_now s) 24 0 0) @ replicate 52 0"
  have jp: "w_journal_path ?w4 = ?jp" "w_logical_end ?w4 = 24" "w_pending_commit_fault ?w4 = NoFault"
    "w_last_written_sequence ?w4 = 0" "w_recorder_start_time_us ?w4 = os_now s"
    by (simp_all add: w3 w_def make_writer_def)
  from first_checkpoint_calm [of ?s4 ?w4, unfolded jp] new(2) obtain w5 s5 where
    ck: "load_or_initialize_checkpoint ?w4 ?s4 = (Returns True, w5, s5)" "os_script s5 = []"
      "stats_only (?w4\<lparr>w_file_record_count := 0, w_checkpoint_generation := 1, w_active_checkpoint_slot := 0\<rparr>) w5"
      "os_files s5 = (os_files ?s4)(?jp \<mapsto> ?j)" "os_synced s5 = (os_synced ?s4)(?jp \<mapsto> ?j)"
      "os_now s5 = os_now ?s4"
    by auto
  from ck(3) obtain st' where w5: "w5 = ?w4\<lparr>w_file_record_count := 0, w_checkpoint_generation := 1,
      w_active_checkpoint_slot := 0, w_stats := st'\<rparr>"
    unfolding stats_only_def by auto
  have ex: "\<not> path_exists path s" "\<not> path_exists ?jp s" using assms(2,3) by (simp_all add: path_exists_def)
  have "open_writer w s = open_checkpoint False w3 s3"
    using assms(1,4,5) alloc w ex new(1)
    by (simp add: open_writer_def options_ok_def Let_def os_simps stat_size_def)
  also have "\<dots> = (Returns True, w5, s5)"
    by (simp add: open_checkpoint_def oj ck(1) sync_parent_directory_def os_simps ck(2))
  finally have op: "open_writer w s = (Returns True, w5, s5)" .
  have files: "os_files s5 path = Some (enc_file_header ?h)" "os_files s5 ?jp = Some ?j"
    "os_synced s5 path = Some (enc_file_header ?h)" "os_synced s5 ?jp = Some ?j"
    using ck(4,5) new(4,5) by simp_all
  have f5: "w_path w5 = path" "w_journal_path w5 = ?jp" "w_recorder_start_time_us w5 = os_now s" "w_logical_end w5 = 24"
    "w_file_record_count w5 = 0" "w_last_written_sequence w5 = 0" "w_checkpoint_generation w5 = 1"
    "w_active_checkpoint_slot w5 = 0"
    by (simp_all add: w5 w3 w_def make_writer_def)
  have "writer_disk w5 (os_files s5) ?h [] 0"
    using files f5 journal_at_first [of w5 ?h "os_now s"]
    by (simp add: writer_disk_def writer_at_def new_file_header_ok new_file_header_start seq_or_0_def)
  moreover have "opened w w5"
    by (simp add: opened_def w5 w3 w_def make_writer_def)
  moreover have "os_now s5 = os_now s" "os_files s5 = (os_files s)(path \<mapsto> enc_file_header ?h, ?jp \<mapsto> ?j)"
    using ck(4,6) new(4,6) by simp_all
  ultimately show ?thesis
    using op ck(2) f5 files by (intro exI [of _ w5] exI [of _ s5]) simp
qed

section \<open>A run of the writer\<close>

text \<open>
  Batches appended one after the other until one is not acknowledged with true, and how many were.
\<close>

primrec append_batches :: "sequenced_record list list \<Rightarrow> writer \<Rightarrow> os \<Rightarrow> nat \<times> bool call \<times> writer \<times> os" where
  "append_batches [] w s = (0, Returns True, w, s)"
| "append_batches (b # bs) w s = (case append_batch b w s of (r, w1, s1) \<Rightarrow>
     if r = Returns True
     then (case append_batches bs w1 s1 of (k, r2, w2, s2) \<Rightarrow> (Suc k, r2, w2, s2))
     else (0, r, w1, s1))"

text \<open>What holds between two batches: \<open>fs\<close> is written, the first \<open>n\<close> frames are committed.\<close>

definition running :: "writer \<Rightarrow> os \<Rightarrow> persisted_file_header \<Rightarrow> log_frame list \<Rightarrow> nat \<Rightarrow> bool" where
  "running w s h fs n \<longleftrightarrow> writer_disk w (os_files s) h fs n \<and> w_fd_open w \<and> ack_apart w \<and>
     w_unsynced_batches w < wo_sync_every_batches (w_options w)"

text \<open>The bounds for \<open>b\<close> more batches.\<close>

definition room_for :: "nat \<Rightarrow> writer \<Rightarrow> bool" where
  "room_for b w \<longleftrightarrow> unat (w_checkpoint_generation w) + b < 2 ^ 32 \<and>
     (w_checkpoint_generation w = 1 \<longrightarrow>
        compute_checkpoint_crc (make_slot 2 (w_recorder_start_time_us w) 24 0 0) \<noteq> 0)"

lemma running_step:
  assumes run: "running w s h fs n" and room: "room_for (Suc b) w"
    and chain: "chain_ok None (fs @ batch_frames records)"
    and len: "24 + 84 * (length fs + length records) < 2 ^ 64"
    and ab: "append_batch records w s = (r, w', s')"
  shows "restores (w_path w) s' h (take n fs) \<or> restores (w_path w) s' h (fs @ batch_frames records)"
    and "r = Returns True \<Longrightarrow> room_for b w' \<and> w_path w' = w_path w \<and> w_options w' = w_options w \<and>
      (running w' s' h (fs @ batch_frames records) (length (fs @ batch_frames records)) \<and> w_unsynced_batches w' = 0 \<or>
       running w' s' h (fs @ batch_frames records) n \<and> w_unsynced_batches w' = w_unsynced_batches w + 1)"
proof -
  from run have disk: "writer_disk w (os_files s) h fs n" and ack: "ack_apart w" and op: "w_fd_open w"
    and u: "w_unsynced_batches w < wo_sync_every_batches (w_options w)"
    by (simp_all add: running_def)
  have b: "checkpoint_bounds w" using room by (auto simp: room_for_def checkpoint_bounds_def)
  then have gen: "unat (w_checkpoint_generation w + 1) = unat (w_checkpoint_generation w) + 1"
    using next_generation(1) by (simp add: checkpoint_bounds_def)
  have g0: "w_checkpoint_generation w \<noteq> 0"
    using disk by (auto simp: writer_disk_def journal_at_def Let_def slot_commits_def checkpoint_metadata_valid_def)
  note out = append_batch_safe [OF disk b ack chain len op ab, unfolded batch_outcome_def]
  from out show "restores (w_path w) s' h (take n fs) \<or> restores (w_path w) s' h (fs @ batch_frames records)"
    by blast
  assume r: "r = Returns True"
  show "room_for b w' \<and> w_path w' = w_path w \<and> w_options w' = w_options w \<and>
      (running w' s' h (fs @ batch_frames records) (length (fs @ batch_frames records)) \<and> w_unsynced_batches w' = 0 \<or>
       running w' s' h (fs @ batch_frames records) n \<and> w_unsynced_batches w' = w_unsynced_batches w + 1)"
  proof (cases "wo_sync_every_batches (w_options w) \<le> w_unsynced_batches w + 1")
    case True
    with out r have dc: "durably_committed w w' s' h (fs @ batch_frames records)" by simp
    have "w_checkpoint_generation w + 1 \<noteq> 1" using g0 by simp
    then have "room_for b w'"
      using dc room gen unfolding room_for_def durably_committed_def by auto
    moreover have "running w' s' h (fs @ batch_frames records) (length (fs @ batch_frames records))"
      using dc ack op u unfolding running_def durably_committed_def ack_apart_def by auto
    ultimately show ?thesis using dc by (simp add: durably_committed_def)
  next
    case False
    with out r have later: "writer_disk w' (os_files s') h (fs @ batch_frames records) n"
      "w_unsynced_batches w' = w_unsynced_batches w + 1" "same_session w w'" by simp_all
    then show ?thesis
      using room ack op False unfolding running_def room_for_def same_session_def ack_apart_def by auto
  qed
qed

lemma running_restores:
  assumes "running w s h fs n"
  shows "restores (w_path w) s h (take n fs)"
proof -
  have disk: "writer_disk w (os_files s) h fs n" using assms by (simp add: running_def)
  then have "chain_ok None (fs @ [])" and "os_files s (w_path w) = Some (enc_file_header h @ enc_frames fs @ take 0 (enc_frames []))"
    by (auto simp: writer_disk_def)
  from writer_disk_restores [OF disk this] show ?thesis by simp
qed

lemma batch_frames_nil [simp]: "batch_frames [] = []"
  by (simp add: batch_frames_def)

lemma batch_frames_append [simp]: "batch_frames (a @ b) = batch_frames a @ batch_frames b"
  by (simp add: batch_frames_def)

definition run_outcome :: "sequenced_record list list \<Rightarrow> writer \<Rightarrow> persisted_file_header \<Rightarrow> log_frame list \<Rightarrow> nat \<Rightarrow>
    nat \<Rightarrow> os \<Rightarrow> bool" where
  "run_outcome bss w h fs n k s' \<longleftrightarrow>
    restores (w_path w) s' h (take n fs) \<and> k + w_unsynced_batches w < wo_sync_every_batches (w_options w) \<or>
    (\<exists>m\<le>length bss. restores (w_path w) s' h (fs @ batch_frames (concat (take m bss))) \<and>
       k < m + wo_sync_every_batches (w_options w))"

lemma batches_safe:
  assumes "running w s h fs n" and "room_for (length bss) w"
    and "chain_ok None (fs @ batch_frames (concat bss))"
    and "24 + 84 * (length fs + length (concat bss)) < 2 ^ 64"
    and "append_batches bss w s = (k, r, w', s')"
  shows "run_outcome bss w h fs n k s' \<and>
    (r = Returns True \<longrightarrow> k = length bss \<and> w_path w' = w_path w \<and>
       (\<exists>n'. running w' s' h (fs @ batch_frames (concat bss)) n'))"
  using assms
proof (induction bss arbitrary: w s fs n k)
  case Nil
  then have "k = 0" "s' = s" "w' = w" by simp_all
  with Nil.prems(1) running_restores [OF Nil.prems(1)] show ?case
    by (auto simp: run_outcome_def running_def batch_frames_def)
next
  case (Cons b bss)
  obtain r1 w1 s1 where ab: "append_batch b w s = (r1, w1, s1)" by (metis prod_cases3)
  have room: "room_for (Suc (length bss)) w" using Cons.prems(2) by simp
  have chain1: "chain_ok None (fs @ batch_frames b)"
    using Cons.prems(3) chain_ok_append [of None "fs @ batch_frames b" "batch_frames (concat bss)"] by simp
  have len1: "24 + 84 * (length fs + length b) < 2 ^ 64" using Cons.prems(4) by simp
  note step = running_step [OF Cons.prems(1) room chain1 len1 ab]
  have u: "w_unsynced_batches w < wo_sync_every_batches (w_options w)"
    using Cons.prems(1) by (simp add: running_def)
  show ?case
  proof (cases "r1 = Returns True")
    case False
    then have "k = 0" "s' = s1" "r \<noteq> Returns True" using Cons.prems(5) ab by simp_all
    moreover have "run_outcome (b # bss) w h fs n 0 s1"
      using step(1) u unfolding run_outcome_def
      by (auto intro!: exI [of _ 1])
    ultimately show ?thesis by simp
  next
    case True
    obtain k1 where rec: "append_batches bss w1 s1 = (k1, r, w', s')" and k: "k = Suc k1"
      using Cons.prems(5) ab True by (auto split: prod.splits)
    note st = step(2) [OF True]
    have chain2: "chain_ok None ((fs @ batch_frames b) @ batch_frames (concat bss))" using Cons.prems(3) by simp
    have len2: "24 + 84 * (length (fs @ batch_frames b) + length (concat bss)) < 2 ^ 64"
      using Cons.prems(4) by (simp add: algebra_simps)
    have n: "n \<le> length fs" using Cons.prems(1) by (simp add: running_def writer_disk_def)
    have shift: "run_outcome (b # bss) w h fs n k s'"
      if "restores (w_path w) s' h ((fs @ batch_frames b) @ batch_frames (concat (take m bss)))" "m \<le> length bss"
        "k1 < m + wo_sync_every_batches (w_options w)" for m
      using that k unfolding run_outcome_def by (intro disjI2 exI [of _ "Suc m"]) simp
    from st have same: "w_path w1 = w_path w" "w_options w1 = w_options w" and room1: "room_for (length bss) w1" by simp_all
    from st consider (synced) "running w1 s1 h (fs @ batch_frames b) (length (fs @ batch_frames b))" "w_unsynced_batches w1 = 0"
      | (later) "running w1 s1 h (fs @ batch_frames b) n" "w_unsynced_batches w1 = w_unsynced_batches w + 1"
      by argo
    then show ?thesis
    proof cases
      case synced
      note ih = Cons.IH [OF synced(1) room1 chain2 len2 rec]
      have "run_outcome (b # bss) w h fs n k s'"
        using ih shift [of 0] shift synced(2) unfolding run_outcome_def [of bss] same by auto
      then show ?thesis using ih k same by auto
    next
      case later
      note ih = Cons.IH [OF later(1) room1 chain2 len2 rec]
      have cut: "take n (fs @ batch_frames b) = take n fs" using n by simp
      from ih consider "restores (w_path w) s' h (take n fs)" "k1 + (w_unsynced_batches w + 1) < wo_sync_every_batches (w_options w)"
        | m where "m \<le> length bss" "restores (w_path w) s' h ((fs @ batch_frames b) @ batch_frames (concat (take m bss)))"
          "k1 < m + wo_sync_every_batches (w_options w)"
        unfolding run_outcome_def same later(2) cut by (elim conjE disjE exE) argo+
      then have "run_outcome (b # bss) w h fs n k s'"
      proof cases
        case 1
        then show ?thesis unfolding run_outcome_def k by (intro disjI1) simp
      next
        case 2
        then show ?thesis using shift by blast
      qed
      then show ?thesis using ih k same by auto
    qed
  qed
qed

section \<open>Opening an existing log\<close>

lemma load_checkpoint_calm:
  assumes "os_script s = []" and j: "os_files s (w_journal_path w) = Some j"
    and ja: "journal_at w0 h fs j" and start: "w_recorder_start_time_us w = fh_recorder_start_time_us h"
    and l: "w_logical_end w = 24 + 84 * length fs" "24 + 84 * length fs < 2 ^ 64"
  shows "load_or_initialize_checkpoint w s = (Returns True,
    w\<lparr>w_active_checkpoint_slot := w_active_checkpoint_slot w0, w_checkpoint_generation := w_checkpoint_generation w0,
      w_file_record_count := word_of_nat (length fs), w_last_written_sequence := seq_or_0 fs\<rparr>, s)"
proof -
  let ?a = "w_active_checkpoint_slot w0"
  let ?A = "dec_checkpoint_slot (slot_at ?a j)" and ?B = "dec_checkpoint_slot (slot_at (1 - ?a) j)"
  from ja have lj: "length j = 104" and a: "?a < 2" and act: "slot_commits h fs ?A" "ck_generation ?A = w_checkpoint_generation w0"
    and old: "checkpoint_metadata_valid ?B \<Longrightarrow> ck_generation ?B < w_checkpoint_generation w0"
    using zero_slot_invalid by (auto simp: journal_at_def Let_def)
  have cur: "slot_current w ?A" by (rule slot_current_commits [OF act(1) start l])
  have other: "slot_current w ?B \<Longrightarrow> ck_generation ?B < ck_generation ?A"
    using old act(2) by (simp add: slot_current_def)
  have "?a = 0 \<or> ?a = 1" using a by auto
  then have sel: "select_slot w (zip [0..<kCheckpointSlotCount] (dec_slots j)) None = Some (?a, ?A)"
    using cur other by (elim disjE) (auto simp: dec_slots_at upt_rec)
  have cnt: "ck_record_count ?A = word_of_nat (length fs)"
    using act(1) l(2) unat_of_nat_len [of "length fs"] by (simp add: slot_commits_def word_unat_eq_iff)
  have last: "ck_last_sequence ?A = seq_or_0 fs" using act(1) by (simp add: slot_commits_def)
  have "load_or_initialize_checkpoint w s = load_checkpoint w s"
    using assms(1) j lj by (auto simp: load_or_initialize_checkpoint_def os_simps stat_size_def file_bytes_some)
  also have "\<dots> = (Returns True, w\<lparr>w_active_checkpoint_slot := ?a, w_checkpoint_generation := ck_generation ?A,
      w_file_record_count := ck_record_count ?A, w_last_written_sequence := ck_last_sequence ?A\<rparr>, s)"
    using assms(1) j lj sel by (simp add: load_checkpoint_def os_simps file_bytes_some)
  finally show ?thesis unfolding act(2) cnt last .
qed

lemma open_existing_log:
  assumes s: "os_script s = []" and disk: "writer_disk w0 (os_files s) h fs (length fs)"
    and path: "w_path w0 \<noteq> []" and opt: "options_ok options" and w_def: "w = make_writer (w_path w0) faults options"
  shows "\<exists>w'. open_writer w s = (Returns True, w', s) \<and> opened w w' \<and>
    w_recorder_start_time_us w' = fh_recorder_start_time_us h \<and>
    w_checkpoint_generation w' = w_checkpoint_generation w0 \<and> writer_disk w' (os_files s) h fs (length fs) \<and>
    w_active_checkpoint_slot w' = w_active_checkpoint_slot w0"
proof -
  let ?p = "w_path w0" and ?jp = "journal_path_for_log (w_path w0)"
  from disk obtain j where h: "file_header_ok h" and len: "24 + 84 * length fs < 2 ^ 64"
    and log: "os_files s ?p = Some (enc_file_header h @ enc_frames fs)" and j: "os_files s ?jp = Some j"
    and ja: "journal_at w0 h fs j"
    by (auto simp: writer_disk_def writer_at_def)
  let ?w4 = "before_checkpoint h fs w"
  let ?w5 = "?w4\<lparr>w_active_checkpoint_slot := w_active_checkpoint_slot w0, w_checkpoint_generation := w_checkpoint_generation w0,
      w_file_record_count := word_of_nat (length fs), w_last_written_sequence := seq_or_0 fs\<rparr>"
  have w: "w_path w = ?p" "w_journal_path w = ?jp" by (simp_all add: w_def make_writer_def)
  have "load_or_initialize_checkpoint ?w4 s = (Returns True, ?w5, s)"
    using load_checkpoint_calm [OF s _ ja, of ?w4] j len w by (simp add: before_checkpoint_def)
  then have "open_writer w s = (Returns True, ?w5, s)"
    by (rule open_with_checkpoint [OF s log h _ path opt w_def, rotated]) (use j in simp)
  moreover have "writer_disk ?w5 (os_files s) h fs (length fs)"
    using disk w j ja unfolding writer_disk_def writer_at_def journal_at_def by (simp add: before_checkpoint_def)
  moreover have "opened w ?w5" by (simp add: opened_def before_checkpoint_def w_def make_writer_def)
  ultimately show ?thesis by (intro exI [of _ ?w5]) (simp add: w before_checkpoint_def)
qed

section \<open>Reading back\<close>

lemma read_all_frames:
  assumes "os_script s = []" and "os_files s path = Some (enc_file_header h @ enc_frames fs)"
    and "file_header_ok h" and "chain_ok None fs"
  shows "read_all path s = (Inr (map frame_entry fs), s)"
proof -
  let ?log = "enc_file_header h @ enc_frames fs"
  have ok: "log_header_ok ?log" using assms(3) by (simp add: log_header_ok_def codec_simps)
  have fr: "log_frames ?log = fs" by (rule log_frames_whole [OF assms(4)])
  from scan_file_ok [OF assms(1,2) ok, of False] obtain report md es where
    r: "scan_file path False s = ((report, md, es), s)" "reports_prefix ?log report" "es = map frame_entry fs"
    unfolding fr by auto
  have "rr_healthy report" using r(2) by (simp add: reports_prefix_def log_valid_bytes_def fr codec_simps)
  then show ?thesis by (simp add: read_all_def read_log_def scan_replayable_log_def r)
qed

text \<open>Records numbered without a gap or a wrap-around make a chain.\<close>

lemma chain_batch_from:
  assumes "consecutive records" and "records \<noteq> []" and "unat (sq_sequence (hd records)) + length records \<le> 2 ^ 64"
    and "follows previous (sq_sequence (hd records))"
  shows "chain_ok previous (batch_frames records)"
  using assms
proof (induction records arbitrary: previous rule: consecutive.induct)
  case (1 a b rs)
  have nxt: "sq_sequence b = sq_sequence a + 1" using 1(2) by simp
  have small: "unat (sq_sequence a) + 1 < 2 ^ 64" using 1(4) by simp
  then have ub: "unat (sq_sequence b) = unat (sq_sequence a) + 1" unfolding nxt by (rule unat_inc)
  have "sq_sequence a \<noteq> - 1"
  proof
    assume "sq_sequence a = - 1"
    then have "sq_sequence b = 0" using nxt by simp
    then show False using ub by simp
  qed
  then have "follows (Some (sq_sequence a)) (sq_sequence b)" using nxt by (simp add: follows_def)
  then have "chain_ok (Some (sq_sequence a)) (batch_frames (b # rs))"
    using 1(1) [of "Some (sq_sequence a)"] 1(2,4) ub by simp
  then show ?case using 1(5) by (simp add: batch_frames_def)
qed (simp_all add: batch_frames_def)

lemma chain_batch:
  assumes "consecutive records" and "records \<noteq> [] \<Longrightarrow> unat (sq_sequence (hd records)) + length records \<le> 2 ^ 64"
  shows "chain_ok None (batch_frames records)"
  using chain_batch_from [of records None] assms by (cases "records = []") (simp_all add: follows_def)

section \<open>Appending when nothing fails\<close>

lemma flush_calm:
  assumes "os_script s = []" and "w_fd_open w" and "\<not> w_failed w" and "w_pending_commit_fault w = NoFault"
    and "w_checkpoint_generation w \<noteq> - 1" and "\<exists>j. os_files s (w_journal_path w) = Some j"
  shows "\<exists>w' s'. flush w s = (Returns True, w', s') \<and> os_script s' = []"
proof (cases "w_unsynced_batches w = 0")
  case True
  with assms show ?thesis by (simp add: flush_def)
next
  case False
  from sync_main_calm [OF assms(1), of w] obtain w1 s1 where
    sy: "sync_main_file w s = (True, w1, s1)" "os_script s1 = []" "stats_only w w1" "synced_disk True (w_path w) s s1" by blast
  note f1 = stats_only_fields [OF sy(3)]
  obtain j where "os_files s1 (w_journal_path w1) = Some j" using assms(6) sy(4) f1 by (auto simp: synced_disk_def)
  from commit_calm [OF sy(2) _ _ this] assms(4,5) f1 obtain w2 s2 where
    cm: "commit_checkpoint w1 s1 = (Returns True, w2, s2)" "os_script s2 = []" "committed_writer w1 w2" by auto
  have "w_pending_commit_fault w2 = NoFault"
    using stats_only_fields(14) [OF cm(3) [unfolded committed_writer_def]] f1 assms(4) by simp
  with assms False sy cm show ?thesis by (simp add: flush_def)
qed

lemma ensure_preallocated_calm:
  "os_script s = [] \<Longrightarrow> \<exists>st e. ensure_preallocated n w s = (True, w\<lparr>w_stats := st, w_preallocated_end := e\<rparr>, s)"
proof -
  assume "os_script s = []"
  then have "\<exists>w'. ensure_preallocated n w s = (True, w', s)"
    by (simp add: ensure_preallocated_def Let_def os_simps)
  then show ?thesis using ensure_preallocated_effect(2) by blast
qed

lemma append_calm:
  assumes run: "running w s h fs n" and s: "os_script s = []" and ok: "\<not> w_failed w"
    and nf: "fc_mode (w_fault_config w) = NoFault" "w_pending_commit_fault w = NoFault"
    and g: "w_checkpoint_generation w \<noteq> - 1"
    and rec: "records \<noteq> []" "length records \<le> wo_batch_capacity_records (w_options w)" "consecutive records"
    and next_seq: "fs \<noteq> [] \<Longrightarrow> sq_sequence (hd records) = seq_or_0 fs + 1"
  shows "\<exists>w' s'. append_batch records w s = (Returns True, w', s') \<and> os_script s' = []"
proof -
  from run have disk: "writer_disk w (os_files s) h fs n" and op: "w_fd_open w" by (simp_all add: running_def)
  then obtain j where j: "os_files s (w_journal_path w) = Some j" and at: "writer_at w h fs"
    and log: "os_files s (w_path w) = Some (enc_file_header h @ enc_frames fs)" and len: "24 + 84 * length fs < 2 ^ 64"
    by (auto simp: writer_disk_def)
  have cnt: "w_file_record_count w \<noteq> 0 \<longleftrightarrow> fs \<noteq> []"
  proof -
    have "unat (w_file_record_count w) = length fs" using at len by (simp add: writer_at_def unat_of_nat_len)
    then show ?thesis by (metis length_0_conv unat_eq_zero)
  qed
  have armed: "\<not> fault_armed records w" using nf by (simp add: fault_armed_def)
  obtain st e where pre: "ensure_preallocated (length records * kPersistedRecordSize) w s =
      (True, w\<lparr>w_stats := st, w_preallocated_end := e\<rparr>, s)"
    using ensure_preallocated_calm [OF s] by blast
  let ?w1 = "w\<lparr>w_stats := st, w_preallocated_end := e\<rparr>"
  have "serialize_batch records \<noteq> []"
  proof -
    have "length (serialize_batch records) \<noteq> 0" using rec(1) by (simp add: serialize_batch_def)
    then show ?thesis by auto
  qed
  from write_at_full_calm [OF s this, of "w_path w" "w_logical_end w" True ?w1] obtain w2 s2 where
    wr: "write_at_full (w_path w) (serialize_batch records) (w_logical_end w) True ?w1 s = (True, w2, s2)"
      "os_script s2 = []" "stats_only ?w1 w2"
      "same_disk (set_file (w_path w) (overwrite (file_bytes (w_path w) s) (w_logical_end w) (serialize_batch records)) s) s2"
    by blast
  note f2 = stats_only_fields [OF wr(3), simplified]
  let ?w3 = "batch_written records w2"
  have f3: "w_fd_open ?w3" "\<not> w_failed ?w3" "w_pending_commit_fault ?w3 = NoFault" "w_checkpoint_generation ?w3 \<noteq> - 1"
    "w_journal_path ?w3 = w_journal_path w"
    using f2 op ok nf g by (simp_all add: batch_written_def bump_stats_def)
  have "\<exists>j. os_files s2 (w_journal_path ?w3) = Some j"
    using same_disk_set [OF wr(4)] j f3(5) by auto
  from flush_calm [OF wr(2) f3(1-4) this] obtain w4 s4 where fl: "flush ?w3 s2 = (Returns True, w4, s4)" "os_script s4 = []"
    by blast
  have "write_batch records w s = after_batch False ?w3 s2"
    using armed pre wr(1) by (simp add: write_batch_def Let_def del: kPersistedRecordSize_def)
  moreover have "append_batch records w s = write_batch records w s"
    using rec op next_seq at cnt by (auto simp: append_batch_def open_writer_def writer_at_def)
  ultimately show ?thesis using fl wr(2) by (simp add: after_batch_def Let_def)
qed

section \<open>A sample session\<close>

definition sample_os :: os where
  "sample_os = \<lparr>os_files = Map.empty, os_synced = Map.empty, os_script = [], os_elapsed = [],
     os_now = 7, os_keep_size = False\<rparr>"

definition sample_batches :: "sequenced_record list list" where
  "sample_batches =
    [[\<lparr>sq_record = default_flight_record, sq_sequence = 1\<rparr>, \<lparr>sq_record = default_flight_record, sq_sequence = 2\<rparr>],
     [\<lparr>sq_record = default_flight_record\<lparr>timestamp_us := 9\<rparr>, sq_sequence = 3\<rparr>]]"

lemma le_unfold:
  "le 2 w = [ucast w, ucast (drop_bit 8 w)]"
  "le 4 w = [ucast w, ucast (drop_bit 8 w), ucast (drop_bit 8 (drop_bit 8 w)),
     ucast (drop_bit 8 (drop_bit 8 (drop_bit 8 w)))]"
  by (simp_all add: eval_nat_numeral)

lemma le_8: "le 8 w = le 4 w @ le 4 (drop_bit 32 w)"
  using le_add [of 4 4 w] by simp

lemma sample_slot_bytes:
  "enc_checkpoint_slot ((make_slot 2 7 24 0 0)\<lparr>ck_checkpoint_crc32 := 0\<rparr>) =
    [0x4C, 0x4E, 0x4A, 0x46, 2, 0, 52, 0, 2, 0, 0, 0, 0, 0, 0, 0, 7, 0, 0, 0, 0, 0, 0, 0,
     24, 0, 0, 0, 0, 0, 0, 0, 0, 0, 0, 0, 0, 0, 0, 0, 0, 0, 0, 0, 0, 0, 0, 0, 0, 0, 0, 0]"
  by (simp add: enc_checkpoint_slot_def make_slot_def seal_slot_def format_consts le_8 le_unfold)

lemma sample_crc: "compute_checkpoint_crc (make_slot 2 7 24 0 0) \<noteq> 0"
  unfolding compute_checkpoint_crc_def sample_slot_bytes compute_crc32_serial crc_serial.simps crc_byte_unfold
  by (simp add: crc_bit_def crc32_poly_def)

lemma sample_options: "options_ok default_writer_options"
  by (simp add: options_ok_def default_writer_options_def)

lemma sample_opened:
  "\<exists>w s. open_writer (make_writer ''log'' no_fault_config default_writer_options) sample_os = (Returns True, w, s) \<and>
    running w s (new_file_header 7) [] 0 \<and> room_for 1000 w \<and> w_path w = ''log'' \<and>
    w_options w = default_writer_options \<and> w_unsynced_batches w = 0 \<and> os_script s = [] \<and>
    w_fault_config w = no_fault_config \<and> w_pending_commit_fault w = NoFault \<and> \<not> w_failed w \<and>
    w_checkpoint_generation w = 1"
proof -
  from open_new_log [of sample_os "''log''", OF _ _ _ _ sample_options refl, of no_fault_config]
  obtain w s where o: "open_writer (make_writer ''log'' no_fault_config default_writer_options) sample_os = (Returns True, w, s)"
    "os_script s = []" "opened (make_writer ''log'' no_fault_config default_writer_options) w"
    "w_recorder_start_time_us w = 7" "w_checkpoint_generation w = 1"
    "writer_disk w (os_files s) (new_file_header 7) [] 0"
    by (auto simp: sample_os_def)
  then show ?thesis
    using sample_crc
    by (auto simp: running_def opened_def ack_apart_def no_fault_config_def make_writer_def
        default_writer_options_def room_for_def)
qed

section \<open>Properties\<close>

text \<open>C10. Crash atomicity of a session. Whatever the system answers to the calls of a run of
  appended batches (short writes, interruptions, failures), and wherever a crash fault ends the
  process, the next startup recovers: the log then holds whole batches only, in the order they
  were appended, and at most the last \<open>sync_every_batches - 1\<close> acknowledged batches are missing;
  with the default of one, no acknowledged batch is lost.\<close>

theorem crash_keeps_whole_batches:
  assumes "os_script s = []" and "os_files s path = None" and "os_files s (journal_path_for_log path) = None"
    and "path \<noteq> []" and "options_ok options"
    and "\<forall>a. fc_acknowledgement_fd faults = Some a \<longrightarrow> a \<noteq> path \<and> a \<noteq> journal_path_for_log path"
    and "compute_checkpoint_crc (make_slot 2 (os_now s) 24 0 0) \<noteq> 0"
    and "open_writer (make_writer path faults options) s = (Returns True, w, s1)"
    and "consecutive (concat batches)" and "length batches < 2 ^ 32 - 1"
    and "concat batches \<noteq> [] \<Longrightarrow> unat (sq_sequence (hd (concat batches))) + length (concat batches) \<le> 2 ^ 64"
    and "24 + 84 * length (concat batches) < 2 ^ 64"
    and "append_batches batches w (s1\<lparr>os_script := script\<rparr>) = (k, r, w', s')"
  shows "\<exists>m\<le>length batches. k < m + wo_sync_every_batches options \<and>
    restores path s' (new_file_header (os_now s)) (batch_frames (concat (take m batches)))"
proof -
  let ?h = "new_file_header (os_now s)"
  from open_new_log [OF assms(1-5) refl, of faults] assms(8) have op: "opened (make_writer path faults options) w"
    "w_recorder_start_time_us w = os_now s" "w_checkpoint_generation w = 1" "writer_disk w (os_files s1) ?h [] 0"
    by auto
  then have "running w (s1\<lparr>os_script := script\<rparr>) ?h [] 0"
    using assms(5,6) by (auto simp: running_def opened_def options_ok_def ack_apart_def make_writer_def
        writer_disk_def writer_at_def)
  moreover have "room_for (length batches) w" using op assms(7,10) by (simp add: room_for_def)
  moreover have "chain_ok None ([] @ batch_frames (concat batches))"
    using chain_batch [OF assms(9,11)] by simp
  moreover have "24 + 84 * (length ([] :: log_frame list) + length (concat batches)) < 2 ^ 64" using assms(12) by simp
  ultimately have "run_outcome batches w ?h [] 0 k s'" using batches_safe assms(13) by blast
  moreover have "w_path w = path" "w_options w = options" "w_unsynced_batches w = 0"
    using op(1) by (simp_all add: opened_def make_writer_def)
  ultimately show ?thesis unfolding run_outcome_def by (auto intro: exI [of _ 0])
qed

theorem crash_keeps_whole_batches_witness:
  "\<exists>w s1 k r w' s'. append_batches sample_batches w
      (s1\<lparr>os_script := [Done, Done, Short 40, Interrupted, Failed]\<rparr>) = (k, r, w', s') \<and>
    (\<exists>m\<le>length sample_batches. k < m + 1 \<and>
      restores ''log'' s' (new_file_header 7) (batch_frames (concat (take m sample_batches))))"
proof -
  obtain w s1 where o: "open_writer (make_writer ''log'' no_fault_config default_writer_options) sample_os = (Returns True, w, s1)"
    using sample_opened by blast
  obtain k r w' s' where a: "append_batches sample_batches w
      (s1\<lparr>os_script := [Done, Done, Short 40, Interrupted, Failed]\<rparr>) = (k, r, w', s')" by (metis prod_cases4)
  have "\<exists>m\<le>length sample_batches. k < m + wo_sync_every_batches default_writer_options \<and>
      restores ''log'' s' (new_file_header (os_now sample_os)) (batch_frames (concat (take m sample_batches)))"
    by (rule crash_keeps_whole_batches [OF _ _ _ _ sample_options _ _ o _ _ _ _ a])
      (use sample_crc in \<open>simp_all add: sample_os_def no_fault_config_def sample_batches_def\<close>)
  then have "\<exists>m\<le>length sample_batches. k < m + 1 \<and>
      restores ''log'' s' (new_file_header 7) (batch_frames (concat (take m sample_batches)))"
    by (simp add: sample_os_def default_writer_options_def)
  then show ?thesis using a by blast
qed

text \<open>C11. A batch whose append returned true, when a commit was due, is on stable storage: after a
  loss of power that leaves only what was synchronised, recovery restores it and all before it.\<close>

theorem acknowledged_batch_survives_power_loss:
  assumes "running w s h fs n" and "room_for 1 w" and "chain_ok None (fs @ batch_frames records)"
    and "24 + 84 * (length fs + length records) < 2 ^ 64"
    and "wo_sync_every_batches (w_options w) \<le> w_unsynced_batches w + 1"
    and "append_batch records w s = (Returns True, w', s')"
  shows "restores (w_path w) (s'\<lparr>os_files := os_synced s'\<rparr>) h (fs @ batch_frames records)"
proof -
  let ?fs = "fs @ batch_frames records"
  from assms(1,2) have run: "writer_disk w (os_files s) h fs n" "checkpoint_bounds w" "ack_apart w" "w_fd_open w"
    by (auto simp: running_def room_for_def checkpoint_bounds_def)
  from append_batch_safe [OF run(1-3) assms(3,4) run(4) assms(6)] assms(5)
  have dc: "durably_committed w w' s' h ?fs" by (simp add: batch_outcome_def)
  then have disk: "writer_disk w' (os_files s') h ?fs (length ?fs)" and path: "w_path w' = w_path w"
    and jp: "w_journal_path w' = w_journal_path w"
    and sy: "os_synced s' (w_path w) = os_files s' (w_path w)" "os_synced s' (w_journal_path w) = os_files s' (w_journal_path w)"
    by (simp_all add: durably_committed_def)
  have "chain_ok None (?fs @ [])" using assms(3) by simp
  moreover have "os_files (s'\<lparr>os_files := os_synced s'\<rparr>) (w_path w') =
      Some (enc_file_header h @ enc_frames ?fs @ take 0 (enc_frames []))"
    using disk sy(1) path by (simp add: writer_disk_def)
  moreover have "os_files (s'\<lparr>os_files := os_synced s'\<rparr>) (w_journal_path w') = os_files s' (w_journal_path w')"
    using sy(2) jp by simp
  ultimately have "restores (w_path w') (s'\<lparr>os_files := os_synced s'\<rparr>) h (take (length ?fs) ?fs)"
    by (rule writer_disk_restores [OF disk])
  then show ?thesis using path by simp
qed

lemma sample_append:
  "\<exists>w s w' s'. running w s (new_file_header 7) [] 0 \<and> room_for 1000 w \<and> w_path w = ''log'' \<and>
    w_options w = default_writer_options \<and> w_unsynced_batches w = 0 \<and>
    append_batch (hd sample_batches) w s = (Returns True, w', s')"
proof -
  obtain w s where o: "running w s (new_file_header 7) [] 0" "room_for 1000 w" "w_path w = ''log''" "os_script s = []"
    "w_fault_config w = no_fault_config" "w_pending_commit_fault w = NoFault" "\<not> w_failed w"
    "w_checkpoint_generation w = 1" "w_options w = default_writer_options" "w_unsynced_batches w = 0"
    using sample_opened by blast
  from append_calm [OF o(1,4,7) _ o(6), of "hd sample_batches"] o show ?thesis
    by (auto simp: no_fault_config_def sample_batches_def default_writer_options_def)
qed

lemma sample_batch_chain: "chain_ok None ([] @ batch_frames (hd sample_batches))"
  using chain_batch [of "hd sample_batches"] by (simp add: sample_batches_def)

theorem acknowledged_batch_survives_power_loss_witness:
  "\<exists>s'. restores ''log'' (s'\<lparr>os_files := os_synced s'\<rparr>) (new_file_header 7) ([] @ batch_frames (hd sample_batches))"
proof -
  obtain w s w' s' where a: "running w s (new_file_header 7) [] 0" "room_for 1000 w" "w_path w = ''log''"
    "w_options w = default_writer_options" "append_batch (hd sample_batches) w s = (Returns True, w', s')"
    using sample_append by blast
  have room: "room_for 1 w" using a(2) by (simp add: room_for_def)
  from acknowledged_batch_survives_power_loss [OF a(1) room sample_batch_chain _ _ a(5)] a(3,4) show ?thesis
    by (auto simp: sample_batches_def default_writer_options_def)
qed

text \<open>C12. When the system does not fail and no fault is armed, a batch that continues the sequence
  and fits the buffer is written: the append returns true.\<close>

theorem append_succeeds:
  assumes "running w s h fs n" and "os_script s = []" and "\<not> w_failed w"
    and "fc_mode (w_fault_config w) = NoFault" and "w_pending_commit_fault w = NoFault"
    and "w_checkpoint_generation w \<noteq> - 1" and "records \<noteq> []"
    and "length records \<le> wo_batch_capacity_records (w_options w)" and "consecutive records"
    and "fs \<noteq> [] \<Longrightarrow> sq_sequence (hd records) = seq_or_0 fs + 1"
  shows "\<exists>w' s'. append_batch records w s = (Returns True, w', s')"
  using append_calm [OF assms] by blast

theorem append_succeeds_witness:
  "\<exists>w s w' s'. running w s (new_file_header 7) [] 0 \<and> append_batch (hd sample_batches) w s = (Returns True, w', s')"
proof -
  obtain w s where o: "running w s (new_file_header 7) [] 0" "os_script s = []"
    "w_fault_config w = no_fault_config" "w_pending_commit_fault w = NoFault" "\<not> w_failed w"
    "w_checkpoint_generation w = 1" "w_options w = default_writer_options"
    using sample_opened by blast
  from append_succeeds [OF o(1,2,5) _ o(4), of "hd sample_batches"] o show ?thesis
    by (auto simp: no_fault_config_def sample_batches_def default_writer_options_def)
qed

text \<open>C13. Every successful append keeps the writer's invariant: the cursors, the log and the
  journal agree, the active slot commits a prefix of the frames, and fewer than
  \<open>sync_every_batches\<close> batches wait for a commit.\<close>

theorem append_keeps_writer_invariant:
  assumes "running w s h fs n" and "room_for (Suc b) w" and "chain_ok None (fs @ batch_frames records)"
    and "24 + 84 * (length fs + length records) < 2 ^ 64"
    and "append_batch records w s = (Returns True, w', s')"
  shows "room_for b w' \<and>
    (running w' s' h (fs @ batch_frames records) (length (fs @ batch_frames records)) \<or>
     running w' s' h (fs @ batch_frames records) n)"
  using running_step(2) [OF assms refl] by blast

theorem append_keeps_writer_invariant_witness:
  "\<exists>w' s' n. running w' s' (new_file_header 7) ([] @ batch_frames (hd sample_batches)) n \<and> room_for 999 w'"
proof -
  obtain w s w' s' where a: "running w s (new_file_header 7) [] 0" "room_for 1000 w"
    "append_batch (hd sample_batches) w s = (Returns True, w', s')"
    using sample_append by blast
  have room: "room_for (Suc 999) w" using a(2) by simp
  from append_keeps_writer_invariant [OF a(1) room sample_batch_chain _ a(3)] show ?thesis
    by (auto simp: sample_batches_def)
qed

text \<open>C14. A checkpoint slot torn by an interrupted write is never mistaken: if recovery accepts the
  mixture of the first \<open>k\<close> new bytes and the old rest, it is the whole new slot or the old one.\<close>

theorem torn_checkpoint_harmless:
  assumes "slot_agrees h frames (make_slot g t c n q)" and "k \<le> 52" and "reusable (make_slot g t c n q) old"
    and "slot_agrees h frames (dec_checkpoint_slot (take k (enc_checkpoint_slot (make_slot g t c n q)) @ drop k old))"
  shows "dec_checkpoint_slot (take k (enc_checkpoint_slot (make_slot g t c n q)) @ drop k old) \<in>
    {make_slot g t c n q, dec_checkpoint_slot old}"
  using torn_slot [OF refl assms(1-3), unfolded torn_def, OF assms(4)] by (auto simp: codec_simps)

theorem torn_checkpoint_harmless_witness:
  "dec_checkpoint_slot (take 52 (enc_checkpoint_slot (make_slot 2 7 192 2 2)) @
      drop 52 (enc_checkpoint_slot (make_slot 1 7 108 1 1))) \<in>
    {make_slot 2 7 192 2 2, dec_checkpoint_slot (enc_checkpoint_slot (make_slot 1 7 108 1 1))}"
proof -
  have ag: "slot_agrees (new_file_header 7) sample_frames (make_slot 2 7 192 2 2)"
  proof -
    have "slot_commits (new_file_header 7) (take 2 sample_frames) (make_slot 2 7 192 2 2)"
      by (simp add: sample_frames_def slot_commits_def new_file_header_start seq_or_0_def)
    moreover have "2 \<le> length sample_frames" by (simp add: sample_frames_def)
    ultimately show ?thesis unfolding slot_agrees_def by blast
  qed
  have "drop_bit 32 (1 :: u64) = drop_bit 32 2" by simp
  then show ?thesis
    by (intro torn_checkpoint_harmless [OF ag]) (simp_all add: reusable_def codec_simps ag)
qed

text \<open>C15. What was appended is what the log is read back as: the entries of every acknowledged
  batch, in order, with their sequence numbers, after the entries that were there before.\<close>

theorem appended_records_are_read_back:
  assumes "running w s h fs n" and "room_for (length batches) w"
    and "chain_ok None (fs @ batch_frames (concat batches))"
    and "24 + 84 * (length fs + length (concat batches)) < 2 ^ 64"
    and "append_batches batches w s = (k, Returns True, w', s')"
  shows "fst (read_all (w_path w) (s'\<lparr>os_script := []\<rparr>)) =
    Inr (map frame_entry fs @ map (\<lambda>r. \<lparr>re_sequence = sq_sequence r, re_record = sq_record r\<rparr>) (concat batches))"
proof -
  from batches_safe [OF assms] obtain n' where run: "running w' s' h (fs @ batch_frames (concat batches)) n'"
    and path: "w_path w' = w_path w" by blast
  then have "os_files (s'\<lparr>os_script := []\<rparr>) (w_path w) = Some (enc_file_header h @ enc_frames (fs @ batch_frames (concat batches)))"
    "file_header_ok h"
    by (auto simp: running_def writer_disk_def)
  from read_all_frames [OF _ this assms(3)] show ?thesis
    by (simp add: batch_frames_def comp_def)
qed

theorem appended_records_are_read_back_witness:
  "\<exists>(w :: writer) s'. fst (read_all (w_path w) (s'\<lparr>os_script := []\<rparr>)) =
    Inr [\<lparr>re_sequence = 1, re_record = default_flight_record\<rparr>, \<lparr>re_sequence = 2, re_record = default_flight_record\<rparr>] \<and>
    w_path w = ''log''"
proof -
  obtain w s w' s' where a: "running w s (new_file_header 7) [] 0" "room_for 1000 w" "w_path w = ''log''"
    "append_batch (hd sample_batches) w s = (Returns True, w', s')"
    using sample_append by blast
  then have run: "append_batches [hd sample_batches] w s = (1, Returns True, w', s')" by simp
  have room: "room_for (length [hd sample_batches]) w" using a(2) by (simp add: room_for_def)
  have "fst (read_all (w_path w) (s'\<lparr>os_script := []\<rparr>)) =
      Inr (map frame_entry [] @ map (\<lambda>r. \<lparr>re_sequence = sq_sequence r, re_record = sq_record r\<rparr>) (concat [hd sample_batches]))"
    by (rule appended_records_are_read_back [OF a(1) room _ _ run])
      (use sample_batch_chain in \<open>simp_all add: sample_batches_def\<close>)
  then show ?thesis using a(3) by (auto simp: sample_batches_def intro!: exI [of _ w] exI [of _ s'])
qed

text \<open>A log a writer left in a committed state is opened by the next one, which continues where
  the first stopped.\<close>

theorem committed_log_reopens:
  assumes "os_script s = []" and "running w0 s h fs (length fs)" and "w_path w0 \<noteq> []" and "options_ok options"
    and "\<forall>a. fc_acknowledgement_fd faults = Some a \<longrightarrow> a \<noteq> w_path w0 \<and> a \<noteq> journal_path_for_log (w_path w0)"
  shows "\<exists>w'. open_writer (make_writer (w_path w0) faults options) s = (Returns True, w', s) \<and>
    running w' s h fs (length fs) \<and> w_checkpoint_generation w' = w_checkpoint_generation w0"
proof -
  have disk: "writer_disk w0 (os_files s) h fs (length fs)" using assms(2) by (simp add: running_def)
  from open_existing_log [OF assms(1) disk assms(3,4) refl] obtain w' where
    "open_writer (make_writer (w_path w0) faults options) s = (Returns True, w', s)"
    "opened (make_writer (w_path w0) faults options) w'" "writer_disk w' (os_files s) h fs (length fs)"
    "w_checkpoint_generation w' = w_checkpoint_generation w0" by blast
  then show ?thesis
    using assms(4,5) by (auto simp: running_def opened_def options_ok_def ack_apart_def make_writer_def
        writer_disk_def writer_at_def)
qed

theorem committed_log_reopens_witness:
  "\<exists>(w0 :: writer) s w'. open_writer (make_writer (w_path w0) no_fault_config default_writer_options) s = (Returns True, w', s) \<and>
     running w' s (new_file_header 7) [] 0"
proof -
  obtain w s where o: "running w s (new_file_header 7) [] 0" "w_path w = ''log''" "os_script s = []"
    using sample_opened by blast
  have "\<exists>w'. open_writer (make_writer (w_path w) no_fault_config default_writer_options) s = (Returns True, w', s) \<and>
      running w' s (new_file_header 7) [] (length ([] :: log_frame list)) \<and>
      w_checkpoint_generation w' = w_checkpoint_generation w"
    by (rule committed_log_reopens [OF o(3) _ _ sample_options]) (use o in \<open>simp_all add: no_fault_config_def\<close>)
  then show ?thesis unfolding list.size by blast
qed



end
