(* ===== verification/Session.thy ===== *)
theory Session
  imports Durability
begin

text \<open>
  A writer in a session: its statistics follow the log. Which operation counts records as written
  and as committed, and the invariant \<open>session\<close> that ties the counters, the log and the journal
  together, kept by every append and every flush that succeed and leaving a disk that recovery
  restores when they do not; and the loop that writes a batch ends, with a bound on its calls.
\<close>

section \<open>Counters of the writer\<close>

text \<open>Only a written batch counts records as written, only a commit counts them as committed.\<close>

definition same_counts :: "writer \<Rightarrow> writer \<Rightarrow> bool" where
  "same_counts w w' \<longleftrightarrow> ws_records_written (w_stats w') = ws_records_written (w_stats w) \<and>
     ws_records_committed (w_stats w') = ws_records_committed (w_stats w)"

lemma same_counts_refl [simp]: "same_counts w w"
  by (simp add: same_counts_def)

lemma same_counts_trans: "same_counts w w1 \<Longrightarrow> same_counts w1 w2 \<Longrightarrow> same_counts w w2"
  by (simp add: same_counts_def)

lemma same_counts_failure [simp]: "same_counts w (record_failure w') = same_counts w w'"
  by (simp add: same_counts_def record_failure_def bump_stats_def)

lemma same_counts_bump:
  assumes "\<And>st. ws_records_written (f st) = ws_records_written st \<and> ws_records_committed (f st) = ws_records_committed st"
  shows "same_counts w (bump_stats f w)"
  using assms by (simp add: same_counts_def bump_stats_def)

definition quiet :: "writer \<Rightarrow> writer \<Rightarrow> bool" where
  "quiet w w' \<longleftrightarrow> stats_only w w' \<and> same_counts w w'"

lemma quiet_trans: "quiet w w1 \<Longrightarrow> quiet w1 w2 \<Longrightarrow> quiet w w2"
  by (auto simp: quiet_def intro: stats_only_trans same_counts_trans)

lemma write_at_full_quiet: "write_at_full p d off c w s = (ok, w', s') \<Longrightarrow> quiet w w'"
proof (induction p d off c w s arbitrary: ok w' s' rule: write_at_full.induct)
  case (1 path data off c w s)
  let ?w1 = "if c then bump_stats (\<lambda>st. st\<lparr>ws_write_calls := ws_write_calls st + 1\<rparr>) w else w"
  obtain r s1 e s2 where pw: "pwrite path data off s = (r, s1)" and el: "next_elapsed s1 = (e, s2)"
    by (metis surj_pair)
  let ?w2 = "if c then bump_stats (\<lambda>st. st\<lparr>ws_write_latency :=
      observe_latency (unat e) (ws_write_latency st)\<rparr>) ?w1 else ?w1"
  have same: "quiet w ?w2"
    by (simp add: quiet_def stats_only_def same_counts_def bump_stats_def)
  show ?case
  proof (cases "data = []")
    case True
    with "1.prems" show ?thesis by (simp add: write_at_full.simps quiet_def)
  next
    case False
    show ?thesis
    proof (cases r)
      case Eother
      with "1.prems" False same show ?thesis
        by (subst (asm) write_at_full.simps) (simp add: pw el Let_def)
    next
      case Eintr
      then have rec: "write_at_full path data off c ?w2 s2 = (ok, w', s')"
        using "1.prems" False by (subst (asm) write_at_full.simps) (simp add: pw el Let_def)
      from "1.IH"(2) [OF False refl pw [symmetric] el [symmetric] refl Eintr rec] same show ?thesis
        by (rule quiet_trans [rotated])
    next
      case (Wrote n)
      show ?thesis
      proof (cases "n = 0")
        case True
        with "1.prems" False same Wrote show ?thesis
          by (subst (asm) write_at_full.simps) (simp add: pw el Let_def)
      next
        case n: False
        let ?w3 = "if c then bump_stats (\<lambda>st. st\<lparr>ws_bytes_written := ws_bytes_written st + n\<rparr>) ?w2 else ?w2"
        from n have rec: "write_at_full path (drop n data) (off + n) c ?w3 s2 = (ok, w', s')"
          using "1.prems" False Wrote by (subst (asm) write_at_full.simps) (simp add: pw el Let_def)
        have "quiet w ?w3" using same by (simp add: quiet_def stats_only_def same_counts_def bump_stats_def)
        then show ?thesis
          using "1.IH"(1) [OF False refl pw [symmetric] el [symmetric] refl Wrote n rec]
          by (rule quiet_trans)
      qed
    qed
  qed
qed

lemma write_at_full_counts: "write_at_full p d off c w s = (ok, w', s') \<Longrightarrow> same_counts w w'"
  by (auto dest: write_at_full_quiet simp: quiet_def)

lemma sync_main_counts: "sync_main_file w s = (ok, w', s') \<Longrightarrow> same_counts w w'"
  by (auto simp: sync_main_file_def same_counts_def bump_stats_def record_failure_def Let_def split: prod.splits if_splits)

lemma ensure_preallocated_counts: "ensure_preallocated n w s = (ok, w', s') \<Longrightarrow> same_counts w w'"
  by (auto simp: ensure_preallocated_def same_counts_def bump_stats_def Let_def split: prod.splits if_splits)

definition committed_counts :: "writer \<Rightarrow> writer \<Rightarrow> bool" where
  "committed_counts w w' \<longleftrightarrow> ws_records_written (w_stats w') = ws_records_written (w_stats w) \<and>
     ws_records_committed (w_stats w') = ws_records_written (w_stats w)"

lemma commit_counts:
  assumes "commit_checkpoint w s = (r, w', s')"
  shows "r = Returns True \<Longrightarrow> committed_counts w w'" and "r \<noteq> Returns True \<Longrightarrow> same_counts w w'"
  using assms
  by (auto simp: commit_checkpoint_def Let_def same_counts_def committed_counts_def bump_stats_def
      split: prod.splits if_splits dest!: write_at_full_counts)

lemma flush_counts:
  assumes "flush w s = (r, w', s')"
  shows "r = Returns True \<Longrightarrow> if w_unsynced_batches w = 0 then w' = w else committed_counts w w'"
    and "r = Returns False \<Longrightarrow> same_counts w w' \<and> w_failed w'"
proof -
  obtain ok1 w1 s1 where sy: "sync_main_file w s = (ok1, w1, s1)" by (metis prod_cases3)
  obtain r2 w2 s2 where cm: "commit_checkpoint w1 s1 = (r2, w2, s2)" by (metis prod_cases3)
  note s1 = sync_main_counts [OF sy] and c = commit_counts [OF cm]
  show "if w_unsynced_batches w = 0 then w' = w else committed_counts w w'" if "r = Returns True"
    using assms that s1 c(1)
    by (auto simp: flush_def sy cm same_counts_def committed_counts_def split: if_splits call.splits option.splits prod.splits)
  show "same_counts w w' \<and> w_failed w'" if "r = Returns False"
    using assms that s1 c(2)
    by (auto simp: flush_def sy cm same_counts_def record_failure_def bump_stats_def
        split: if_splits call.splits option.splits prod.splits)
qed

lemma flush_true: "flush w s = (Returns True, w', s') \<Longrightarrow> w_unsynced_batches w \<noteq> 0 \<Longrightarrow> committed_counts w w'"
  using flush_counts(1) by fastforce

lemma flush_idle: "flush w s = (Returns True, w', s') \<Longrightarrow> w_unsynced_batches w = 0 \<Longrightarrow> w' = w"
  using flush_counts(1) by fastforce

lemma flush_false: "flush w s = (Returns False, w', s') \<Longrightarrow> same_counts w w' \<and> w_failed w'"
  using flush_counts(2) by blast

lemma batch_written_counts [simp]:
  "ws_records_written (w_stats (batch_written records w)) = ws_records_written (w_stats w) + length records"
  "ws_records_committed (w_stats (batch_written records w)) = ws_records_committed (w_stats w)"
  "w_unsynced_batches (batch_written records w) = w_unsynced_batches w + 1"
  "w_options (batch_written records w) = w_options w"
  by (simp_all add: batch_written_def bump_stats_def)

lemma after_batch_counts:
  assumes "after_batch armed w s = (r, w', s')" and "w_unsynced_batches w \<noteq> 0"
  shows "r = Returns True \<Longrightarrow> ws_records_written (w_stats w') = ws_records_written (w_stats w) \<and>
      ws_records_committed (w_stats w') =
        (if wo_sync_every_batches (w_options w) \<le> w_unsynced_batches w
         then ws_records_written (w_stats w) else ws_records_committed (w_stats w))"
    and "r = Returns False \<Longrightarrow> w_failed w' \<and> ws_records_committed (w_stats w') = ws_records_committed (w_stats w)"
proof -
  show "ws_records_written (w_stats w') = ws_records_written (w_stats w) \<and>
      ws_records_committed (w_stats w') =
        (if wo_sync_every_batches (w_options w) \<le> w_unsynced_batches w
         then ws_records_written (w_stats w) else ws_records_committed (w_stats w))" if "r = Returns True"
    using assms that
    by (auto simp: after_batch_def Let_def committed_counts_def record_failure_def bump_stats_def
        split: if_splits dest!: flush_true)
  show "w_failed w' \<and> ws_records_committed (w_stats w') = ws_records_committed (w_stats w)" if "r = Returns False"
    using assms that
    by (auto simp: after_batch_def Let_def same_counts_def record_failure_def bump_stats_def
        split: if_splits dest!: flush_false)
qed

lemma write_batch_counts:
  assumes "write_batch records w s = (r, w', s')"
  shows "r = Returns True \<Longrightarrow> ws_records_written (w_stats w') = ws_records_written (w_stats w) + length records \<and>
      ws_records_committed (w_stats w') =
        (if wo_sync_every_batches (w_options w) \<le> w_unsynced_batches w + 1
         then ws_records_written (w_stats w') else ws_records_committed (w_stats w))"
    and "r = Returns False \<Longrightarrow> w_failed w' \<and> ws_records_committed (w_stats w') = ws_records_committed (w_stats w)"
proof -
  obtain ok1 w1 s1 where en: "ensure_preallocated (length records * 84) w s = (ok1, w1, s1)"
    by (metis prod_cases3)
  obtain ok2 w2 s2 where wr: "write_at_full (w_path w1) (serialize_batch records) (w_logical_end w1) True w1 s1 = (ok2, w2, s2)"
    by (metis prod_cases3)
  have same: "same_counts w w2"
    using ensure_preallocated_counts [OF en] write_at_full_counts [OF wr] by (rule same_counts_trans)
  obtain st e where w1: "w1 = w\<lparr>w_stats := st, w_preallocated_end := e\<rparr>"
    using ensure_preallocated_effect(2) [OF en] by blast
  have "stats_only w1 w2" using write_at_full_quiet [OF wr] by (simp add: quiet_def)
  note f = stats_only_fields [OF this]
  have w2: "w_unsynced_batches w2 = w_unsynced_batches w" "w_options w2 = w_options w"
    by (simp_all add: f w1)
  let ?wb = "batch_written records w2"
  have wb: "w_unsynced_batches ?wb \<noteq> 0" by simp
  have step: "r \<noteq> Returns True \<and> r \<noteq> Returns False \<or> after_batch (fault_armed records w) ?wb s2 = (r, w', s') \<or>
      r = Returns False \<and> w_failed w' \<and> same_counts w w'"
    using assms ensure_preallocated_counts [OF en] same
    by (auto simp: write_batch_def Let_def en wr same_counts_def record_failure_def bump_stats_def
        split: if_splits prod.splits)
  show "ws_records_written (w_stats w') = ws_records_written (w_stats w) + length records \<and>
      ws_records_committed (w_stats w') =
        (if wo_sync_every_batches (w_options w) \<le> w_unsynced_batches w + 1
         then ws_records_written (w_stats w') else ws_records_committed (w_stats w))"
    if "r = Returns True"
    using step that after_batch_counts(1) [OF _ wb] same by (auto simp: w2 same_counts_def)
  show "w_failed w' \<and> ws_records_committed (w_stats w') = ws_records_committed (w_stats w)" if "r = Returns False"
    using step that after_batch_counts(2) [OF _ wb] same by (auto simp: same_counts_def)
qed

section \<open>A running writer\<close>

text \<open>What holds between two calls of the recorder: the writer runs, the frames it has counted as
  committed are, and there are checkpoint generations left for \<open>b\<close> more batches.\<close>

definition room_kept :: "nat \<Rightarrow> writer \<Rightarrow> bool" where
  "room_kept b w \<longleftrightarrow> room_for (b + (if w_unsynced_batches w = 0 then 0 else 1)) w"

definition session :: "nat \<Rightarrow> string \<Rightarrow> persisted_file_header \<Rightarrow> log_frame list \<Rightarrow> log_frame list \<Rightarrow>
    writer \<Rightarrow> os \<Rightarrow> bool" where
  "session b path h base new w s \<longleftrightarrow>
     w_path w = path \<and> \<not> w_failed w \<and> room_kept b w \<and>
     ws_records_written (w_stats w) = length new \<and>
     (w_unsynced_batches w = 0 \<longrightarrow> ws_records_committed (w_stats w) = length new) \<and>
     running w s h (base @ new) (length base + ws_records_committed (w_stats w))"

lemma room_for_mono: "room_for b w \<Longrightarrow> c \<le> b \<Longrightarrow> room_for c w"
  by (auto simp: room_for_def)

lemma room_kept_mono: "room_kept b w \<Longrightarrow> c \<le> b \<Longrightarrow> room_kept c w"
  by (auto simp: room_kept_def intro: room_for_mono)

lemma session_mono: "session b path h base new w s \<Longrightarrow> c \<le> b \<Longrightarrow> session c path h base new w s"
  by (auto simp: session_def intro: room_kept_mono)

lemma session_bounds:
  assumes "session b path h base new w s" and "w_unsynced_batches w \<noteq> 0 \<or> 0 < b"
  shows "checkpoint_bounds w"
proof -
  have "room_for (Suc 0) w"
    by (rule room_for_mono [of "b + (if w_unsynced_batches w = 0 then 0 else 1)"])
      (use assms in \<open>auto simp: session_def room_kept_def\<close>)
  then show ?thesis by (simp add: room_for_def checkpoint_bounds_def)
qed

lemma session_restores:
  assumes "session b path h base new w s"
  shows "restores path s h (base @ take (ws_records_committed (w_stats w)) new)"
proof -
  have "running w s h (base @ new) (length base + ws_records_committed (w_stats w))" and "w_path w = path"
    using assms by (simp_all add: session_def)
  from running_restores [OF this(1)] this(2) show ?thesis by simp
qed

lemma committed_session:
  assumes old: "session (Suc b) path h base new w s \<or> session b path h base new w s \<and> w_unsynced_batches w \<noteq> 0"
    and dc: "durably_committed w w' s' h (base @ new')"
    and counts: "ws_records_written (w_stats w') = length new'" "ws_records_committed (w_stats w') = length new'"
  shows "session b path h base new' w' s'"
proof -
  from old have run: "running w s h (base @ new) (length base + ws_records_committed (w_stats w))"
    and room: "room_for (Suc b) w" and w: "w_path w = path" "\<not> w_failed w"
    by (auto simp: session_def room_kept_def intro: room_for_mono)
  have b: "checkpoint_bounds w" using room by (auto simp: room_for_def checkpoint_bounds_def)
  then have gen: "unat (w_checkpoint_generation w + 1) = unat (w_checkpoint_generation w) + 1"
    using next_generation(1) by (simp add: checkpoint_bounds_def)
  have "w_checkpoint_generation w \<noteq> 0"
    using run by (auto simp: running_def writer_disk_def journal_at_def Let_def slot_commits_def checkpoint_metadata_valid_def)
  then have "w_checkpoint_generation w + 1 \<noteq> 1" by simp
  then have "room_for b w'"
    using dc room gen unfolding room_for_def durably_committed_def by auto
  moreover have "running w' s' h (base @ new') (length (base @ new'))"
    using dc run unfolding running_def durably_committed_def ack_apart_def by auto
  ultimately show ?thesis
    using dc w counts by (simp add: session_def room_kept_def durably_committed_def)
qed

text \<open>A batch that is written is in the log; one that is not leaves nothing that recovery keeps, or
  all of it, and the writer refuses every further call.\<close>

lemma session_append:
  assumes ses: "session (Suc b) path h base new w s"
    and chain: "chain_ok None (base @ new @ batch_frames records)"
    and len: "24 + 84 * (length base + length new + length records) < 2 ^ 64"
    and ab: "append_batch records w s = (r, w', s')"
  shows "r = Returns True \<Longrightarrow> session b path h base (new @ batch_frames records) w' s'"
    and "r = Returns False \<Longrightarrow> w_failed w' \<and> ws_records_committed (w_stats w') = ws_records_committed (w_stats w)"
    and "restores path s' h (base @ take (ws_records_committed (w_stats w)) new) \<or>
      restores path s' h (base @ new @ batch_frames records)"
proof -
  let ?n = "length base + ws_records_committed (w_stats w)"
  from ses have run: "running w s h (base @ new) ?n" and w: "w_path w = path" "\<not> w_failed w"
    by (simp_all add: session_def)
  then have disk: "writer_disk w (os_files s) h (base @ new) ?n" and ack: "ack_apart w" and op: "w_fd_open w"
    and u: "w_unsynced_batches w < wo_sync_every_batches (w_options w)"
    by (simp_all add: running_def)
  have b: "checkpoint_bounds w" by (rule session_bounds [OF ses]) simp
  have chain': "chain_ok None ((base @ new) @ batch_frames records)" using chain by simp
  have len': "24 + 84 * (length (base @ new) + length records) < 2 ^ 64" using len by (simp add: add.assoc)
  note out = append_batch_safe [OF disk b ack chain' len' op ab, unfolded batch_outcome_def]
  show "restores path s' h (base @ take (ws_records_committed (w_stats w)) new) \<or>
      restores path s' h (base @ new @ batch_frames records)"
    using out w by auto
  consider (same) "w' = record_failure w" "r = Returns False" | (wrote) "write_batch records w s = (r, w', s')"
    using ab op by (auto simp: append_batch_def open_writer_def split: if_splits)
  note cases = this
  show "w_failed w' \<and> ws_records_committed (w_stats w') = ws_records_committed (w_stats w)" if "r = Returns False"
    using cases write_batch_counts(2) that by cases (auto simp: record_failure_def bump_stats_def)
  show "session b path h base (new @ batch_frames records) w' s'" if r: "r = Returns True"
  proof -
    from cases r have "write_batch records w s = (Returns True, w', s')" by auto
    note counts = write_batch_counts(1) [OF this refl]
    have written: "ws_records_written (w_stats w') = length (new @ batch_frames records)"
      using counts ses by (simp add: session_def batch_frames_def)
    show ?thesis
    proof (cases "wo_sync_every_batches (w_options w) \<le> w_unsynced_batches w + 1")
      case True
      with out r have "durably_committed w w' s' h (base @ (new @ batch_frames records))" by simp
      with ses written counts True show ?thesis
        by (intro committed_session [of b path h base new w s]) simp_all
    next
      case False
      with out r have later: "writer_disk w' (os_files s') h ((base @ new) @ batch_frames records) ?n"
        "w_unsynced_batches w' = w_unsynced_batches w + 1" "same_session w w'" by simp_all
      have "ws_records_committed (w_stats w') = ws_records_committed (w_stats w)"
        using counts False by simp
      moreover have "room_for (Suc b) w" using ses by (auto simp: session_def room_kept_def intro: room_for_mono)
      ultimately show ?thesis
        using later ack op False w written
        unfolding session_def running_def room_kept_def room_for_def same_session_def ack_apart_def by auto
    qed
  qed
qed

lemma session_flush:
  assumes ses: "session b path h base new w s" and f: "flush w s = (r, w', s')"
  shows "r = Returns True \<Longrightarrow> session b path h base new w' s' \<and> w_unsynced_batches w' = 0"
    and "r = Returns False \<Longrightarrow> w_failed w' \<and> ws_records_committed (w_stats w') = ws_records_committed (w_stats w)"
    and "restores path s' h (base @ take (ws_records_committed (w_stats w)) new) \<or> restores path s' h (base @ new)"
proof -
  let ?n = "length base + ws_records_committed (w_stats w)"
  from ses have run: "running w s h (base @ new) ?n" and w: "w_path w = path" "\<not> w_failed w"
    and written: "ws_records_written (w_stats w) = length new"
    by (simp_all add: session_def)
  then have disk: "writer_disk w (os_files s) h (base @ new) ?n" and ack: "ack_apart w" and op: "w_fd_open w"
    by (simp_all add: running_def)
  show "w_failed w' \<and> ws_records_committed (w_stats w') = ws_records_committed (w_stats w)" if "r = Returns False"
    using flush_false f that by (auto simp: same_counts_def)
  have idle: "r = Returns True \<and> w' = w \<and> s' = s" if "w_unsynced_batches w = 0"
    using f op w that by (simp add: flush_def)
  show "restores path s' h (base @ take (ws_records_committed (w_stats w)) new) \<or> restores path s' h (base @ new)"
  proof (cases "w_unsynced_batches w = 0")
    case True
    with idle session_restores [OF ses] show ?thesis by simp
  next
    case False
    have "checkpoint_bounds w" by (rule session_bounds [OF ses]) (use False in simp)
    from flush_safe(1) [OF disk this ack f] w show ?thesis by auto
  qed
  show "session b path h base new w' s' \<and> w_unsynced_batches w' = 0" if r: "r = Returns True"
  proof (cases "w_unsynced_batches w = 0")
    case True
    with idle ses show ?thesis by simp
  next
    case False
    have b: "checkpoint_bounds w" by (rule session_bounds [OF ses]) (use False in simp)
    have dc: "durably_committed w w' s' h (base @ new)"
      using flush_safe(3) [OF disk b ack f] r False by simp
    from flush_true [of w s w' s'] f r False have "committed_counts w w'" by simp
    with dc ses False written show ?thesis
      by (auto simp: committed_counts_def durably_committed_def intro!: committed_session [of b path h base new w s])
  qed
qed

section \<open>The write loop ends\<close>

definition write_calls :: "writer \<Rightarrow> nat" where
  "write_calls w = ws_write_calls (w_stats w)"

lemma write_loop_calls:
  "write_at_full p d off c w s = (ok, w', s') \<Longrightarrow>
    write_calls w' \<le> write_calls w + length d + length (os_script s) \<and>
    length (os_script s') \<le> length (os_script s) \<and>
    (c \<longrightarrow> ok \<longrightarrow> ws_bytes_written (w_stats w') = ws_bytes_written (w_stats w) + length d)"
proof (induction p d off c w s arbitrary: ok w' s' rule: write_at_full.induct)
  case (1 path data off c w s)
  let ?w1 = "if c then bump_stats (\<lambda>st. st\<lparr>ws_write_calls := ws_write_calls st + 1\<rparr>) w else w"
  obtain r s1 e s2 where pw: "pwrite path data off s = (r, s1)" and el: "next_elapsed s1 = (e, s2)"
    by (metis surj_pair)
  let ?w2 = "if c then bump_stats (\<lambda>st. st\<lparr>ws_write_latency :=
      observe_latency (unat e) (ws_write_latency st)\<rparr>) ?w1 else ?w1"
  have w2: "write_calls ?w2 \<le> write_calls w + 1" "ws_bytes_written (w_stats ?w2) = ws_bytes_written (w_stats w)"
    by (simp_all add: write_calls_def bump_stats_def)
  have s2: "length (os_script s2) \<le> length (os_script s)"
    using pwrite_script [OF pw] next_elapsed_script [OF el] by simp
  show ?case
  proof (cases "data = []")
    case True
    with "1.prems" show ?thesis by (simp add: write_at_full.simps)
  next
    case False
    then have len: "1 \<le> length data" by (cases data) simp_all
    show ?thesis
    proof (cases r)
      case Eother
      then have "ok = False \<and> w' = ?w2 \<and> s' = s2"
        using "1.prems" False by (subst (asm) write_at_full.simps) (simp add: pw el Let_def)
      with w2 s2 len show ?thesis by simp
    next
      case Eintr
      then have rec: "write_at_full path data off c ?w2 s2 = (ok, w', s')"
        using "1.prems" False by (subst (asm) write_at_full.simps) (simp add: pw el Let_def)
      have "length (os_script s2) < length (os_script s)"
        using pwrite_eintr_measure [of path data off s s1] pw Eintr next_elapsed_script [OF el] by simp
      with "1.IH"(2) [OF False refl pw [symmetric] el [symmetric] refl Eintr rec] w2 show ?thesis by linarith
    next
      case (Wrote n)
      show ?thesis
      proof (cases "n = 0")
        case True
        then have "ok = False \<and> w' = ?w2 \<and> s' = s2"
          using "1.prems" False Wrote by (subst (asm) write_at_full.simps) (simp add: pw el Let_def)
        with w2 s2 len show ?thesis by simp
      next
        case n: False
        let ?w3 = "if c then bump_stats (\<lambda>st. st\<lparr>ws_bytes_written := ws_bytes_written st + n\<rparr>) ?w2 else ?w2"
        from n have rec: "write_at_full path (drop n data) (off + n) c ?w3 s2 = (ok, w', s')"
          using "1.prems" False Wrote by (subst (asm) write_at_full.simps) (simp add: pw el Let_def)
        have w3: "write_calls ?w3 = write_calls ?w2" "c \<Longrightarrow> ws_bytes_written (w_stats ?w3) = ws_bytes_written (w_stats w) + n"
          by (simp_all add: write_calls_def bump_stats_def)
        have "length (drop n data) + length (os_script s2) < length data + length (os_script s)"
          using pwrite_measure [of path data off s n s1] pw Wrote False n next_elapsed_script [OF el] by simp
        moreover have "n \<le> length data"
          using pw Wrote by (auto simp: pwrite_def split: prod.splits outcome.splits)
        ultimately show ?thesis
          using "1.IH"(1) [OF False refl pw [symmetric] el [symmetric] refl Wrote n rec] w2(1) w3 s2 by fastforce
      qed
    qed
  qed
qed



end
