(* ===== verification/Sensor_Simulator.thy ===== *)
theory Sensor_Simulator
  imports Log_Format
begin

text \<open>
  The sensor simulator, \<open>sensor_simulator.cpp\<close>: the flight profile it walks through and the
  sample it produces at each step. What the platform computes on doubles, the sine and the
  distributions of the random library, none of which is in the repository, are fields of a
  \<open>machine\<close>; a decimal literal \<open>m * 10 ^ -k\<close> of the source is \<open>mc_number m k\<close>. A double is its
  bit pattern, and the state of the generator is of any type.
\<close>

section \<open>The platform\<close>

record 'g machine =
  mc_number :: "int \<Rightarrow> nat \<Rightarrow> f64"
  mc_of_u64 :: "u64 \<Rightarrow> f64"
  mc_add :: "f64 \<Rightarrow> f64 \<Rightarrow> f64"
  mc_sub :: "f64 \<Rightarrow> f64 \<Rightarrow> f64"
  mc_mul :: "f64 \<Rightarrow> f64 \<Rightarrow> f64"
  mc_div :: "f64 \<Rightarrow> f64 \<Rightarrow> f64"
  mc_less :: "f64 \<Rightarrow> f64 \<Rightarrow> bool"
  mc_leq :: "f64 \<Rightarrow> f64 \<Rightarrow> bool"
  mc_sin :: "f64 \<Rightarrow> f64"
  mc_abs :: "f64 \<Rightarrow> f64"
  mc_seed :: "u32 \<Rightarrow> 'g"
  mc_uniform_int :: "u64 \<Rightarrow> u64 \<Rightarrow> 'g \<Rightarrow> u64 \<times> 'g"
  mc_uniform_real :: "f64 \<Rightarrow> f64 \<Rightarrow> 'g \<Rightarrow> f64 \<times> 'g"

text \<open>\<open>std::max\<close> and \<open>std::clamp\<close>.\<close>

definition max_double :: "'g machine \<Rightarrow> f64 \<Rightarrow> f64 \<Rightarrow> f64" where
  "max_double m a b = (if mc_less m a b then b else a)"

definition clamp_double :: "'g machine \<Rightarrow> f64 \<Rightarrow> f64 \<Rightarrow> f64 \<Rightarrow> f64" where
  "clamp_double m v low high = (if mc_less m v low then low else if mc_less m high v then high else v)"

section \<open>State\<close>

datatype flight_phase = Startup | Takeoff | Climb | Cruise | Descent | Landing

record 'g simulator =
  sm_rng :: 'g
  sm_sample_index :: u64
  sm_phase_rad :: f64
  sm_altitude_m :: f64
  sm_airspeed_kts :: f64
  sm_heading_deg :: f64
  sm_vertical_speed_fpm :: f64
  sm_engine_temperature_c :: f64
  sm_engine_rpm :: f64
  sm_engine_spike_start :: u64
  sm_altitude_drop_start :: u64
  sm_sensor_glitch_start :: u64
  sm_last_phase :: flight_phase

definition kStartupSamples :: u64 where [simp]: "kStartupSamples = 25"
definition kTakeoffSamples :: u64 where [simp]: "kTakeoffSamples = 20"
definition kClimbSamples :: u64 where [simp]: "kClimbSamples = 70"
definition kCruiseSamples :: u64 where [simp]: "kCruiseSamples = 120"
definition kDescentSamples :: u64 where [simp]: "kDescentSamples = 65"
definition kLandingSamples :: u64 where [simp]: "kLandingSamples = 35"
definition kTotalProfileSamples :: u64 where
  [simp]: "kTotalProfileSamples = kStartupSamples + kTakeoffSamples + kClimbSamples +
     kCruiseSamples + kDescentSamples + kLandingSamples"

section \<open>Helpers\<close>

text \<open>The two loops end for the headings the simulator has; for an infinite value they would not.\<close>

partial_function (option) wrap_down :: "'g machine \<Rightarrow> f64 \<Rightarrow> f64 option" where
  "wrap_down m v =
    (if mc_leq m (mc_number m 360 0) v then wrap_down m (mc_sub m v (mc_number m 360 0)) else Some v)"

partial_function (option) wrap_up :: "'g machine \<Rightarrow> f64 \<Rightarrow> f64 option" where
  "wrap_up m v =
    (if mc_less m v (mc_number m 0 0) then wrap_up m (mc_add m v (mc_number m 360 0)) else Some v)"

definition wrap_degrees :: "'g machine \<Rightarrow> f64 \<Rightarrow> f64 option" where
  "wrap_degrees m v = (case wrap_down m v of None \<Rightarrow> None | Some v' \<Rightarrow> wrap_up m v')"

definition smoothstep :: "'g machine \<Rightarrow> f64 \<Rightarrow> f64" where
  "smoothstep m x =
    (let clamped = clamp_double m x (mc_number m 0 0) (mc_number m 1 0) in
     mc_mul m (mc_mul m clamped clamped)
       (mc_sub m (mc_number m 3 0) (mc_mul m (mc_number m 2 0) clamped)))"

definition lerp :: "'g machine \<Rightarrow> f64 \<Rightarrow> f64 \<Rightarrow> f64 \<Rightarrow> f64" where
  "lerp m start stop t = mc_add m start (mc_mul m (mc_sub m stop start) t)"

section \<open>The simulator\<close>

definition make_simulator :: "'g machine \<Rightarrow> u32 \<Rightarrow> 'g simulator" where
  "make_simulator m seed =
    (let g0 = mc_seed m seed in
     case mc_uniform_int m 110 150 g0 of (engine_spike, g1) \<Rightarrow>
     case mc_uniform_int m 220 250 g1 of (altitude_drop, g2) \<Rightarrow>
     case mc_uniform_int m 155 205 g2 of (sensor_glitch, g3) \<Rightarrow>
     \<lparr>sm_rng = g3, sm_sample_index = 0, sm_phase_rad = mc_number m 0 0,
      sm_altitude_m = mc_number m 340 0, sm_airspeed_kts = mc_number m 0 0,
      sm_heading_deg = mc_number m 74 0, sm_vertical_speed_fpm = mc_number m 0 0,
      sm_engine_temperature_c = mc_number m 30 0, sm_engine_rpm = mc_number m 0 0,
      sm_engine_spike_start = engine_spike, sm_altitude_drop_start = altitude_drop,
      sm_sensor_glitch_start = sensor_glitch, sm_last_phase = Startup\<rparr>)"

definition phase_at :: "u64 \<Rightarrow> flight_phase" where
  "phase_at index =
    (if index < kStartupSamples then Startup
     else if index < kStartupSamples + kTakeoffSamples then Takeoff
     else if index < kStartupSamples + kTakeoffSamples + kClimbSamples then Climb
     else if index < kStartupSamples + kTakeoffSamples + kClimbSamples + kCruiseSamples then Cruise
     else if index < kStartupSamples + kTakeoffSamples + kClimbSamples + kCruiseSamples + kDescentSamples
     then Descent
     else Landing)"

definition current_phase :: "'g simulator \<Rightarrow> flight_phase" where
  "current_phase sim = phase_at (sm_sample_index sim)"

primrec phase_start :: "flight_phase \<Rightarrow> u64" where
  "phase_start Startup = 0"
| "phase_start Takeoff = kStartupSamples"
| "phase_start Climb = kStartupSamples + kTakeoffSamples"
| "phase_start Cruise = kStartupSamples + kTakeoffSamples + kClimbSamples"
| "phase_start Descent = kStartupSamples + kTakeoffSamples + kClimbSamples + kCruiseSamples"
| "phase_start Landing = kStartupSamples + kTakeoffSamples + kClimbSamples + kCruiseSamples + kDescentSamples"

primrec phase_duration :: "flight_phase \<Rightarrow> u64" where
  "phase_duration Startup = kStartupSamples"
| "phase_duration Takeoff = kTakeoffSamples"
| "phase_duration Climb = kClimbSamples"
| "phase_duration Cruise = kCruiseSamples"
| "phase_duration Descent = kDescentSamples"
| "phase_duration Landing = kLandingSamples"

definition phase_progress :: "'g machine \<Rightarrow> 'g simulator \<Rightarrow> f64" where
  "phase_progress m sim =
    (let phase = current_phase sim in
     smoothstep m (mc_div m (mc_of_u64 m (sm_sample_index sim - phase_start phase))
       (mc_of_u64 m (max (phase_duration phase - 1) 1))))"

definition anomaly_active :: "'g simulator \<Rightarrow> u64 \<Rightarrow> u64 \<Rightarrow> bool" where
  "anomaly_active sim start_sample duration_samples \<longleftrightarrow>
     start_sample \<le> sm_sample_index sim \<and> sm_sample_index sim < start_sample + duration_samples"

text \<open>What a phase steers the aircraft to: altitude, airspeed, vertical speed, engine temperature,
  engine speed, and the rate of turn.\<close>

record phase_target =
  pt_altitude_m :: f64
  pt_airspeed_kts :: f64
  pt_vertical_speed_fpm :: f64
  pt_engine_temperature_c :: f64
  pt_engine_rpm :: f64
  pt_heading_rate_deg :: f64

definition phase_targets :: "'g machine \<Rightarrow> flight_phase \<Rightarrow> f64 \<Rightarrow> f64 \<Rightarrow> phase_target" where
  "phase_targets m phase progress phase_rad =
    (let n = mc_number m;
         ramp = (\<lambda>start stop. lerp m (n start 0) (n stop 0) progress);
         sway = (\<lambda>rate. mc_sin m (mc_mul m phase_rad (n rate 2))) in
     case phase of
       Startup \<Rightarrow> \<lparr>pt_altitude_m = n 340 0, pt_airspeed_kts = n 0 0, pt_vertical_speed_fpm = n 0 0,
         pt_engine_temperature_c = mc_add m (n 35 0) (mc_mul m progress (n 210 0)),
         pt_engine_rpm = mc_add m (n 650 0) (mc_mul m progress (n 350 0)), pt_heading_rate_deg = n 2 2\<rparr>
     | Takeoff \<Rightarrow> \<lparr>pt_altitude_m = ramp 340 720, pt_airspeed_kts = ramp 25 155,
         pt_vertical_speed_fpm = ramp 400 2200, pt_engine_temperature_c = ramp 250 645,
         pt_engine_rpm = ramp 1800 2550, pt_heading_rate_deg = n 12 2\<rparr>
     | Climb \<Rightarrow> \<lparr>pt_altitude_m = ramp 720 3650, pt_airspeed_kts = ramp 150 205,
         pt_vertical_speed_fpm = ramp 1900 950, pt_engine_temperature_c = ramp 640 690,
         pt_engine_rpm = ramp 2500 2350, pt_heading_rate_deg = n 20 2\<rparr>
     | Cruise \<Rightarrow> \<lparr>pt_altitude_m = mc_add m (n 3650 0) (mc_mul m (sway 35) (n 35 0)),
         pt_airspeed_kts = mc_add m (n 228 0) (mc_mul m (sway 55) (n 45 1)),
         pt_vertical_speed_fpm = mc_mul m (sway 28) (n 65 0),
         pt_engine_temperature_c = mc_add m (n 662 0) (mc_mul m (sway 42) (n 8 0)),
         pt_engine_rpm = mc_add m (n 2220 0) (mc_mul m (sway 40) (n 28 0)), pt_heading_rate_deg = n 8 2\<rparr>
     | Descent \<Rightarrow> \<lparr>pt_altitude_m = ramp 3600 780, pt_airspeed_kts = ramp 215 138,
         pt_vertical_speed_fpm = ramp (- 750) (- 1450), pt_engine_temperature_c = ramp 645 555,
         pt_engine_rpm = ramp 2050 1680, pt_heading_rate_deg = n (- 6) 2\<rparr>
     | Landing \<Rightarrow> \<lparr>pt_altitude_m = ramp 780 345, pt_airspeed_kts = ramp 132 18,
         pt_vertical_speed_fpm = ramp (- 900) (- 120), pt_engine_temperature_c = ramp 520 180,
         pt_engine_rpm = ramp 1550 760, pt_heading_rate_deg = n (- 3) 2\<rparr>)"

text \<open>One step of the state towards its targets, with five draws of noise in the order of the
  statements; the heading is not wrapped yet.\<close>

definition steer :: "'g machine \<Rightarrow> phase_target \<Rightarrow> 'g simulator \<Rightarrow> 'g simulator" where
  "steer m target sim =
    (let n = mc_number m; noise = mc_uniform_real m (n (- 1) 0) (n 1 0);
         settle = (\<lambda>value goal rate gain draw.
           mc_add m (lerp m value goal (n rate 2)) (mc_mul m draw gain)) in
     case noise (sm_rng sim) of (d1, g1) \<Rightarrow>
     case noise g1 of (d2, g2) \<Rightarrow>
     case noise g2 of (d3, g3) \<Rightarrow>
     case noise g3 of (d4, g4) \<Rightarrow>
     case noise g4 of (d5, g5) \<Rightarrow>
     sim\<lparr>sm_rng := g5,
       sm_altitude_m := max_double m (n 0 0) (settle (sm_altitude_m sim) (pt_altitude_m target) 12 (n 6 1) d1),
       sm_airspeed_kts := max_double m (n 0 0) (settle (sm_airspeed_kts sim) (pt_airspeed_kts target) 18 (n 45 2) d2),
       sm_vertical_speed_fpm := settle (sm_vertical_speed_fpm sim) (pt_vertical_speed_fpm target) 22 (n 8 0) d3,
       sm_engine_temperature_c := max_double m (n 20 0)
         (settle (sm_engine_temperature_c sim) (pt_engine_temperature_c target) 16 (n 8 1) d4),
       sm_engine_rpm := max_double m (n 0 0) (settle (sm_engine_rpm sim) (pt_engine_rpm target) 20 (n 4 0) d5),
       sm_heading_deg := mc_add m (mc_add m (sm_heading_deg sim) (pt_heading_rate_deg target))
         (mc_mul m (mc_sin m (mc_mul m (sm_phase_rad sim) (n 18 2))) (n 5 2))\<rparr>)"

text \<open>The scripted anomalies. Each raises its flags and disturbs the state.\<close>

definition engine_spike :: "'g machine \<Rightarrow> 'g simulator \<times> u32 \<Rightarrow> 'g simulator \<times> u32" where
  "engine_spike m = (\<lambda>(sim, status).
    if anomaly_active sim (sm_engine_spike_start sim) 9 then
      (sim\<lparr>sm_engine_temperature_c := mc_add m (sm_engine_temperature_c sim)
         (mc_sub m (mc_number m 28 0)
           (mc_mul m (mc_abs m (mc_sub m (mc_number m 4 0)
             (mc_of_u64 m (sm_sample_index sim - sm_engine_spike_start sim)))) (mc_number m 42 1)))\<rparr>,
       status OR StatusEngineWarning)
    else (sim, status))"

definition altitude_drop :: "'g machine \<Rightarrow> 'g simulator \<times> u32 \<Rightarrow> 'g simulator \<times> u32" where
  "altitude_drop m = (\<lambda>(sim, status).
    if anomaly_active sim (sm_altitude_drop_start sim) 4 then
      (sim\<lparr>sm_altitude_m := max_double m (mc_number m 0 0) (mc_sub m (sm_altitude_m sim) (mc_number m 45 0)),
         sm_vertical_speed_fpm := mc_sub m (sm_vertical_speed_fpm sim) (mc_number m 650 0)\<rparr>,
       status OR StatusAltitudeDeviation)
    else (sim, status))"

definition sensor_glitch :: "'g machine \<Rightarrow> 'g simulator \<times> u32 \<Rightarrow> ('g simulator \<times> u32) option" where
  "sensor_glitch m = (\<lambda>(sim, status).
    if anomaly_active sim (sm_sensor_glitch_start sim) 3 then
      (case wrap_degrees m (mc_add m (sm_heading_deg sim) (mc_number m 8 0)) of
         None \<Rightarrow> None
       | Some heading \<Rightarrow> Some
           (sim\<lparr>sm_airspeed_kts := mc_add m (sm_airspeed_kts sim)
              (if sm_sample_index sim mod 2 = 0 then mc_number m 18 0 else mc_number m (- 14) 0),
              sm_heading_deg := heading\<rparr>,
            status OR (StatusSensorGlitch OR StatusPitotDisagree)))
    else Some (sim, status))"

text \<open>The flags that depend on the resulting state, and the index of the next sample.\<close>

definition final_status :: "'g machine \<Rightarrow> flight_phase \<Rightarrow> bool \<Rightarrow> 'g simulator \<times> u32 \<Rightarrow> u32" where
  "final_status m phase buffer_overrun = (\<lambda>(sim, status).
    (let hot = (if mc_less m (mc_number m 675 0) (sm_engine_temperature_c sim)
           then status OR StatusEngineWarning else status);
         oil = (if phase = Startup \<and> mc_less m (mc_number m 850 0) (sm_engine_rpm sim) \<and>
             mc_less m (sm_engine_temperature_c sim) (mc_number m 80 0)
           then hot OR StatusLowOilPressure else hot) in
     if buffer_overrun then oil OR StatusRecorderBufferOverrun else oil))"

definition next_index :: "u64 \<Rightarrow> u64" where
  "next_index index =
    (if kTotalProfileSamples \<le> index + 1 then kStartupSamples + kTakeoffSamples + kClimbSamples else index + 1)"

definition sample_record :: "u64 \<Rightarrow> u32 \<Rightarrow> 'g simulator \<Rightarrow> flight_record" where
  "sample_record timestamp status sim =
    \<lparr>timestamp_us = timestamp, altitude_m = sm_altitude_m sim, airspeed_kts = sm_airspeed_kts sim,
     heading_deg = sm_heading_deg sim, vertical_speed_fpm = sm_vertical_speed_fpm sim,
     engine_temperature_c = sm_engine_temperature_c sim, engine_rpm = sm_engine_rpm sim,
     system_status = status\<rparr>"

definition next_sample :: "'g machine \<Rightarrow> u64 \<Rightarrow> bool \<Rightarrow> 'g simulator \<Rightarrow> (flight_record \<times> 'g simulator) option" where
  "next_sample m timestamp buffer_overrun sim =
    (let phase = current_phase sim; progress = phase_progress m sim;
         sim1 = sim\<lparr>sm_phase_rad := mc_add m (sm_phase_rad sim) (mc_number m 65 3)\<rparr>;
         sim2 = steer m (phase_targets m phase progress (sm_phase_rad sim1)) sim1 in
     case wrap_degrees m (sm_heading_deg sim2) of None \<Rightarrow> None | Some heading \<Rightarrow>
     let sim3 = sim2\<lparr>sm_heading_deg := heading\<rparr>;
         status = (if phase \<noteq> sm_last_phase sim then StatusNominal OR StatusFlightPhaseTransition
                   else StatusNominal) in
     case sensor_glitch m (altitude_drop m (engine_spike m (sim3, status))) of None \<Rightarrow> None
     | Some (sim4, status4) \<Rightarrow>
     let sim5 = sim4\<lparr>sm_last_phase := phase, sm_sample_index := next_index (sm_sample_index sim4)\<rparr> in
     Some (sample_record timestamp (final_status m phase buffer_overrun (sim4, status4)) sim5, sim5))"

section \<open>The flight profile\<close>

text \<open>A run of samples, each with its timestamp and whether the queue overran since the last.\<close>

primrec samples :: "'g machine \<Rightarrow> (u64 \<times> bool) list \<Rightarrow> 'g simulator \<Rightarrow>
    (flight_record list \<times> 'g simulator) option" where
  "samples m [] sim = Some ([], sim)"
| "samples m (input # inputs) sim = (case next_sample m (fst input) (snd input) sim of
       None \<Rightarrow> None
     | Some (record, sim1) \<Rightarrow> (case samples m inputs sim1 of
         None \<Rightarrow> None
       | Some (records, sim2) \<Rightarrow> Some (record # records, sim2)))"

text \<open>The profile as a list: one flight, then cruise, descent and landing for ever.\<close>

definition profile_index :: "nat \<Rightarrow> nat" where
  "profile_index n = (if n < 335 then n else 115 + (n - 115) mod 220)"

definition flight_profile :: "nat \<Rightarrow> flight_phase" where
  "flight_profile n = (replicate 25 Startup @ replicate 20 Takeoff @ replicate 70 Climb @
     replicate 120 Cruise @ replicate 65 Descent @ replicate 35 Landing) ! profile_index n"

lemma steer_index [simp]:
  "sm_sample_index (steer m target sim) = sm_sample_index sim"
  "sm_last_phase (steer m target sim) = sm_last_phase sim"
  by (simp_all add: steer_def Let_def split: prod.splits)

lemma engine_spike_index [simp]:
  "sm_sample_index (fst (engine_spike m (sim, status))) = sm_sample_index sim"
  by (simp add: engine_spike_def)

lemma altitude_drop_index [simp]:
  "sm_sample_index (fst (altitude_drop m x)) = sm_sample_index (fst x)"
  by (cases x) (simp add: altitude_drop_def)

lemma sensor_glitch_index:
  "sensor_glitch m x = Some y \<Longrightarrow> sm_sample_index (fst y) = sm_sample_index (fst x)"
  by (cases x) (auto simp: sensor_glitch_def split: if_splits option.splits)

lemma next_sample_index:
  "next_sample m ts overrun sim = Some (record, sim') \<Longrightarrow>
    sm_sample_index sim' = next_index (sm_sample_index sim) \<and> sm_last_phase sim' = current_phase sim"
  by (auto simp: next_sample_def Let_def split: option.splits dest!: sensor_glitch_index)

lemma profile_index_bound: "profile_index n < 335"
  using mod_less_divisor [of 220 "n - 115"] by (auto simp: profile_index_def)

lemma next_profile_index: "next_index (word_of_nat (profile_index n)) = word_of_nat (profile_index (Suc n))"
proof -
  have small: "unat (word_of_nat (profile_index n) :: u64) = profile_index n"
    using profile_index_bound [of n] by (simp add: unat_of_nat)
  have "(335 :: u64) \<le> word_of_nat (profile_index n) + 1 \<longleftrightarrow> 334 \<le> profile_index n"
    using profile_index_bound [of n] by (simp add: word_le_nat_alt unat_word_ariths small)
  moreover have "profile_index (Suc n) = (if 334 \<le> profile_index n then 115 else profile_index n + 1)"
  proof (cases "n < 335")
    case True
    then have "n < 334 \<or> n = 334" by auto
    then show ?thesis by (auto simp: profile_index_def)
  next
    case False
    then have "Suc n - 115 = Suc (n - 115)" by simp
    moreover have "(n - 115) mod 220 < 220" by simp
    ultimately show ?thesis using False by (auto simp: profile_index_def mod_Suc)
  qed
  ultimately show ?thesis by (simp add: next_index_def)
qed

lemma phase_at_profile: "phase_at (word_of_nat (profile_index n)) = flight_profile n"
proof -
  have small: "unat (word_of_nat (profile_index n) :: u64) = profile_index n"
    using profile_index_bound [of n] by (simp add: unat_of_nat)
  show ?thesis
    using profile_index_bound [of n]
    by (auto simp: phase_at_def flight_profile_def nth_append word_less_nat_alt small)
qed

text \<open>The phases are ordered as the enumeration numbers them.\<close>

primrec phase_number :: "flight_phase \<Rightarrow> nat" where
  "phase_number Startup = 0"
| "phase_number Takeoff = 1"
| "phase_number Climb = 2"
| "phase_number Cruise = 3"
| "phase_number Descent = 4"
| "phase_number Landing = 5"

lemma phase_number_inject: "phase_number p = phase_number q \<longleftrightarrow> p = q"
  by (cases p; cases q) simp_all

instantiation flight_phase :: linorder
begin

definition less_eq_flight_phase :: "flight_phase \<Rightarrow> flight_phase \<Rightarrow> bool" where
  "p \<le> q \<longleftrightarrow> phase_number p \<le> phase_number q"

definition less_flight_phase :: "flight_phase \<Rightarrow> flight_phase \<Rightarrow> bool" where
  "p < q \<longleftrightarrow> phase_number p < phase_number q"

instance
  by standard (auto simp: less_eq_flight_phase_def less_flight_phase_def phase_number_inject)

end

text \<open>Within a lap the phases only advance.\<close>

lemma phase_at_mono: "i \<le> j \<Longrightarrow> phase_at i \<le> phase_at j"
  by (auto simp: phase_at_def less_eq_flight_phase_def)

lemma flight_profile_mono:
  assumes "profile_index k \<le> profile_index n"
  shows "flight_profile k \<le> flight_profile n"
proof -
  have "(word_of_nat (profile_index k) :: u64) \<le> word_of_nat (profile_index n)"
    using assms profile_index_bound [of k] profile_index_bound [of n] by (simp add: word_le_nat_alt unat_of_nat)
  from phase_at_mono [OF this] show ?thesis unfolding phase_at_profile .
qed

lemma samples_index:
  "samples m inputs sim = Some (records, sim') \<Longrightarrow> sm_sample_index sim = word_of_nat (profile_index n) \<Longrightarrow>
    sm_sample_index sim' = word_of_nat (profile_index (n + length inputs)) \<and> length records = length inputs"
proof (induction inputs arbitrary: sim records n)
  case Nil
  then show ?case by simp
next
  case (Cons input inputs)
  then obtain r1 sim1 records1 where step: "next_sample m (fst input) (snd input) sim = Some (r1, sim1)"
    and rest: "samples m inputs sim1 = Some (records1, sim')" and records: "records = r1 # records1"
    by (auto split: option.splits)
  from next_sample_index [OF step] Cons.prems(2) have "sm_sample_index sim1 = word_of_nat (profile_index (Suc n))"
    by (simp add: next_profile_index)
  from Cons.IH [OF rest this] show ?case by (simp add: records)
qed

text \<open>The position within a phase does not underflow.\<close>

lemma phase_at_window:
  "phase_start (phase_at (word_of_nat (profile_index n))) \<le> word_of_nat (profile_index n) \<and>
   word_of_nat (profile_index n) - phase_start (phase_at (word_of_nat (profile_index n))) <
     phase_duration (phase_at (word_of_nat (profile_index n)))"
proof -
  have small: "unat (word_of_nat (profile_index n) :: u64) = profile_index n"
    using profile_index_bound [of n] by (simp add: unat_of_nat)
  show ?thesis
    using profile_index_bound [of n]
    by (auto simp: phase_at_def word_less_nat_alt word_le_nat_alt small unat_sub)
qed

lemma make_simulator_index: "sm_sample_index (make_simulator m seed) = word_of_nat (profile_index 0)"
  by (simp add: make_simulator_def Let_def profile_index_def split: prod.splits)

text \<open>C23. The simulator flies the profile: whatever the platform computes, after any number of
  samples the next one is in the phase the schedule of 335 samples names, repeating from the
  cruise once it has landed, and its position in the phase is within the phase's duration; within a lap of the schedule the phase
  never goes back.\<close>

theorem simulator_follows_profile:
  assumes "samples m inputs (make_simulator m seed) = Some (records, sim)"
  shows "current_phase sim = flight_profile (length inputs) \<and>
    phase_start (current_phase sim) \<le> sm_sample_index sim \<and>
    sm_sample_index sim - phase_start (current_phase sim) < phase_duration (current_phase sim) \<and>
    (\<forall>k. profile_index k \<le> profile_index (length inputs) \<longrightarrow> flight_profile k \<le> current_phase sim)"
  using samples_index [OF assms make_simulator_index] phase_at_window [of "length inputs"]
    phase_at_profile [of "length inputs"] flight_profile_mono [of _ "length inputs"]
  by (simp add: current_phase_def)

text \<open>A platform on which every number is zero: its simulator never has a heading to wrap.\<close>

definition zero_machine :: "unit machine" where
  "zero_machine = \<lparr>mc_number = (\<lambda>_ _. 0), mc_of_u64 = (\<lambda>_. 0), mc_add = (\<lambda>_ _. 0), mc_sub = (\<lambda>_ _. 0),
     mc_mul = (\<lambda>_ _. 0), mc_div = (\<lambda>_ _. 0), mc_less = (\<lambda>_ _. False), mc_leq = (\<lambda>_ _. False),
     mc_sin = (\<lambda>_. 0), mc_abs = (\<lambda>_. 0), mc_seed = (\<lambda>_. ()),
     mc_uniform_int = (\<lambda>low high g. (low, g)), mc_uniform_real = (\<lambda>low high g. (0, g))\<rparr>"

lemma zero_machine_wrap: "wrap_degrees zero_machine v = Some v"
proof -
  have "wrap_down zero_machine v = Some v" "wrap_up zero_machine v = Some v"
    by (subst wrap_down.simps wrap_up.simps, simp add: zero_machine_def)+
  then show ?thesis by (simp add: wrap_degrees_def)
qed

lemma zero_machine_sample: "\<exists>r sim'. next_sample zero_machine ts overrun sim = Some (r, sim')"
  by (auto simp: next_sample_def Let_def zero_machine_wrap sensor_glitch_def split: option.split prod.split)

lemma zero_machine_samples: "\<exists>rs sim'. samples zero_machine inputs sim = Some (rs, sim')"
proof (induction inputs arbitrary: sim)
  case Nil
  then show ?case by simp
next
  case (Cons input inputs)
  obtain r sim1 where "next_sample zero_machine (fst input) (snd input) sim = Some (r, sim1)"
    using zero_machine_sample by blast
  with Cons [of sim1] show ?case by auto
qed

lemma simulator_follows_profile_witness:
  "\<exists>records sim. samples zero_machine (replicate 350 (7, False)) (make_simulator zero_machine 42) = Some (records, sim) \<and>
    current_phase sim = Cruise"
proof -
  obtain records sim where
    run: "samples zero_machine (replicate 350 (7, False)) (make_simulator zero_machine 42) = Some (records, sim)"
    using zero_machine_samples by blast
  have "flight_profile 350 = Cruise" by (simp add: flight_profile_def profile_index_def nth_append)
  with simulator_follows_profile [OF run] run show ?thesis by auto
qed

section \<open>The status of a sample\<close>

lemma flag_bits:
  "bit StatusNominal i \<longleftrightarrow> i = 0" "bit StatusEngineWarning i \<longleftrightarrow> i = 1" "bit StatusLowOilPressure i \<longleftrightarrow> i = 2"
  "bit StatusPitotDisagree i \<longleftrightarrow> i = 3" "bit StatusRecorderBufferOverrun i \<longleftrightarrow> i = 4"
  "bit StatusSensorGlitch i \<longleftrightarrow> i = 5" "bit StatusAltitudeDeviation i \<longleftrightarrow> i = 6"
  "bit StatusFlightPhaseTransition i \<longleftrightarrow> i = 7"
  unfolding StatusNominal_def StatusEngineWarning_def StatusLowOilPressure_def StatusPitotDisagree_def
    StatusRecorderBufferOverrun_def StatusSensorGlitch_def StatusAltitudeDeviation_def StatusFlightPhaseTransition_def
    bit_push_bit_iff bit_1_iff
  by auto

text \<open>A status made of known flags, nominal among them, with the transition flag or without.\<close>

definition status_ok :: "bool \<Rightarrow> u32 \<Rightarrow> bool" where
  "status_ok transition status \<longleftrightarrow> (\<forall>i. bit status i \<longrightarrow> i < 8) \<and> bit status 0 \<and> \<not> bit status 4 \<and>
     bit status 7 = transition"

lemma status_ok_flag:
  "status_ok t status \<Longrightarrow> status_ok t (status OR StatusEngineWarning)"
  "status_ok t status \<Longrightarrow> status_ok t (status OR StatusLowOilPressure)"
  "status_ok t status \<Longrightarrow> status_ok t (status OR StatusAltitudeDeviation)"
  "status_ok t status \<Longrightarrow> status_ok t (status OR (StatusSensorGlitch OR StatusPitotDisagree))"
  by (auto simp: status_ok_def flag_bits bit_or_iff)

lemma status_ok_start:
  "status_ok (p \<noteq> q) (if p \<noteq> q then StatusNominal OR StatusFlightPhaseTransition else StatusNominal)"
  by (auto simp: status_ok_def flag_bits bit_or_iff)

lemma engine_spike_status: "status_ok t status \<Longrightarrow> status_ok t (snd (engine_spike m (sim, status)))"
  by (simp add: engine_spike_def status_ok_flag)

lemma altitude_drop_status: "status_ok t (snd x) \<Longrightarrow> status_ok t (snd (altitude_drop m x))"
  by (cases x) (simp add: altitude_drop_def status_ok_flag)

lemma sensor_glitch_status: "sensor_glitch m x = Some y \<Longrightarrow> status_ok t (snd x) \<Longrightarrow> status_ok t (snd y)"
  by (cases x) (auto simp: sensor_glitch_def status_ok_flag split: if_splits option.splits)

text \<open>C24. What the status of a sample says: only the eight defined flags, the nominal flag always;
  the overrun flag exactly when the queue overran since the sample before, and the transition flag
  exactly when the phase is not that of the sample before. The timestamp is the caller's.\<close>

theorem sample_status_flags:
  assumes "next_sample m ts overrun sim = Some (r, sim')"
  shows "timestamp_us r = ts \<and> (\<forall>i. bit (system_status r) i \<longrightarrow> i < 8) \<and> bit (system_status r) 0 \<and>
    bit (system_status r) 4 = overrun \<and> bit (system_status r) 7 = (current_phase sim \<noteq> sm_last_phase sim)"
proof -
  let ?t = "current_phase sim \<noteq> sm_last_phase sim"
  obtain sim3 sim4 status4 where
    glitch: "sensor_glitch m (altitude_drop m (engine_spike m (sim3,
      if ?t then StatusNominal OR StatusFlightPhaseTransition else StatusNominal))) = Some (sim4, status4)"
    and r: "r = sample_record ts (final_status m (current_phase sim) overrun (sim4, status4))
      (sim4\<lparr>sm_last_phase := current_phase sim, sm_sample_index := next_index (sm_sample_index sim4)\<rparr>)"
    using assms unfolding next_sample_def Let_def by (fastforce split: option.splits)
  have "status_ok ?t status4"
    using sensor_glitch_status [OF glitch altitude_drop_status [OF engine_spike_status [OF status_ok_start]]] by simp
  then show ?thesis
    by (auto simp: r sample_record_def final_status_def status_ok_def flag_bits bit_or_iff Let_def)
qed

lemma sample_status_flags_witness:
  "\<exists>r sim'. next_sample zero_machine 9 True (make_simulator zero_machine 42) = Some (r, sim') \<and>
    timestamp_us r = 9 \<and> bit (system_status r) 4"
proof -
  obtain r sim' where step: "next_sample zero_machine 9 True (make_simulator zero_machine 42) = Some (r, sim')"
    using zero_machine_sample by blast
  with sample_status_flags [OF step] show ?thesis by blast
qed

end
