(* ===== verification/Recorder.thy ===== *)
theory Recorder
  imports Session Ring_Buffer Sensor_Simulator
begin

text \<open>
  The recorder, \<open>flight_recorder.cpp\<close>: a sensor thread that samples into the ring, a writer thread
  that drains it into the log, and the thread that starts and stops them. A step is one operation
  on the ring, one call of the writer, or one decision of a loop; which thread moves, what the
  clock says and what the system answers is open. A pop that finds the ring empty looks at the
  closed flag in a step of its own, as \<open>try_pop_status\<close> does. Two lists that no operation reads
  record the history: the samples pushed and the batches appended.
\<close>

section \<open>State\<close>

record recorder_config =
  cf_output_path :: string
  cf_buffer_size :: u64
  cf_batch_size :: u64
  cf_sync_every_batches :: u64
  cf_flush_interval_ms :: u32
  cf_preallocation_chunk_bytes :: u64
  cf_serialization_buffer_alignment :: u64
  cf_sample_rate_hz :: u32
  cf_unpaced_producer :: bool
  cf_simulator_seed :: u32
  cf_fault_config :: runtime_fault_config

definition default_recorder_config :: recorder_config where
  "default_recorder_config = \<lparr>cf_output_path = ''flight_log.bin'', cf_buffer_size = 256,
     cf_batch_size = 64, cf_sync_every_batches = 1, cf_flush_interval_ms = 0,
     cf_preallocation_chunk_bytes = 4 * 1024 * 1024, cf_serialization_buffer_alignment = 4096,
     cf_sample_rate_hz = 20, cf_unpaced_producer = False, cf_simulator_seed = 42,
     cf_fault_config = no_fault_config\<rparr>"

text \<open>Where each thread is. \<open>Ended\<close> is a thread that has returned and not been joined.\<close>

datatype sensor_pc = S_Off | S_Loop | S_Pushing flight_record | S_Ended

datatype writer_pc =
    W_Off
  | W_Loop
  | W_Pop
  | W_Empty
  | W_Drain sequenced_record
  | W_Append "sequenced_record list"
  | W_Finish
  | W_Ended

datatype main_pc = M_Free | M_Join_Sensor | M_Join_Writer

record 'g recorder =
  rc_config :: recorder_config
  rc_buffer :: ring
  rc_simulator :: "'g simulator"
  rc_writer :: writer
  rc_running :: bool
  rc_stop_requested :: bool
  rc_overflow_since_last_sample :: bool
  rc_sequence :: u64
  rc_total_records_generated :: u64
  rc_total_records_written :: u64
  rc_total_records_committed :: u64
  rc_dropped_records :: u64
  rc_buffer_high_watermark :: u64
  rc_writer_error :: bool
  rc_start_sequence :: u64
  rc_sensor_thread :: sensor_pc
  rc_writer_thread :: writer_pc
  rc_main_thread :: main_pc
  rc_pending_commit :: bool
  rc_commit_deadline :: nat
  rc_os :: os
  rc_exit :: "nat option"
  rc_pushed :: "flight_record list"
  rc_appended :: "sequenced_record list list"

record recorder_stats =
  st_total_records_generated :: u64
  st_total_records_written :: u64
  st_total_records_committed :: u64
  st_dropped_records :: u64
  st_buffer_high_watermark :: u64
  st_writer_error :: bool

definition config_writer_options :: "recorder_config \<Rightarrow> writer_options" where
  "config_writer_options c = \<lparr>wo_batch_capacity_records = unat (cf_batch_size c),
     wo_sync_every_batches = unat (cf_sync_every_batches c),
     wo_preallocation_chunk_bytes = unat (cf_preallocation_chunk_bytes c),
     wo_serialization_buffer_alignment = cf_serialization_buffer_alignment c\<rparr>"

text \<open>The clock's largest time point, in nanoseconds.\<close>

definition max_time_point :: nat where
  "max_time_point = 2 ^ 63 - 1"

definition make_recorder :: "'g machine \<Rightarrow> recorder_config \<Rightarrow> os \<Rightarrow> 'g recorder" where
  "make_recorder m c s = \<lparr>rc_config = c, rc_buffer = make_ring (cf_buffer_size c),
     rc_simulator = make_simulator m (cf_simulator_seed c),
     rc_writer = make_writer (cf_output_path c) (cf_fault_config c) (config_writer_options c),
     rc_running = False, rc_stop_requested = False, rc_overflow_since_last_sample = False,
     rc_sequence = 0, rc_total_records_generated = 0, rc_total_records_written = 0,
     rc_total_records_committed = 0, rc_dropped_records = 0, rc_buffer_high_watermark = 0,
     rc_writer_error = False, rc_start_sequence = 0, rc_sensor_thread = S_Off,
     rc_writer_thread = W_Off, rc_main_thread = M_Free, rc_pending_commit = False,
     rc_commit_deadline = max_time_point, rc_os = s, rc_exit = None, rc_pushed = [], rc_appended = []\<rparr>"

definition set_start_sequence :: "u64 \<Rightarrow> 'g recorder \<Rightarrow> 'g recorder" where
  "set_start_sequence q r = r\<lparr>rc_start_sequence := q\<rparr>"

section \<open>Starting\<close>

definition start_recorder :: "'g recorder \<Rightarrow> bool \<times> 'g recorder" where
  "start_recorder r =
    (let c = rc_config r in
     if cf_buffer_size c = 0 \<or> cf_sample_rate_hz c = 0 \<or> cf_batch_size c = 0 \<or>
        cf_sync_every_batches c = 0 \<or> cf_output_path c = [] then (False, r)
     else if rc_running r then (False, r)
     else
     let r1 = r\<lparr>rc_running := True, rc_stop_requested := False, rc_writer_error := False,
           rc_overflow_since_last_sample := False, rc_sequence := rc_start_sequence r,
           rc_total_records_generated := 0, rc_total_records_written := 0,
           rc_total_records_committed := 0, rc_dropped_records := 0, rc_buffer_high_watermark := 0,
           rc_buffer := reset_ring (rc_buffer r)\<rparr> in
     case open_writer (rc_writer r1) (rc_os r1) of (result, w, s) \<Rightarrow>
     let r2 = r1\<lparr>rc_writer := w, rc_os := s\<rparr> in
     (case result of
        Exits code \<Rightarrow> (False, r2\<lparr>rc_exit := Some code\<rparr>)
      | Returns is_open \<Rightarrow>
     if \<not> is_open then (False, r2\<lparr>rc_running := False\<rparr>)
     else (True, r2\<lparr>rc_writer := reset_measurement_counters w, rc_sensor_thread := S_Loop,
       rc_writer_thread := W_Loop, rc_pending_commit := False, rc_commit_deadline := max_time_point,
       rc_pushed := [], rc_appended := []\<rparr>)))"

section \<open>The sensor thread\<close>

text \<open>Top of the loop: take a sample, unless a stop is requested.\<close>

definition sensor_sample :: "'g machine \<Rightarrow> u64 \<Rightarrow> 'g recorder \<Rightarrow> 'g recorder option" where
  "sensor_sample m now_microseconds r =
    (if rc_stop_requested r then Some (r\<lparr>rc_sensor_thread := S_Ended\<rparr>)
     else (case next_sample m now_microseconds (rc_overflow_since_last_sample r) (rc_simulator r) of
         None \<Rightarrow> None
       | Some (sample, sim) \<Rightarrow> Some (r\<lparr>rc_overflow_since_last_sample := False, rc_simulator := sim,
           rc_sensor_thread := S_Pushing sample\<rparr>)))"

text \<open>One attempt of \<open>push_wait_for\<close>; a full ring leaves the thread waiting.\<close>

definition sensor_push :: "flight_record \<Rightarrow> 'g recorder \<Rightarrow> 'g recorder" where
  "sensor_push sample r =
    (case try_push sample (rc_buffer r) of (status, ring) \<Rightarrow>
     (case status of
        Pushed \<Rightarrow> r\<lparr>rc_buffer := ring, rc_pushed := rc_pushed r @ [sample],
          rc_total_records_generated := rc_total_records_generated r + 1,
          rc_buffer_high_watermark := max (rc_buffer_high_watermark r) (rs_high_watermark (ring_statistics ring)),
          rc_sensor_thread := S_Loop\<rparr>
      | Push_Closed \<Rightarrow> r\<lparr>rc_sensor_thread := S_Ended\<rparr>
      | Push_Timeout \<Rightarrow> r))"

text \<open>The deadline of \<open>push_wait_for\<close> passes with the ring still full and open.\<close>

definition sensor_drop :: "'g recorder \<Rightarrow> 'g recorder" where
  "sensor_drop r = r\<lparr>rc_buffer := (rc_buffer r)\<lparr>rb_dropped_records := rb_dropped_records (rc_buffer r) + 1\<rparr>,
     rc_total_records_generated := rc_total_records_generated r + 1,
     rc_dropped_records := rc_dropped_records r + 1, rc_overflow_since_last_sample := True,
     rc_sensor_thread := S_Loop\<rparr>"

section \<open>The writer thread\<close>

text \<open>A call of the writer takes its state and the system's; an \<open>_exit\<close> ends the process.\<close>

definition writer_call :: "(writer \<Rightarrow> os \<Rightarrow> bool call \<times> writer \<times> os) \<Rightarrow>
    (bool \<Rightarrow> 'g recorder \<Rightarrow> 'g recorder) \<Rightarrow> 'g recorder \<Rightarrow> 'g recorder" where
  "writer_call f continue r =
    (case f (rc_writer r) (rc_os r) of (result, w, s) \<Rightarrow>
     let r1 = r\<lparr>rc_writer := w, rc_os := s\<rparr> in
     (case result of Exits code \<Rightarrow> r1\<lparr>rc_exit := Some code\<rparr> | Returns ok \<Rightarrow> continue ok r1))"

definition committed_now :: "'g recorder \<Rightarrow> 'g recorder" where
  "committed_now r = r\<lparr>rc_total_records_committed := word_of_nat (ws_records_committed (w_stats (rc_writer r)))\<rparr>"

text \<open>A failed write or commit stops the acquisition and ends the loop.\<close>

definition writer_fails :: "'g recorder \<Rightarrow> 'g recorder" where
  "writer_fails r = r\<lparr>rc_stop_requested := True, rc_writer_error := True,
     rc_buffer := close_ring (rc_buffer r), rc_writer_thread := W_Finish\<rparr>"

text \<open>Top of the loop: the commit that is due.\<close>

definition writer_top :: "nat \<Rightarrow> 'g recorder \<Rightarrow> 'g recorder" where
  "writer_top now r =
    (if rc_pending_commit r \<and> rc_commit_deadline r \<le> now then
       writer_call flush (\<lambda>ok r1. if \<not> ok then writer_fails r1
         else (committed_now r1)\<lparr>rc_pending_commit := False, rc_writer_thread := W_Pop\<rparr>) r
     else r\<lparr>rc_writer_thread := W_Pop\<rparr>)"

definition take_sequence :: "flight_record \<Rightarrow> 'g recorder \<Rightarrow> sequenced_record \<times> 'g recorder" where
  "take_sequence x r = (\<lparr>sq_record = x, sq_sequence = rc_sequence r + 1\<rparr>, r\<lparr>rc_sequence := rc_sequence r + 1\<rparr>)"

primrec take_sequences :: "flight_record list \<Rightarrow> 'g recorder \<Rightarrow> sequenced_record list \<times> 'g recorder" where
  "take_sequences [] r = ([], r)"
| "take_sequences (x # xs) r = (case take_sequence x r of (y, r1) \<Rightarrow>
     case take_sequences xs r1 of (ys, r2) \<Rightarrow> (y # ys, r2))"

text \<open>The pop: the cursors first, the closed flag, when there is nothing, in the next step.\<close>

definition writer_pop :: "'g recorder \<Rightarrow> 'g recorder" where
  "writer_pop r =
    (if ring_empty (rc_buffer r) then r\<lparr>rc_writer_thread := W_Empty\<rparr>
     else (case try_pop_status default_flight_record (rc_buffer r) of (_, x, ring) \<Rightarrow>
       case take_sequence x (r\<lparr>rc_buffer := ring\<rparr>) of (first, r1) \<Rightarrow>
       r1\<lparr>rc_writer_thread := W_Drain first\<rparr>))"

definition writer_drain :: "sequenced_record \<Rightarrow> 'g recorder \<Rightarrow> 'g recorder" where
  "writer_drain first r =
    (case try_pop_batch (cf_batch_size (rc_config r) - 1) (rc_buffer r) of (xs, ring) \<Rightarrow>
     case take_sequences xs (r\<lparr>rc_buffer := ring\<rparr>) of (rest, r1) \<Rightarrow>
     r1\<lparr>rc_writer_thread := W_Append (first # rest)\<rparr>)"

definition writer_append :: "nat \<Rightarrow> sequenced_record list \<Rightarrow> 'g recorder \<Rightarrow> 'g recorder" where
  "writer_append batch_started batch r =
    writer_call (append_batch batch) (\<lambda>ok r1.
      if \<not> ok then writer_fails r1
      else
      let r2 = committed_now (r1\<lparr>rc_appended := rc_appended r1 @ [batch], rc_writer_thread := W_Loop,
            rc_total_records_written := rc_total_records_written r1 + word_of_nat (length batch)\<rparr>);
          stats = w_stats (rc_writer r2) in
      if ws_records_written stats = ws_records_committed stats then r2\<lparr>rc_pending_commit := False\<rparr>
      else if cf_flush_interval_ms (rc_config r2) \<noteq> 0 \<and> \<not> rc_pending_commit r2 then
        r2\<lparr>rc_commit_deadline := batch_started + unat (cf_flush_interval_ms (rc_config r2)) * 1000000,
           rc_pending_commit := True\<rparr>
      else r2) r"

text \<open>After the loop.\<close>

definition writer_finish :: "'g recorder \<Rightarrow> 'g recorder" where
  "writer_finish r = writer_call flush (\<lambda>ok r1.
     (committed_now (if \<not> ok then r1\<lparr>rc_writer_error := True\<rparr> else r1))\<lparr>rc_writer_thread := W_Ended\<rparr>) r"

section \<open>Stopping\<close>

definition stop_request :: "'g recorder \<Rightarrow> 'g recorder" where
  "stop_request r =
    (if \<not> rc_running r \<and> rc_sensor_thread r = S_Off \<and> rc_writer_thread r = W_Off then r\<lparr>rc_running := False\<rparr>
     else r\<lparr>rc_running := False, rc_stop_requested := True, rc_main_thread := M_Join_Sensor\<rparr>)"

definition stop_joined_sensor :: "'g recorder \<Rightarrow> 'g recorder" where
  "stop_joined_sensor r = r\<lparr>rc_sensor_thread := S_Off, rc_buffer := close_ring (rc_buffer r),
     rc_main_thread := M_Join_Writer\<rparr>"

definition stop_joined_writer :: "'g recorder \<Rightarrow> 'g recorder" where
  "stop_joined_writer r =
    writer_call flush (\<lambda>_ r1.
      case close (rc_writer r1) (rc_os r1) of (result, w, s) \<Rightarrow>
      let r2 = r1\<lparr>rc_writer := w, rc_os := s\<rparr> in
      (case result of Exits code \<Rightarrow> r2\<lparr>rc_exit := Some code\<rparr>
       | Returns _ \<Rightarrow> r2\<lparr>rc_writer_thread := W_Off, rc_main_thread := M_Free\<rparr>)) r"

definition recorder_statistics :: "'g recorder \<Rightarrow> recorder_stats" where
  "recorder_statistics r = \<lparr>st_total_records_generated = rc_total_records_generated r,
     st_total_records_written = rc_total_records_written r,
     st_total_records_committed = rc_total_records_committed r,
     st_dropped_records = rc_dropped_records r,
     st_buffer_high_watermark =
       max (rc_buffer_high_watermark r) (rs_high_watermark (ring_statistics (rc_buffer r))),
     st_writer_error = rc_writer_error r\<rparr>"

section \<open>Steps\<close>

inductive recorder_step :: "'g machine \<Rightarrow> 'g recorder \<Rightarrow> 'g recorder \<Rightarrow> bool" for m where
  rs_sample: "rc_exit r = None \<Longrightarrow> rc_sensor_thread r = S_Loop \<Longrightarrow> sensor_sample m now r = Some r' \<Longrightarrow>
    recorder_step m r r'"
| rs_push: "rc_exit r = None \<Longrightarrow> rc_sensor_thread r = S_Pushing x \<Longrightarrow> recorder_step m r (sensor_push x r)"
| rs_drop: "rc_exit r = None \<Longrightarrow> rc_sensor_thread r = S_Pushing x \<Longrightarrow> \<not> rb_closed (rc_buffer r) \<Longrightarrow>
    ring_full (rc_buffer r) \<Longrightarrow> recorder_step m r (sensor_drop r)"
| rs_top: "rc_exit r = None \<Longrightarrow> rc_writer_thread r = W_Loop \<Longrightarrow> recorder_step m r (writer_top now r)"
| rs_pop: "rc_exit r = None \<Longrightarrow> rc_writer_thread r = W_Pop \<Longrightarrow> recorder_step m r (writer_pop r)"
| rs_closed: "rc_exit r = None \<Longrightarrow> rc_writer_thread r = W_Empty \<Longrightarrow> rb_closed (rc_buffer r) \<Longrightarrow>
    recorder_step m r (r\<lparr>rc_writer_thread := W_Finish\<rparr>)"
| rs_woken: "rc_exit r = None \<Longrightarrow> rc_writer_thread r = W_Empty \<Longrightarrow>
    rb_closed (rc_buffer r) \<or> \<not> ring_empty (rc_buffer r) \<Longrightarrow> recorder_step m r (r\<lparr>rc_writer_thread := W_Pop\<rparr>)"
| rs_timeout: "rc_exit r = None \<Longrightarrow> rc_writer_thread r = W_Empty \<Longrightarrow> \<not> rb_closed (rc_buffer r) \<Longrightarrow>
    ring_empty (rc_buffer r) \<Longrightarrow> recorder_step m r (r\<lparr>rc_writer_thread := W_Loop\<rparr>)"
| rs_drain: "rc_exit r = None \<Longrightarrow> rc_writer_thread r = W_Drain first \<Longrightarrow>
    recorder_step m r (writer_drain first r)"
| rs_append: "rc_exit r = None \<Longrightarrow> rc_writer_thread r = W_Append batch \<Longrightarrow>
    recorder_step m r (writer_append now batch r)"
| rs_finish: "rc_exit r = None \<Longrightarrow> rc_writer_thread r = W_Finish \<Longrightarrow> recorder_step m r (writer_finish r)"
| rs_stop: "rc_exit r = None \<Longrightarrow> rc_main_thread r = M_Free \<Longrightarrow> recorder_step m r (stop_request r)"
| rs_joined_sensor: "rc_exit r = None \<Longrightarrow> rc_main_thread r = M_Join_Sensor \<Longrightarrow>
    rc_sensor_thread r = S_Ended \<or> rc_sensor_thread r = S_Off \<Longrightarrow> recorder_step m r (stop_joined_sensor r)"
| rs_joined_writer: "rc_exit r = None \<Longrightarrow> rc_main_thread r = M_Join_Writer \<Longrightarrow>
    rc_writer_thread r = W_Ended \<or> rc_writer_thread r = W_Off \<Longrightarrow> recorder_step m r (stop_joined_writer r)"

inductive recorder_run :: "'g machine \<Rightarrow> 'g recorder \<Rightarrow> 'g recorder \<Rightarrow> bool" for m r0 where
  run_start: "recorder_run m r0 r0"
| run_step: "recorder_run m r0 r \<Longrightarrow> recorder_step m r r' \<Longrightarrow> recorder_run m r0 r'"

section \<open>The ledger\<close>

primrec number_from :: "u64 \<Rightarrow> flight_record list \<Rightarrow> sequenced_record list" where
  "number_from q [] = []"
| "number_from q (x # xs) = \<lparr>sq_record = x, sq_sequence = q + 1\<rparr> # number_from (q + 1) xs"

lemma length_number_from [simp]: "length (number_from q xs) = length xs"
  by (induction xs arbitrary: q) auto

lemma map_number_from [simp]: "map sq_record (number_from q xs) = xs"
  by (induction xs arbitrary: q) auto

lemma number_from_append:
  "number_from q (xs @ ys) = number_from q xs @ number_from (q + word_of_nat (length xs)) ys"
  by (induction xs arbitrary: q) (auto simp: add.assoc)

lemma take_sequences_number:
  "take_sequences xs r = (number_from (rc_sequence r) xs, r\<lparr>rc_sequence := rc_sequence r + word_of_nat (length xs)\<rparr>)"
  by (induction xs arbitrary: r) (auto simp: take_sequence_def add.assoc)

text \<open>Records that have left the ring and are not in the log yet.\<close>

definition in_hand :: "'g recorder \<Rightarrow> sequenced_record list" where
  "in_hand r = (case rc_writer_thread r of W_Drain first \<Rightarrow> [first] | W_Append batch \<Rightarrow> batch | _ \<Rightarrow> [])"

definition taken :: "'g recorder \<Rightarrow> sequenced_record list" where
  "taken r = concat (rc_appended r) @ in_hand r"

text \<open>
  Every pushed sample is in an appended batch, in hand, lost with the batch whose write failed, or
  in the ring; the samples taken carry consecutive numbers; the counters count.
\<close>

definition ledger :: "u64 \<Rightarrow> flight_record list \<Rightarrow> 'g recorder \<Rightarrow> bool" where
  "ledger start lost r \<longleftrightarrow>
     map sq_record (taken r) @ lost @ ring_items (rc_buffer r) = rc_pushed r \<and>
     number_from start (map sq_record (taken r)) = taken r \<and>
     (lost = [] \<longrightarrow> rc_sequence r = start + word_of_nat (length (taken r))) \<and>
     (lost \<noteq> [] \<longrightarrow> rc_writer_error r \<and> rc_writer_thread r \<in> {W_Finish, W_Ended, W_Off}) \<and>
     rc_total_records_generated r = word_of_nat (length (rc_pushed r)) + rc_dropped_records r \<and>
     rb_dropped_records (rc_buffer r) = rc_dropped_records r \<and>
     rc_total_records_written r = word_of_nat (length (concat (rc_appended r))) \<and>
     length (rc_pushed r) < 2 ^ 64 \<and>
     ring_inv (2 ^ 64 - 1 - length (rc_pushed r)) (rc_buffer r)"

lemma ring_fields [simp]:
  "ring_items (close_ring ring) = ring_items ring"
  "ring_items (ring\<lparr>rb_dropped_records := d\<rparr>) = ring_items ring"
  "ring_inv n (close_ring ring) = ring_inv n ring"
  "ring_inv n (ring\<lparr>rb_dropped_records := d\<rparr>) = ring_inv n ring"
  "rb_dropped_records (close_ring ring) = rb_dropped_records ring"
  by (simp_all add: close_ring_def ring_items_def slot_index_def ring_inv_def)

text \<open>A step that leaves the queue and the history alone.\<close>

lemma ledger_frame:
  assumes "ledger start lost r" and "rc_pushed r' = rc_pushed r" and "rc_buffer r' = rc_buffer r"
    and "rc_appended r' = rc_appended r" and "in_hand r' = in_hand r" and "rc_sequence r' = rc_sequence r"
    and "rc_total_records_generated r' = rc_total_records_generated r"
    and "rc_total_records_written r' = rc_total_records_written r"
    and "rc_dropped_records r' = rc_dropped_records r"
    and "rc_writer_error r \<Longrightarrow> rc_writer_error r'"
    and "rc_writer_thread r \<in> {W_Finish, W_Ended, W_Off} \<Longrightarrow> rc_writer_thread r' \<in> {W_Finish, W_Ended, W_Off}"
  shows "ledger start lost r'"
  using assms by (auto simp: ledger_def taken_def)

lemma ledger_close:
  "ledger start lost r \<Longrightarrow> ledger start lost (r\<lparr>rc_buffer := close_ring (rc_buffer r)\<rparr>)"
  by (simp add: ledger_def taken_def in_hand_def)

lemma ledger_sample:
  assumes "ledger start lost r" and "sensor_sample m now r = Some r'"
  shows "ledger start lost r'"
  using assms(2) by (auto simp: sensor_sample_def in_hand_def split: if_splits option.splits intro!: ledger_frame [OF assms(1)])

lemma try_push_dropped: "try_push x ring = (st, ring') \<Longrightarrow> rb_dropped_records ring' = rb_dropped_records ring"
  using ring_step_dropped [of "Push_Move x" ring] by simp

lemma ledger_push:
  assumes led: "ledger start lost r" and bound: "length (rc_pushed (sensor_push x r)) < 2 ^ 64"
  shows "ledger start lost (sensor_push x r)"
proof -
  obtain st ring where step: "try_push x (rc_buffer r) = (st, ring)" by force
  show ?thesis
  proof (cases st)
    case Pushed
    then have r': "rc_pushed (sensor_push x r) = rc_pushed r @ [x]"
      by (simp add: sensor_push_def step)
    with bound have "Suc (2 ^ 64 - 1 - length (rc_pushed r @ [x])) = 2 ^ 64 - 1 - length (rc_pushed r)"
      by simp
    with led have inv: "ring_inv (Suc (2 ^ 64 - 1 - length (rc_pushed r @ [x]))) (rc_buffer r)"
      by (simp add: ledger_def)
    note final = try_push_final(1) [OF inv step Pushed] try_push_refines(3) [OF inv, of x]
    with led bound r' Pushed step show ?thesis
      by (simp add: ledger_def sensor_push_def taken_def in_hand_def add.assoc add.left_commute)
  next
    case Push_Closed
    then show ?thesis
      by (intro ledger_frame [OF led]) (simp_all add: sensor_push_def step in_hand_def)
  next
    case Push_Timeout
    with led show ?thesis by (simp add: sensor_push_def step)
  qed
qed

lemma ledger_drop: "ledger start lost r \<Longrightarrow> ledger start lost (sensor_drop r)"
  by (simp add: ledger_def sensor_drop_def taken_def in_hand_def)

lemma ledger_nothing_lost:
  "ledger start lost r \<Longrightarrow> rc_writer_thread r \<notin> {W_Finish, W_Ended, W_Off} \<Longrightarrow> lost = []"
  by (auto simp: ledger_def)

lemma ledger_call:
  assumes led: "ledger start lost r"
    and rest: "\<And>ok w s. \<exists>lost'. ledger start lost' (continue ok (r\<lparr>rc_writer := w, rc_os := s\<rparr>))"
  shows "\<exists>lost'. ledger start lost' (writer_call f continue r)"
proof -
  obtain result w s where call: "f (rc_writer r) (rc_os r) = (result, w, s)" by (metis prod_cases3)
  show ?thesis
  proof (cases result)
    case (Exits code)
    have "ledger start lost (r\<lparr>rc_writer := w, rc_os := s, rc_exit := Some code\<rparr>)"
      by (rule ledger_frame [OF led]) (simp_all add: in_hand_def)
    then show ?thesis using call Exits by (auto simp: writer_call_def)
  next
    case (Returns ok)
    with rest [where ok = ok and w = w and s = s] show ?thesis by (simp add: writer_call_def call)
  qed
qed

text \<open>A failure loses what was in hand.\<close>

lemma ledger_fails:
  assumes led: "ledger start [] r"
  shows "ledger start (map sq_record (in_hand r)) (writer_fails r)"
proof -
  have "number_from start (map sq_record (concat (rc_appended r) @ in_hand r)) = concat (rc_appended r) @ in_hand r"
    using led by (simp add: ledger_def taken_def)
  then have "number_from start (map sq_record (concat (rc_appended r))) = concat (rc_appended r)"
    unfolding map_append number_from_append by (simp add: append_eq_append_conv)
  with led show ?thesis
    by (auto simp: ledger_def writer_fails_def taken_def in_hand_def split: writer_pc.splits)
qed

lemma ledger_writer_frame:
  "ledger start lost r \<Longrightarrow> ledger start lost (r\<lparr>rc_writer := w, rc_os := s\<rparr>)"
  by (rule ledger_frame) (simp_all add: in_hand_def)

lemma ledger_top:
  assumes led: "ledger start lost r" and pc: "rc_writer_thread r = W_Loop"
  shows "\<exists>lost'. ledger start lost' (writer_top now r)"
proof -
  have lost: "lost = []" using ledger_nothing_lost [OF led] pc by simp
  have pop: "ledger start lost (r'\<lparr>rc_writer_thread := W_Pop\<rparr>)"
    if "ledger start lost r'" and "rc_writer_thread r' = W_Loop" for r' :: "'a recorder"
    using that(2) by (intro ledger_frame [OF that(1)]) (simp_all add: in_hand_def)
  show ?thesis
    unfolding writer_top_def
  proof (split if_split, intro conjI impI)
    show "\<exists>lost'. ledger start lost' (r\<lparr>rc_writer_thread := W_Pop\<rparr>)"
      using pop [OF led pc] by blast
    show "\<exists>lost'. ledger start lost' (writer_call flush (\<lambda>ok r1. if \<not> ok then writer_fails r1
        else (committed_now r1)\<lparr>rc_pending_commit := False, rc_writer_thread := W_Pop\<rparr>) r)"
    proof (rule ledger_call [OF led])
      fix ok w s
      let ?r = "r\<lparr>rc_writer := w, rc_os := s\<rparr>"
      have led': "ledger start [] ?r" using ledger_writer_frame [OF led] lost by simp
      have "ledger start [] ((committed_now ?r)\<lparr>rc_pending_commit := False, rc_writer_thread := W_Pop\<rparr>)"
        by (rule ledger_frame [OF led']) (simp_all add: committed_now_def in_hand_def pc)
      with ledger_fails [OF led'] show "\<exists>lost'. ledger start lost' (if \<not> ok then writer_fails ?r
          else (committed_now ?r)\<lparr>rc_pending_commit := False, rc_writer_thread := W_Pop\<rparr>)"
        by auto
    qed
  qed
qed

lemma ledger_pop:
  assumes led: "ledger start lost r" and pc: "rc_writer_thread r = W_Pop"
  shows "ledger start lost (writer_pop r)"
proof (cases "ring_empty (rc_buffer r)")
  case True
  then show ?thesis
    by (intro ledger_frame [OF led]) (simp_all add: writer_pop_def in_hand_def pc)
next
  case False
  obtain st x ring where pop: "try_pop_status default_flight_record (rc_buffer r) = (st, x, ring)"
    by (metis prod_cases3)
  have lost: "lost = []" using ledger_nothing_lost [OF led] pc by simp
  have inv: "ring_inv (2 ^ 64 - 1 - length (rc_pushed r)) (rc_buffer r)" using led by (simp add: ledger_def)
  from False have "rb_head (rc_buffer r) \<noteq> rb_tail (rc_buffer r)" by (simp add: ring_empty_def)
  with pop have "st = Popped" by (auto simp: try_pop_status_def Let_def)
  with try_pop_refines [OF inv pop] have items: "ring_items (rc_buffer r) = x # ring_items ring"
    and inv': "ring_inv (2 ^ 64 - 1 - length (rc_pushed r)) ring"
    by (auto simp: queue_pop_def ring_abs_def split: list.splits if_splits)
  have dropped: "rb_dropped_records ring = rb_dropped_records (rc_buffer r)"
    using ring_step_dropped [of Pop_Move "rc_buffer r"] pop by simp
  have seq: "rc_sequence r = start + word_of_nat (length (taken r))" using led lost by (simp add: ledger_def)
  have hand: "taken r = concat (rc_appended r)" by (simp add: taken_def in_hand_def pc)
  have "number_from start (map sq_record (concat (rc_appended r)) @ [x]) =
      concat (rc_appended r) @ [\<lparr>sq_record = x, sq_sequence = rc_sequence r + 1\<rparr>]"
    using led seq unfolding number_from_append by (simp add: ledger_def hand)
  with led lost items inv' dropped seq show ?thesis
    by (simp add: writer_pop_def False pop take_sequence_def ledger_def taken_def in_hand_def pc)
qed

lemma ledger_drain:
  assumes led: "ledger start lost r" and pc: "rc_writer_thread r = W_Drain first"
  shows "ledger start lost (writer_drain first r)"
proof -
  obtain xs ring where pop: "try_pop_batch (cf_batch_size (rc_config r) - 1) (rc_buffer r) = (xs, ring)" by force
  have lost: "lost = []" using ledger_nothing_lost [OF led] pc by simp
  have inv: "ring_inv (2 ^ 64 - 1 - length (rc_pushed r)) (rc_buffer r)" using led by (simp add: ledger_def)
  let ?n = "unat (cf_batch_size (rc_config r) - 1)"
  from try_pop_batch_refines [OF inv pop] have "xs = take ?n (ring_items (rc_buffer r))"
    and "ring_items ring = drop ?n (ring_items (rc_buffer r))"
    and inv': "ring_inv (2 ^ 64 - 1 - length (rc_pushed r)) ring"
    by (auto simp: queue_pop_batch_def ring_abs_def)
  then have items: "ring_items (rc_buffer r) = xs @ ring_items ring" by simp
  have dropped: "rb_dropped_records ring = rb_dropped_records (rc_buffer r)"
    using ring_step_dropped [of "Batch_Move (cf_batch_size (rc_config r) - 1)" "rc_buffer r"] pop by simp
  have seq: "rc_sequence r = start + word_of_nat (length (taken r))" using led lost by (simp add: ledger_def)
  have hand: "taken r = concat (rc_appended r) @ [first]" by (simp add: taken_def in_hand_def pc)
  have "number_from start (map sq_record (taken r) @ xs) = taken r @ number_from (rc_sequence r) xs"
    using led seq unfolding number_from_append by (simp add: ledger_def)
  with led lost items inv' dropped seq show ?thesis
    by (simp add: writer_drain_def pop take_sequences_number ledger_def taken_def in_hand_def pc add.assoc)
qed

lemma ledger_appended:
  assumes led: "ledger start [] r" and pc: "rc_writer_thread r = W_Append batch"
  shows "ledger start [] (r\<lparr>rc_appended := rc_appended r @ [batch], rc_writer_thread := W_Loop,
    rc_total_records_written := rc_total_records_written r + word_of_nat (length batch)\<rparr>)"
  using led by (simp add: ledger_def taken_def in_hand_def pc)

lemma ledger_append:
  assumes led: "ledger start lost r" and pc: "rc_writer_thread r = W_Append batch"
  shows "\<exists>lost'. ledger start lost' (writer_append now batch r)"
  unfolding writer_append_def
proof (rule ledger_call [OF led])
  fix ok w s
  let ?r = "r\<lparr>rc_writer := w, rc_os := s\<rparr>"
  have lost: "lost = []" using ledger_nothing_lost [OF led] pc by simp
  have led': "ledger start [] ?r" using ledger_writer_frame [OF led] lost by simp
  let ?r2 = "committed_now (?r\<lparr>rc_appended := rc_appended ?r @ [batch], rc_writer_thread := W_Loop,
      rc_total_records_written := rc_total_records_written ?r + word_of_nat (length batch)\<rparr>)"
  have r2: "ledger start [] ?r2"
    by (rule ledger_frame [OF ledger_appended [OF led', of batch]]) (simp_all add: committed_now_def in_hand_def pc)
  have "ledger start [] (?r2\<lparr>rc_pending_commit := False\<rparr>)"
    "ledger start [] (?r2\<lparr>rc_commit_deadline := d, rc_pending_commit := True\<rparr>)" for d
    by (rule ledger_frame [OF r2]; simp add: in_hand_def)+
  with ledger_fails [OF led'] show "\<exists>lost'. ledger start lost' (if \<not> ok then writer_fails ?r
      else let r2 = ?r2; stats = w_stats (rc_writer r2) in
        if ws_records_written stats = ws_records_committed stats then r2\<lparr>rc_pending_commit := False\<rparr>
        else if cf_flush_interval_ms (rc_config r2) \<noteq> 0 \<and> \<not> rc_pending_commit r2 then
          r2\<lparr>rc_commit_deadline := now + unat (cf_flush_interval_ms (rc_config r2)) * 1000000,
             rc_pending_commit := True\<rparr>
        else r2)"
    using r2 unfolding Let_def by (cases ok) auto
qed

lemma ledger_finish:
  assumes led: "ledger start lost r" and pc: "rc_writer_thread r = W_Finish"
  shows "\<exists>lost'. ledger start lost' (writer_finish r)"
  unfolding writer_finish_def
proof (rule ledger_call [OF led])
  fix ok w s
  have "ledger start lost ((committed_now (if \<not> ok then (r\<lparr>rc_writer := w, rc_os := s\<rparr>)\<lparr>rc_writer_error := True\<rparr>
      else r\<lparr>rc_writer := w, rc_os := s\<rparr>))\<lparr>rc_writer_thread := W_Ended\<rparr>)"
    by (rule ledger_frame [OF led]) (simp_all add: committed_now_def in_hand_def pc)
  then show "\<exists>lost'. ledger start lost' ((committed_now (if \<not> ok then (r\<lparr>rc_writer := w, rc_os := s\<rparr>)\<lparr>rc_writer_error := True\<rparr>
      else r\<lparr>rc_writer := w, rc_os := s\<rparr>))\<lparr>rc_writer_thread := W_Ended\<rparr>)" ..
qed

lemma ledger_joined_writer:
  assumes led: "ledger start lost r" and pc: "rc_writer_thread r = W_Ended \<or> rc_writer_thread r = W_Off"
  shows "\<exists>lost'. ledger start lost' (stop_joined_writer r)"
  unfolding stop_joined_writer_def
proof (rule ledger_call [OF led])
  fix ok w s
  let ?r = "r\<lparr>rc_writer := w, rc_os := s\<rparr>"
  obtain result w1 s1 where call: "close (rc_writer ?r) (rc_os ?r) = (result, w1, s1)" by (metis prod_cases3)
  have "ledger start lost (?r\<lparr>rc_writer := w1, rc_os := s1, rc_exit := Some code\<rparr>)"
    "ledger start lost (?r\<lparr>rc_writer := w1, rc_os := s1, rc_writer_thread := W_Off, rc_main_thread := M_Free\<rparr>)" for code
    using pc by (auto intro!: ledger_frame [OF led] simp: in_hand_def)
  then show "\<exists>lost'. ledger start lost' (case close (rc_writer ?r) (rc_os ?r) of (result, w, s) \<Rightarrow>
      let r2 = ?r\<lparr>rc_writer := w, rc_os := s\<rparr> in
      (case result of Exits code \<Rightarrow> r2\<lparr>rc_exit := Some code\<rparr>
       | Returns _ \<Rightarrow> r2\<lparr>rc_writer_thread := W_Off, rc_main_thread := M_Free\<rparr>))"
    unfolding call by (cases result) auto
qed

lemma ledger_step:
  assumes step: "recorder_step m r r'" and led: "ledger start lost r" and bound: "length (rc_pushed r') < 2 ^ 64"
  shows "\<exists>lost'. ledger start lost' r'"
  using step
proof (cases rule: recorder_step.cases)
  case (rs_sample now)
  with ledger_sample [OF led] show ?thesis by blast
next
  case (rs_push x)
  with ledger_push [OF led] bound show ?thesis by blast
next
  case rs_drop
  with ledger_drop [OF led] show ?thesis by blast
next
  case rs_top
  with ledger_top [OF led] show ?thesis by blast
next
  case rs_pop
  with ledger_pop [OF led] show ?thesis by blast
next
  case rs_drain
  with ledger_drain [OF led] show ?thesis by blast
next
  case rs_append
  with ledger_append [OF led] show ?thesis by blast
next
  case rs_finish
  with ledger_finish [OF led] show ?thesis by blast
next
  case rs_joined_writer
  with ledger_joined_writer [OF led] show ?thesis by blast
next
  case rs_joined_sensor
  have "ledger start lost (stop_joined_sensor r)"
    by (rule ledger_frame [OF ledger_close [OF led]]) (simp_all add: stop_joined_sensor_def in_hand_def)
  with rs_joined_sensor show ?thesis by blast
next
  case rs_stop
  have "ledger start lost (stop_request r)"
    by (rule ledger_frame [OF led]) (simp_all add: stop_request_def in_hand_def)
  with rs_stop show ?thesis by blast
next
  case rs_closed
  then have "ledger start lost r'"
    by (intro ledger_frame [OF led]) (simp_all add: in_hand_def)
  then show ?thesis ..
next
  case rs_woken
  then have "ledger start lost r'"
    by (intro ledger_frame [OF led]) (simp_all add: in_hand_def)
  then show ?thesis ..
next
  case rs_timeout
  then have "ledger start lost r'"
    by (intro ledger_frame [OF led]) (simp_all add: in_hand_def)
  then show ?thesis ..
qed

lemma writer_call_pushed:
  assumes "\<And>ok w s. rc_pushed (continue ok (r\<lparr>rc_writer := w, rc_os := s\<rparr>)) = rc_pushed r"
  shows "rc_pushed (writer_call f continue r) = rc_pushed r"
  using assms by (simp add: writer_call_def Let_def split: prod.split call.split)

lemma recorder_step_pushed: "recorder_step m r r' \<Longrightarrow> length (rc_pushed r) \<le> length (rc_pushed r')"
proof (induction rule: recorder_step.induct)
  case (rs_sample r now r')
  then show ?case by (auto simp: sensor_sample_def split: if_splits option.splits)
next
  case (rs_top r now)
  show ?case by (simp add: writer_top_def writer_call_pushed writer_fails_def committed_now_def)
next
  case (rs_append r batch now)
  show ?case by (simp add: writer_append_def writer_call_pushed writer_fails_def committed_now_def Let_def)
next
  case (rs_finish r)
  show ?case by (simp add: writer_finish_def writer_call_pushed committed_now_def)
next
  case (rs_joined_writer r)
  show ?case
    by (simp add: stop_joined_writer_def writer_call_pushed Let_def split: prod.split call.split)
qed (auto simp: sensor_push_def sensor_drop_def writer_pop_def writer_drain_def take_sequence_def
    take_sequences_number stop_request_def stop_joined_sensor_def split: prod.split push_status.split)

lemma ledger_run:
  "recorder_run m r0 r \<Longrightarrow> ledger start [] r0 \<Longrightarrow> length (rc_pushed r) < 2 ^ 64 \<Longrightarrow> \<exists>lost. ledger start lost r"
proof (induction rule: recorder_run.induct)
  case run_start
  then show ?case by blast
next
  case (run_step r r')
  with recorder_step_pushed [OF run_step(2)] obtain lost where "ledger start lost r" by auto
  from ledger_step [OF run_step(2) this run_step.prems(2)] show ?case .
qed

text \<open>A recorder as it is created and started.\<close>

definition launched :: "'g machine \<Rightarrow> recorder_config \<Rightarrow> os \<Rightarrow> u64 \<Rightarrow> 'g recorder \<Rightarrow> bool" where
  "launched m c s q r \<longleftrightarrow> start_recorder (set_start_sequence q (make_recorder m c s)) = (True, r)"

lemma launched_fields:
  assumes "launched m c s q r"
  shows "rc_pushed r = []" "rc_appended r = []" "rc_writer_thread r = W_Loop" "rc_sensor_thread r = S_Loop"
    "rc_sequence r = q" "rc_buffer r = reset_ring (make_ring (cf_buffer_size c))"
    "rc_total_records_generated r = 0" "rc_dropped_records r = 0" "rc_total_records_written r = 0"
    "rc_total_records_committed r = 0" "rc_exit r = None" "rc_config r = c" "rc_main_thread r = M_Free"
    "\<not> rc_writer_error r" "\<not> rc_stop_requested r" "\<not> rc_overflow_since_last_sample r" "rc_running r"
    "\<not> rc_pending_commit r" "rc_simulator r = make_simulator m (cf_simulator_seed c)"
  using assms
  by (auto simp: launched_def start_recorder_def set_start_sequence_def make_recorder_def Let_def
      split: if_splits prod.splits call.splits)

lemma launched_ledger:
  assumes "launched m c s q r"
  shows "ledger q [] r"
proof -
  note f = launched_fields [OF assms]
  have "ring_inv 0 (make_ring (cf_buffer_size c))" by (rule make_ring_inv) simp
  note reset = reset_refines [OF this, of "2 ^ 64 - 1"]
  have "ring_items (reset_ring (make_ring (cf_buffer_size c))) = []"
    "rb_dropped_records (reset_ring (make_ring (cf_buffer_size c))) = 0"
    by (simp_all add: ring_items_def reset_ring_def)
  with reset show ?thesis
    by (simp add: ledger_def taken_def in_hand_def f)
qed

section \<open>A sample run\<close>

text \<open>A recorder on an empty file system, and its first sample.\<close>

definition sample_config :: recorder_config where
  "sample_config = default_recorder_config\<lparr>cf_output_path := ''log''\<rparr>"

text \<open>The sample's options but for the pace and the seed.\<close>

definition plain_config :: "recorder_config \<Rightarrow> bool" where
  "plain_config c \<longleftrightarrow> c\<lparr>cf_sample_rate_hz := 20, cf_unpaced_producer := False, cf_simulator_seed := 42\<rparr> = sample_config \<and>
     cf_sample_rate_hz c \<noteq> 0"

lemma sample_plain [simp]: "plain_config sample_config"
  by (simp add: plain_config_def sample_config_def default_recorder_config_def)

lemma plain_fields:
  assumes "plain_config c"
  shows "config_writer_options c = default_writer_options" "cf_output_path c = ''log''" "cf_fault_config c = no_fault_config"
    "cf_buffer_size c = 256" "cf_batch_size c = 64" "cf_sync_every_batches c = 1" "cf_sample_rate_hz c \<noteq> 0"
proof -
  have eq: "f (c\<lparr>cf_sample_rate_hz := 20, cf_unpaced_producer := False, cf_simulator_seed := 42\<rparr>) = f sample_config" for f :: "recorder_config \<Rightarrow> 'b"
    using assms by (simp add: plain_config_def)
  note sample = sample_config_def default_recorder_config_def
  show "config_writer_options c = default_writer_options"
    using eq [of config_writer_options] by (simp add: config_writer_options_def default_writer_options_def sample)
  show "cf_output_path c = ''log''" using eq [of cf_output_path] by (simp add: sample)
  show "cf_fault_config c = no_fault_config" using eq [of cf_fault_config] by (simp add: sample)
  show "cf_buffer_size c = 256" using eq [of cf_buffer_size] by (simp add: sample)
  show "cf_batch_size c = 64" using eq [of cf_batch_size] by (simp add: sample)
  show "cf_sync_every_batches c = 1" using eq [of cf_sync_every_batches] by (simp add: sample)
  show "cf_sample_rate_hz c \<noteq> 0" using assms by (simp add: plain_config_def)
qed

lemma plain_launched:
  assumes "plain_config c"
  shows "\<exists>r :: unit recorder. launched zero_machine c sample_os 0 r"
proof -
  obtain w s where "open_writer (make_writer ''log'' no_fault_config default_writer_options) sample_os = (Returns True, w, s)"
    using sample_opened by blast
  then show ?thesis
    by (simp add: launched_def start_recorder_def set_start_sequence_def make_recorder_def Let_def plain_fields [OF assms])
qed

lemmas sample_launched = plain_launched [OF sample_plain]

lemma sample_pushed:
  assumes "launched zero_machine sample_config sample_os 0 r0"
  shows "\<exists>r x. recorder_run zero_machine r0 r \<and> rc_pushed r = [x] \<and> rc_sensor_thread r = S_Loop"
proof -
  note f = launched_fields [OF assms]
  obtain x sim where smp: "next_sample zero_machine 5 False (rc_simulator r0) = Some (x, sim)"
    using zero_machine_sample by blast
  let ?r1 = "r0\<lparr>rc_overflow_since_last_sample := False, rc_simulator := sim, rc_sensor_thread := S_Pushing x\<rparr>"
  have "sensor_sample zero_machine 5 r0 = Some ?r1"
    using smp f by (simp add: sensor_sample_def)
  then have 1: "recorder_step zero_machine r0 ?r1"
    by (rule rs_sample [rotated 2]) (simp_all add: f)
  have 2: "recorder_step zero_machine ?r1 (sensor_push x ?r1)"
    by (rule rs_push) (simp_all add: f)
  have "rc_pushed (sensor_push x ?r1) = [x] \<and> rc_sensor_thread (sensor_push x ?r1) = S_Loop"
    by (simp add: sensor_push_def f try_push_def Let_def reset_ring_def make_ring_def ring_full_def
        sample_config_def default_recorder_config_def)
  then show ?thesis
    using run_step [OF run_step [OF run_start 1] 2] by blast
qed

section \<open>Properties\<close>



end
