(* ===== verification/Resume.thy ===== *)
theory Resume
  imports Session
begin

text \<open>
  What a session leaves for the next one. When no slot of the journal is torn, recovery brings the
  disk to a state in which a writer can go on: the log is exactly the committed frames and the
  newest checkpoint commits them all.
\<close>

section \<open>A whole journal\<close>

text \<open>One slot agrees with the log; the other one was never used, or is an older checkpoint.\<close>

definition whole_journal :: "persisted_file_header \<Rightarrow> log_frame list \<Rightarrow> bytes \<Rightarrow> bool" where
  "whole_journal h frames j \<longleftrightarrow> length j = 104 \<and> (\<exists>i<2.
     let active = dec_checkpoint_slot (slot_at i j); old = slot_at (1 - i) j; other = dec_checkpoint_slot old in
     slot_agrees h frames active \<and>
     (old = replicate 52 0 \<and> ck_generation active = 1 \<or>
      checkpoint_metadata_valid other \<and> ck_generation other < ck_generation active \<and>
      unat (ck_committed_length other) = 24 + 84 * unat (ck_record_count other) \<and>
      ck_recorder_start_time_us other = fh_recorder_start_time_us h))"

definition intact :: "string \<Rightarrow> os \<Rightarrow> bool" where
  "intact path s \<longleftrightarrow> (\<exists>h body j. file_header_ok h \<and> os_files s path = Some (enc_file_header h @ body) \<and>
     os_files s (journal_path_for_log path) = Some j \<and> whole_journal h (log_frames (enc_file_header h @ body)) j)"

text \<open>A disk on which the frames \<open>fs\<close> are all there is, committed by the checkpoint of generation \<open>g\<close>.\<close>

definition committed_disk :: "string \<Rightarrow> (string \<Rightarrow> bytes option) \<Rightarrow> persisted_file_header \<Rightarrow> log_frame list \<Rightarrow> u64 \<Rightarrow> bool" where
  "committed_disk path files h fs g \<longleftrightarrow>
     (\<exists>w. writer_disk w files h fs (length fs) \<and> w_path w = path \<and> w_checkpoint_generation w = g)"

lemma running_intact:
  assumes "running w s h fs n"
  shows "intact (w_path w) s"
proof -
  from assms obtain j where h: "file_header_ok h" and chain: "chain_ok None fs" and n: "n \<le> length fs"
    and log: "os_files s (w_path w) = Some (enc_file_header h @ enc_frames fs)"
    and j: "os_files s (journal_path_for_log (w_path w)) = Some j" and ja: "journal_at w h (take n fs) j"
    by (auto simp: running_def writer_disk_def writer_at_def)
  let ?i = "w_active_checkpoint_slot w"
  from ja have slots: "length j = 104" "?i < 2" "slot_commits h (take n fs) (dec_checkpoint_slot (slot_at ?i j))"
    and old: "slot_at (1 - ?i) j = replicate 52 0 \<and> ck_generation (dec_checkpoint_slot (slot_at ?i j)) = 1 \<or>
      checkpoint_metadata_valid (dec_checkpoint_slot (slot_at (1 - ?i) j)) \<and>
      ck_generation (dec_checkpoint_slot (slot_at (1 - ?i) j)) < ck_generation (dec_checkpoint_slot (slot_at ?i j)) \<and>
      unat (ck_committed_length (dec_checkpoint_slot (slot_at (1 - ?i) j))) =
        24 + 84 * unat (ck_record_count (dec_checkpoint_slot (slot_at (1 - ?i) j))) \<and>
      ck_recorder_start_time_us (dec_checkpoint_slot (slot_at (1 - ?i) j)) = fh_recorder_start_time_us h"
    by (auto simp: journal_at_def Let_def)
  from slots(3) n have "slot_agrees h fs (dec_checkpoint_slot (slot_at ?i j))" by (auto simp: slot_agrees_def)
  with slots(1,2) old have "whole_journal h fs j"
    unfolding whole_journal_def Let_def by (intro conjI exI [of _ ?i])
  with h log j log_frames_whole [OF chain] show ?thesis by (auto simp: intact_def)
qed

text \<open>Recovery of an intact disk.\<close>

lemma enc_log_inject:
  assumes "enc_file_header h @ enc_frames fs = enc_file_header h' @ enc_frames fs'"
  shows "h = h' \<and> fs = fs'"
proof -
  have "enc_file_header h = enc_file_header h' \<and> enc_frames fs = enc_frames fs'"
    using assms by (simp add: append_eq_append_conv codec_simps)
  then show ?thesis by (metis fhc.dec_enc enc_frames_inject)
qed

lemma intact_resumes:
  assumes intact: "intact path s" and res: "restores path s h fs"
    and rec: "recover_startup_state path (s\<lparr>os_script := []\<rparr>) = (rep, s1)"
  shows "committed_disk path (os_files s1) h fs (sr_checkpoint_generation rep)"
    and "\<exists>j i. os_files s (journal_path_for_log path) = Some j \<and> i < 2 \<and>
      sr_checkpoint_generation rep = ck_generation (dec_checkpoint_slot (slot_at i j))"
proof -
  let ?s = "s\<lparr>os_script := []\<rparr>" and ?jp = "journal_path_for_log path"
  from intact obtain h' body j i where h': "file_header_ok h'" and log: "os_files ?s path = Some (enc_file_header h' @ body)"
    and j: "os_files ?s ?jp = Some j" "length j = 104" and i: "i < 2"
    and act: "slot_agrees h' (log_frames (enc_file_header h' @ body)) (dec_checkpoint_slot (slot_at i j))"
    and old: "slot_at (1 - i) j = replicate 52 0 \<and> ck_generation (dec_checkpoint_slot (slot_at i j)) = 1 \<or>
      checkpoint_metadata_valid (dec_checkpoint_slot (slot_at (1 - i) j)) \<and>
      ck_generation (dec_checkpoint_slot (slot_at (1 - i) j)) < ck_generation (dec_checkpoint_slot (slot_at i j)) \<and>
      unat (ck_committed_length (dec_checkpoint_slot (slot_at (1 - i) j))) =
        24 + 84 * unat (ck_record_count (dec_checkpoint_slot (slot_at (1 - i) j))) \<and>
      ck_recorder_start_time_us (dec_checkpoint_slot (slot_at (1 - i) j)) = fh_recorder_start_time_us h'"
    by (auto simp: intact_def whole_journal_def Let_def)
  let ?log = "enc_file_header h' @ body" and ?slot = "dec_checkpoint_slot (slot_at i j)"
  from act obtain n where n: "n \<le> length (log_frames ?log)" and commits: "slot_commits h' (take n (log_frames ?log)) ?slot"
    by (auto simp: slot_agrees_def)
  have hd: "dec_file_header (take 24 ?log) = h'" by (simp add: codec_simps)
  then have ok: "log_header_ok ?log" using h' by (simp add: log_header_ok_def codec_simps)
  have "i = 0 \<or> i = 1" using i by auto
  then have newest: "newest_agreeing h' (log_frames ?log) (dec_slots j) ?slot"
    using act old zero_slot_invalid by (auto simp: newest_agreeing_def dec_slots_at slot_agrees_def slot_commits_def)
  from recover_startup_ok [OF _ log ok j(1,2) _ n, unfolded hd, OF _ newest commits] rec
  have r: "s1 = set_file path (take (24 + 84 * n) ?log) ?s" "sr_checkpoint_generation rep = ck_generation ?slot" by auto
  have left: "take (24 + 84 * n) ?log = enc_file_header h' @ enc_frames (take n (log_frames ?log))"
    using cut_log(1) [OF ok n] by (simp add: codec_simps)
  from res rec have "s1 = set_file path (enc_file_header h @ enc_frames fs) ?s" by (auto simp: restores_def)
  then have "os_files s1 path = Some (enc_file_header h @ enc_frames fs)" by simp
  with r(1) left have "enc_file_header h @ enc_frames fs = enc_file_header h' @ enc_frames (take n (log_frames ?log))" by simp
  then have same: "h = h'" "fs = take n (log_frames ?log)" by (auto dest: enc_log_inject)
  let ?w = "(make_writer path no_fault_config default_writer_options)\<lparr>w_recorder_start_time_us := fh_recorder_start_time_us h,
    w_logical_end := 24 + 84 * length fs, w_file_record_count := word_of_nat (length fs), w_last_written_sequence := seq_or_0 fs,
    w_active_checkpoint_slot := i, w_checkpoint_generation := ck_generation ?slot\<rparr>"
  have commits': "slot_commits h fs ?slot" using commits unfolding same .
  have old': "slot_at (1 - i) j = replicate 52 0 \<and> ck_generation ?slot = 1 \<or>
      checkpoint_metadata_valid (dec_checkpoint_slot (slot_at (1 - i) j)) \<and>
      ck_generation (dec_checkpoint_slot (slot_at (1 - i) j)) < ck_generation ?slot \<and>
      unat (ck_committed_length (dec_checkpoint_slot (slot_at (1 - i) j))) =
        24 + 84 * unat (ck_record_count (dec_checkpoint_slot (slot_at (1 - i) j))) \<and>
      ck_recorder_start_time_us (dec_checkpoint_slot (slot_at (1 - i) j)) = fh_recorder_start_time_us h"
    using old unfolding same(1) .
  let ?w = "(make_writer path no_fault_config default_writer_options)\<lparr>w_recorder_start_time_us := fh_recorder_start_time_us h,
    w_logical_end := 24 + 84 * length fs, w_file_record_count := word_of_nat (length fs), w_last_written_sequence := seq_or_0 fs,
    w_active_checkpoint_slot := i, w_checkpoint_generation := ck_generation ?slot\<rparr>"
  have size: "24 + 84 * length fs < 2 ^ 64"
  proof -
    have "unat (ck_committed_length ?slot) < 2 ^ LENGTH(64)" by (rule unsigned_less)
    with commits' show ?thesis by (simp add: slot_commits_def)
  qed
  have chain: "chain_ok None fs"
    using log_frames_chain [of ?log] chain_ok_append [of None "take n (log_frames ?log)" "drop n (log_frames ?log)"]
    unfolding same(2) by simp
  have "journal_at ?w h fs j" using j(2) i commits' old' by (simp add: journal_at_def Let_def)
  moreover have "os_files s1 path = Some (enc_file_header h @ enc_frames fs)"
    unfolding r(1) left same by simp
  moreover have "os_files s1 ?jp = Some j" unfolding r(1) using j(1) by simp
  moreover have "file_header_ok h" using h' unfolding same(1) .
  moreover have "writer_at ?w h fs" by (simp add: writer_at_def make_writer_def)
  ultimately have "writer_disk ?w (os_files s1) h fs (length fs)"
    using chain size unfolding writer_disk_def by (simp add: make_writer_def)
  then show "committed_disk path (os_files s1) h fs (sr_checkpoint_generation rep)"
    using r(2) unfolding committed_disk_def by (intro exI [of _ ?w]) (simp add: make_writer_def)
  show "\<exists>j i. os_files s ?jp = Some j \<and> i < 2 \<and> sr_checkpoint_generation rep = ck_generation (dec_checkpoint_slot (slot_at i j))"
    using j(1) i r(2) by auto
qed

end
