(* ===== verification/Recorder_Durability.thy ===== *)
theory Recorder_Durability
  imports Recorder Resume
begin

text \<open>
  The recorder and the disk. However the threads are interleaved, whatever the system answers and
  wherever an injected fault ends the process, recovery restores a prefix of the samples pushed
  that is at least as long as the committed counter says; and a recorder that was stopped without
  an error has all its appended batches in the log, committed.
\<close>

section \<open>The numbered samples as frames\<close>

lemma take_number_from: "take k (number_from q xs) = number_from q (take k xs)"
  by (induction xs arbitrary: q k) (auto simp: take_Cons split: nat.split)

lemma take_batch_frames: "take k (batch_frames xs) = batch_frames (take k xs)"
  by (simp add: batch_frames_def take_map)

lemma not_last: "unat (q :: u64) + 1 < 2 ^ 64 \<Longrightarrow> q \<noteq> - 1"
  using unat_inc [of q] by (cases "q = - 1") simp_all

lemma number_from_chain:
  assumes "unat q + length xs < 2 ^ 64" and "follows previous (q + 1)"
  shows "chain_ok previous (batch_frames (number_from q xs))"
  using assms
proof (induction xs arbitrary: q previous)
  case (Cons x xs)
  then have step: "unat (q + 1) = unat q + 1" by (intro unat_inc) simp
  have "follows (Some (q + 1)) (q + 1 + 1)" if "xs \<noteq> []"
  proof -
    from that have "0 < length xs" by simp
    with Cons.prems(1) step have "unat (q + 1) + 1 < 2 ^ 64" by (simp only: list.size)
    then have "q + 1 \<noteq> - 1" by (rule not_last)
    then show ?thesis by (simp add: follows_def)
  qed
  then have "chain_ok (Some (q + 1)) (batch_frames (number_from (q + 1) xs))"
    using Cons.IH [of "q + 1" "Some (q + 1)"] Cons.prems(1) step by (cases xs) (auto simp: batch_frames_def)
  with Cons.prems(2) show ?case by (simp add: batch_frames_def)
qed (simp add: batch_frames_def)

text \<open>The log a recorder starts on: \<open>base\<close> is in it, and the sequence goes on from there.\<close>

definition goes_on :: "log_frame list \<Rightarrow> u64 \<Rightarrow> bool" where
  "goes_on base q \<longleftrightarrow> chain_ok None base \<and> (base \<noteq> [] \<longrightarrow> seq_or_0 base = q)"

lemma last_seq_0: "fs \<noteq> [] \<Longrightarrow> last_seq previous fs = Some (seq_or_0 fs)"
  by (simp add: last_seq_def seq_or_0_def)

lemma goes_on_chain:
  assumes "goes_on base q" and "unat q + length xs < 2 ^ 64"
  shows "chain_ok None (base @ batch_frames (number_from q xs))"
proof (cases "xs = []")
  case True
  with assms(1) show ?thesis by (simp add: goes_on_def batch_frames_def)
next
  case False
  then have "unat q + 1 < 2 ^ 64" using assms(2) by (cases xs) auto
  then have "q \<noteq> - 1" by (rule not_last)
  then have "follows (last_seq None base) (q + 1)"
    using assms(1) last_seq_0 [of base None]
    by (cases "base = []") (auto simp: goes_on_def follows_def last_seq_def [of _ "[]"])
  with number_from_chain [OF assms(2)] assms(1) show ?thesis
    by (simp add: chain_ok_append goes_on_def)
qed

section \<open>What is on disk\<close>

definition recovered_to :: "string \<Rightarrow> persisted_file_header \<Rightarrow> log_frame list \<Rightarrow> u64 \<Rightarrow> nat \<Rightarrow> 'g recorder \<Rightarrow> bool" where
  "recovered_to path h base q n r \<longleftrightarrow> (\<exists>k\<le>length (rc_pushed r). n \<le> k \<and>
     restores path (rc_os r) h (base @ batch_frames (take k (number_from q (rc_pushed r)))))"

definition final_log :: "string \<Rightarrow> persisted_file_header \<Rightarrow> log_frame list \<Rightarrow> 'g recorder \<Rightarrow> bool" where
  "final_log path h base r \<longleftrightarrow> file_header_ok h \<and>
     os_files (rc_os r) path = Some (enc_file_header h @ enc_frames (base @ batch_frames (concat (rc_appended r)))) \<and>
     unat (rc_total_records_committed r) = length (concat (rc_appended r)) \<and> intact path (rc_os r)"

text \<open>The log is open and the writer works.\<close>

definition live :: "nat \<Rightarrow> string \<Rightarrow> persisted_file_header \<Rightarrow> log_frame list \<Rightarrow> 'g recorder \<Rightarrow> bool" where
  "live b path h base r \<longleftrightarrow>
     session (b - length (rc_appended r)) path h base (batch_frames (concat (rc_appended r))) (rc_writer r) (rc_os r) \<and>
     unat (rc_total_records_committed r) \<le> ws_records_committed (w_stats (rc_writer r)) \<and>
     (rc_writer_thread r = W_Ended \<longrightarrow> w_unsynced_batches (rc_writer r) = 0 \<and>
        unat (rc_total_records_committed r) = length (concat (rc_appended r))) \<and>
     rc_writer_thread r \<noteq> W_Off"

text \<open>It is closed, or has failed.\<close>

definition dead :: "string \<Rightarrow> persisted_file_header \<Rightarrow> log_frame list \<Rightarrow> u64 \<Rightarrow> 'g recorder \<Rightarrow> bool" where
  "dead path h base q r \<longleftrightarrow>
     (w_failed (rc_writer r) \<or> \<not> w_fd_open (rc_writer r)) \<and>
     unat (rc_total_records_committed r) \<le> ws_records_committed (w_stats (rc_writer r)) \<and>
     recovered_to path h base q (ws_records_committed (w_stats (rc_writer r))) r \<and>
     (rc_writer_error r \<and> rc_writer_thread r \<in> {W_Finish, W_Ended, W_Off} \<or>
      rc_writer_thread r = W_Off \<and> final_log path h base r)"

definition on_disk :: "nat \<Rightarrow> string \<Rightarrow> persisted_file_header \<Rightarrow> log_frame list \<Rightarrow> u64 \<Rightarrow> 'g recorder \<Rightarrow> bool" where
  "on_disk b path h base q r \<longleftrightarrow>
     (\<forall>batch \<in> set (rc_appended r). batch \<noteq> []) \<and> rc_writer_thread r \<noteq> W_Append [] \<and>
     (if rc_exit r = None then live b path h base r \<or> dead path h base q r
      else recovered_to path h base q (unat (rc_total_records_committed r)) r)"


lemma ledger_prefix:
  assumes "ledger q lost r"
  shows "length (taken r) \<le> length (rc_pushed r)"
    and "k \<le> length (taken r) \<Longrightarrow> take k (number_from q (rc_pushed r)) = take k (taken r)"
proof -
  from assms have split: "rc_pushed r = map sq_record (taken r) @ lost @ ring_items (rc_buffer r)"
    and num: "number_from q (map sq_record (taken r)) = taken r" by (simp_all add: ledger_def)
  show "length (taken r) \<le> length (rc_pushed r)" by (simp add: split)
  show "take k (number_from q (rc_pushed r)) = take k (taken r)" if "k \<le> length (taken r)"
    unfolding split number_from_append num using that by simp
qed

lemma recovered_to_mono: "recovered_to path h base q n r \<Longrightarrow> m \<le> n \<Longrightarrow> recovered_to path h base q m r"
  by (auto simp: recovered_to_def)

lemma recovered_toI:
  assumes "ledger q lost r" and "restores path s h (base @ take k (batch_frames (taken r)))"
    and "k \<le> length (taken r)" and "n \<le> k" and "rc_os r' = s" and "rc_pushed r' = rc_pushed r"
  shows "recovered_to path h base q n r'"
  unfolding recovered_to_def
  using assms ledger_prefix [OF assms(1)] by (intro exI [of _ k]) (auto simp: take_batch_frames)

lemma session_committed: "session b path h base new w s \<Longrightarrow> ws_records_committed (w_stats w) \<le> length new"
  by (simp add: session_def running_def writer_disk_def)

lemma live_restores:
  assumes led: "ledger q lost r" and live: "live b path h base r"
    and res: "restores path s h (base @ take (ws_records_committed (w_stats (rc_writer r))) (batch_frames (concat (rc_appended r))))
      \<or> restores path s h (base @ batch_frames (concat (rc_appended r)))"
    and r': "rc_os r' = s" "rc_pushed r' = rc_pushed r"
  shows "recovered_to path h base q (ws_records_committed (w_stats (rc_writer r))) r'"
proof -
  let ?c = "ws_records_committed (w_stats (rc_writer r))" and ?n = "length (concat (rc_appended r))"
  have c: "?c \<le> ?n" using live session_committed by (fastforce simp: live_def)
  have pre: "take k (batch_frames (taken r)) = take k (batch_frames (concat (rc_appended r)))" if "k \<le> ?n" for k
    using that by (simp add: taken_def)
  from res show ?thesis
  proof
    assume "restores path s h (base @ take ?c (batch_frames (concat (rc_appended r))))"
    with c pre show ?thesis by (intro recovered_toI [OF led _ _ _ r', of _ _ _ ?c]) (simp_all add: taken_def)
  next
    assume "restores path s h (base @ batch_frames (concat (rc_appended r)))"
    with c pre show ?thesis by (intro recovered_toI [OF led _ _ _ r', of _ _ _ ?n]) (simp_all add: taken_def)
  qed
qed

section \<open>Steps of the writer thread\<close>

lemma live_flush:
  assumes led: "ledger q lost r" and live: "live b path h base r"
    and f: "flush (rc_writer r) (rc_os r) = (res, w, s)"
  shows "rc_os r' = s \<Longrightarrow> rc_pushed r' = rc_pushed r \<Longrightarrow>
      recovered_to path h base q (ws_records_committed (w_stats (rc_writer r))) r'"
    and "res = Returns False \<Longrightarrow> w_failed w \<and>
      ws_records_committed (w_stats w) = ws_records_committed (w_stats (rc_writer r))"
    and "res = Returns True \<Longrightarrow> session (b - length (rc_appended r)) path h base (batch_frames (concat (rc_appended r))) w s \<and>
      w_unsynced_batches w = 0 \<and> ws_records_committed (w_stats w) = length (concat (rc_appended r))"
proof -
  have ses: "session (b - length (rc_appended r)) path h base (batch_frames (concat (rc_appended r))) (rc_writer r) (rc_os r)"
    using live by (simp add: live_def)
  note sf = session_flush [OF ses f]
  show "recovered_to path h base q (ws_records_committed (w_stats (rc_writer r))) r'"
    if "rc_os r' = s" and "rc_pushed r' = rc_pushed r"
    by (rule live_restores [OF led live sf(3) that])
  show "w_failed w \<and> ws_records_committed (w_stats w) = ws_records_committed (w_stats (rc_writer r))" if "res = Returns False"
    using sf(2) that by simp
  show "session (b - length (rc_appended r)) path h base (batch_frames (concat (rc_appended r))) w s \<and>
      w_unsynced_batches w = 0 \<and> ws_records_committed (w_stats w) = length (concat (rc_appended r))" if "res = Returns True"
    using sf(1) [OF that] by (auto simp: session_def)
qed

lemma unat_count: "unat (word_of_nat n :: u64) \<le> n"
  by (simp add: unat_of_nat)

text \<open>The writer failed: the log is what it was, and the counter too.\<close>

lemma on_disk_fails:
  assumes "on_disk b path h base q r" and "rc_exit r = None" and "rc_writer_thread r \<notin> {W_Finish, W_Ended, W_Off}"
    and "w_failed w" and "unat (rc_total_records_committed r) \<le> ws_records_committed (w_stats w)"
    and "recovered_to path h base q (ws_records_committed (w_stats w)) (r\<lparr>rc_writer := w, rc_os := s\<rparr>)"
  shows "on_disk b path h base q (writer_fails (r\<lparr>rc_writer := w, rc_os := s\<rparr>))"
  using assms by (simp add: on_disk_def writer_fails_def dead_def recovered_to_def)

lemma on_disk_exit:
  assumes "on_disk b path h base q r" and "recovered_to path h base q (unat (rc_total_records_committed r)) (r\<lparr>rc_writer := w, rc_os := s\<rparr>)"
  shows "on_disk b path h base q (r\<lparr>rc_writer := w, rc_os := s, rc_exit := Some code\<rparr>)"
  using assms by (simp add: on_disk_def recovered_to_def)

lemma on_disk_live:
  "on_disk b path h base q r \<Longrightarrow> rc_exit r = None \<Longrightarrow> rc_writer_thread r \<notin> {W_Finish, W_Ended, W_Off} \<Longrightarrow>
    live b path h base r"
  by (auto simp: on_disk_def dead_def)

lemma on_disk_call:
  assumes od: "on_disk b path h base q r" and call: "f (rc_writer r) (rc_os r) = (res, w, s)"
    and exits: "\<And>code. res = Exits code \<Longrightarrow>
      recovered_to path h base q (unat (rc_total_records_committed r)) (r\<lparr>rc_writer := w, rc_os := s\<rparr>)"
    and returns: "\<And>ok. res = Returns ok \<Longrightarrow> on_disk b path h base q (continue ok (r\<lparr>rc_writer := w, rc_os := s\<rparr>))"
  shows "on_disk b path h base q (writer_call f continue r)"
  using on_disk_exit [OF od exits] returns by (cases res) (auto simp: writer_call_def call)

lemma on_disk_frame:
  assumes od: "on_disk b path h base q r" and pushed: "rc_pushed r' = rc_pushed r @ xs"
    and same: "rc_writer r' = rc_writer r" "rc_os r' = rc_os r" "rc_appended r' = rc_appended r"
      "rc_total_records_committed r' = rc_total_records_committed r" "rc_writer_error r' = rc_writer_error r"
      "rc_exit r' = rc_exit r"
    and pc: "rc_writer_thread r' = rc_writer_thread r \<or>
      rc_writer_thread r \<notin> {W_Finish, W_Ended, W_Off} \<and> rc_writer_thread r' \<notin> {W_Ended, W_Off, W_Append []} \<and> rc_exit r = None"
  shows "on_disk b path h base q r'"
proof -
  have rec: "recovered_to path h base q n r'" if "recovered_to path h base q n r" for n
  proof -
    have "take k (number_from q (rc_pushed r')) = take k (number_from q (rc_pushed r))" if "k \<le> length (rc_pushed r)" for k
      using that by (simp add: pushed number_from_append)
    with that show ?thesis unfolding recovered_to_def same pushed
      by (metis le_add1 le_trans length_append)
  qed
  have live: "live b path h base r'" if "live b path h base r"
    using that pc by (auto simp: live_def same)
  have dead: "dead path h base q r'" if "dead path h base q r" and "rc_writer_thread r' = rc_writer_thread r"
    using that rec by (auto simp: dead_def same final_log_def)
  show ?thesis
  proof (cases "rc_writer_thread r' = rc_writer_thread r")
    case True
    with od live dead rec show ?thesis by (auto simp: on_disk_def same)
  next
    case False
    with pc have t: "rc_writer_thread r \<notin> {W_Finish, W_Ended, W_Off}" "rc_writer_thread r' \<noteq> W_Append []" "rc_exit r = None"
      by auto
    with on_disk_live [OF od t(3,1)] live od show ?thesis by (simp add: on_disk_def same)
  qed
qed

lemma on_disk_top:
  assumes od: "on_disk b path h base q r" and led: "ledger q lost r" and ex: "rc_exit r = None"
    and pc: "rc_writer_thread r = W_Loop"
  shows "on_disk b path h base q (writer_top now r)"
proof -
  have live: "live b path h base r" using on_disk_live [OF od ex] pc by simp
  then have tot: "unat (rc_total_records_committed r) \<le> ws_records_committed (w_stats (rc_writer r))"
    by (simp add: live_def)
  obtain res w s where f: "flush (rc_writer r) (rc_os r) = (res, w, s)" by (metis prod_cases3)
  note lf = live_flush [OF led live f]
  let ?r = "r\<lparr>rc_writer := w, rc_os := s\<rparr>"
  have rec: "recovered_to path h base q (ws_records_committed (w_stats (rc_writer r))) ?r"
    by (rule lf(1)) simp_all
  have "on_disk b path h base q (writer_fails ?r)" if "res = Returns False"
    by (rule on_disk_fails [OF od ex]) (use pc lf(2) [OF that] tot rec in simp_all)
  moreover have "on_disk b path h base q ((committed_now ?r)\<lparr>rc_pending_commit := False, rc_writer_thread := W_Pop\<rparr>)"
    if "res = Returns True"
    using lf(3) [OF that] od ex pc by (simp add: on_disk_def live_def committed_now_def unat_count)
  ultimately have "on_disk b path h base q (writer_call flush (\<lambda>ok r1. if \<not> ok then writer_fails r1
      else (committed_now r1)\<lparr>rc_pending_commit := False, rc_writer_thread := W_Pop\<rparr>) r)"
    by (intro on_disk_call [where f = flush, OF od f] recovered_to_mono [OF rec tot]) auto
  moreover have "on_disk b path h base q (r\<lparr>rc_writer_thread := W_Pop\<rparr>)"
    using od live ex by (auto simp: on_disk_def live_def)
  ultimately show ?thesis by (simp add: writer_top_def)
qed

text \<open>A batch: there is room for it, because the batches appended before are not empty.\<close>

lemma length_concat_nonempty: "\<forall>x \<in> set xs. x \<noteq> [] \<Longrightarrow> length xs \<le> length (concat xs)"
proof (induction xs)
  case (Cons x xs)
  then have "Suc 0 \<le> length x" and "length xs \<le> length (concat xs)" by (simp_all add: Suc_le_eq)
  then show ?case by (simp only: concat.simps length_append list.size)
qed simp

lemma live_append:
  assumes led: "ledger q lost r" and live: "live b path h base r" and od: "on_disk b path h base q r"
    and pc: "rc_writer_thread r = W_Append batch" and bound: "length (rc_pushed r) \<le> b"
    and base: "goes_on base q" "unat q + length (rc_pushed r) < 2 ^ 64"
      "24 + 84 * (length base + length (rc_pushed r)) < 2 ^ 64"
    and ab: "append_batch batch (rc_writer r) (rc_os r) = (res, w, s)"
  shows "rc_os r' = s \<Longrightarrow> rc_pushed r' = rc_pushed r \<Longrightarrow>
      recovered_to path h base q (ws_records_committed (w_stats (rc_writer r))) r'"
    and "res = Returns False \<Longrightarrow> w_failed w \<and>
      ws_records_committed (w_stats w) = ws_records_committed (w_stats (rc_writer r))"
    and "res = Returns True \<Longrightarrow> session (b - length (rc_appended r @ [batch])) path h base
      (batch_frames (concat (rc_appended r @ [batch]))) w s"
proof -
  let ?new = "batch_frames (concat (rc_appended r))"
  have taken: "taken r = concat (rc_appended r @ [batch])" by (simp add: taken_def in_hand_def pc)
  have size: "length (taken r) \<le> length (rc_pushed r)" by (rule ledger_prefix(1) [OF led])
  have "\<forall>x \<in> set (rc_appended r @ [batch]). x \<noteq> []" using od pc by (auto simp: on_disk_def)
  from length_concat_nonempty [OF this] size bound have room: "Suc (length (rc_appended r)) \<le> b"
    by (simp add: taken)
  then have step: "Suc (b - length (rc_appended r @ [batch])) = b - length (rc_appended r)" by simp
  have ses: "session (Suc (b - length (rc_appended r @ [batch]))) path h base ?new (rc_writer r) (rc_os r)"
    using live unfolding step by (simp add: live_def)
  have "chain_ok None (base @ batch_frames (number_from q (map sq_record (taken r))))"
    using size base(2) by (intro goes_on_chain [OF base(1)]) simp
  moreover have "number_from q (map sq_record (taken r)) = taken r" using led by (simp add: ledger_def)
  ultimately have chain: "chain_ok None (base @ ?new @ batch_frames batch)" by (simp add: taken)
  have len: "24 + 84 * (length base + length ?new + length batch) < 2 ^ 64"
    using base(3) size by (simp add: taken)
  note sa = session_append [OF ses chain len ab]
  show "w_failed w \<and> ws_records_committed (w_stats w) = ws_records_committed (w_stats (rc_writer r))" if "res = Returns False"
    using sa(2) that by simp
  show "session (b - length (rc_appended r @ [batch])) path h base (batch_frames (concat (rc_appended r @ [batch]))) w s"
    if "res = Returns True"
    using sa(1) [OF that] by simp
  show "recovered_to path h base q (ws_records_committed (w_stats (rc_writer r))) r'"
    if r': "rc_os r' = s" "rc_pushed r' = rc_pushed r"
    using sa(3)
  proof
    assume "restores path s h (base @ take (ws_records_committed (w_stats (rc_writer r))) ?new)"
    then show ?thesis by (intro live_restores [OF led live _ r']) simp
  next
    assume "restores path s h (base @ ?new @ batch_frames batch)"
    moreover have "ws_records_committed (w_stats (rc_writer r)) \<le> length (taken r)"
      using session_committed [OF ses] by (simp add: taken)
    ultimately show ?thesis
      by (intro recovered_toI [OF led _ order.refl _ r']) (simp_all add: taken)
  qed
qed

lemma on_disk_append:
  assumes led: "ledger q lost r" and od: "on_disk b path h base q r" and ex: "rc_exit r = None"
    and pc: "rc_writer_thread r = W_Append batch" and bound: "length (rc_pushed r) \<le> b"
    and base: "goes_on base q" "unat q + length (rc_pushed r) < 2 ^ 64"
      "24 + 84 * (length base + length (rc_pushed r)) < 2 ^ 64"
  shows "on_disk b path h base q (writer_append now batch r)"
proof -
  have live: "live b path h base r" using on_disk_live [OF od ex] pc by simp
  then have tot: "unat (rc_total_records_committed r) \<le> ws_records_committed (w_stats (rc_writer r))"
    by (simp add: live_def)
  obtain res w s where f: "append_batch batch (rc_writer r) (rc_os r) = (res, w, s)" by (metis prod_cases3)
  note la = live_append [OF led live od pc bound base f]
  let ?r = "r\<lparr>rc_writer := w, rc_os := s\<rparr>"
  have rec: "recovered_to path h base q (ws_records_committed (w_stats (rc_writer r))) ?r"
    by (rule la(1)) simp_all
  have "on_disk b path h base q (writer_fails ?r)" if "res = Returns False"
    by (rule on_disk_fails [OF od ex]) (use pc la(2) [OF that] tot rec in simp_all)
  moreover
  let ?r2 = "committed_now (?r\<lparr>rc_appended := rc_appended ?r @ [batch], rc_writer_thread := W_Loop,
      rc_total_records_written := rc_total_records_written ?r + word_of_nat (length batch)\<rparr>)"
  have r2: "on_disk b path h base q ?r2" if "res = Returns True"
    using la(3) [OF that] od ex pc by (auto simp: on_disk_def live_def committed_now_def unat_count)
  moreover have "on_disk b path h base q (?r2\<lparr>rc_pending_commit := False\<rparr>)"
    "on_disk b path h base q (?r2\<lparr>rc_commit_deadline := d, rc_pending_commit := True\<rparr>)" if "res = Returns True" for d
    by (rule on_disk_frame [OF r2 [OF that], of _ "[]"]; simp)+
  ultimately show ?thesis
    unfolding writer_append_def
    by (intro on_disk_call [where f = "append_batch batch", OF od f] recovered_to_mono [OF rec tot]) (auto simp: Let_def)
qed


text \<open>A failed or closed writer refuses every call and leaves the files alone.\<close>

lemma dead_flush: "w_failed w \<or> \<not> w_fd_open w \<Longrightarrow> flush w s = (Returns False, record_failure w, s)"
  by (auto simp: flush_def)

lemma record_failure_fields:
  "w_failed (record_failure w)" "ws_records_committed (w_stats (record_failure w)) = ws_records_committed (w_stats w)"
  by (simp_all add: record_failure_def bump_stats_def)

lemma on_disk_finish:
  assumes led: "ledger q lost r" and od: "on_disk b path h base q r" and ex: "rc_exit r = None"
    and pc: "rc_writer_thread r = W_Finish"
  shows "on_disk b path h base q (writer_finish r)"
  unfolding writer_finish_def
proof -
  let ?fin = "\<lambda>ok r1. (committed_now (if \<not> ok then r1\<lparr>rc_writer_error := True\<rparr> else r1))\<lparr>rc_writer_thread := W_Ended\<rparr>"
  obtain res w s where f: "flush (rc_writer r) (rc_os r) = (res, w, s)" by (metis prod_cases3)
  let ?r = "r\<lparr>rc_writer := w, rc_os := s\<rparr>"
  have parts: "\<forall>batch \<in> set (rc_appended r). batch \<noteq> []" using od by (simp add: on_disk_def)
  from od ex consider (live) "live b path h base r" | (dead) "dead path h base q r" by (auto simp: on_disk_def)
  then show "on_disk b path h base q (writer_call flush ?fin r)"
  proof cases
    case live
    then have tot: "unat (rc_total_records_committed r) \<le> ws_records_committed (w_stats (rc_writer r))"
      by (simp add: live_def)
    note lf = live_flush [OF led live f]
    have rec: "recovered_to path h base q (ws_records_committed (w_stats (rc_writer r))) ?r"
      by (rule lf(1)) simp_all
    have "on_disk b path h base q (?fin False ?r)" if "res = Returns False"
      using lf(2) [OF that] rec ex parts
      by (simp add: on_disk_def dead_def committed_now_def recovered_to_def unat_count)
    moreover have "length (concat (rc_appended r)) < 2 ^ 64"
      using ledger_prefix(1) [OF led] led by (simp add: taken_def ledger_def)
    then have "on_disk b path h base q (?fin True ?r)" if "res = Returns True"
      using lf(3) [OF that] ex parts
      by (simp add: on_disk_def live_def committed_now_def unat_of_nat_len)
    ultimately show ?thesis
      by (intro on_disk_call [where f = flush, OF od f] recovered_to_mono [OF rec tot]) (case_tac ok; simp)
  next
    case dead
    then have "flush (rc_writer r) (rc_os r) = (Returns False, record_failure (rc_writer r), rc_os r)"
      by (intro dead_flush) (simp add: dead_def)
    moreover have "on_disk b path h base q (?fin False (r\<lparr>rc_writer := record_failure (rc_writer r)\<rparr>))"
      using dead ex parts pc
      by (simp add: on_disk_def dead_def committed_now_def recovered_to_def unat_count record_failure_fields)
    ultimately show ?thesis by (simp add: writer_call_def)
  qed
qed

lemma live_final:
  assumes live: "live b path h base r" and pc: "rc_writer_thread r = W_Ended"
  shows "final_log path h base r"
    and "flush (rc_writer r) (rc_os r) = (Returns True, rc_writer r, rc_os r)"
    and "close (rc_writer r) (rc_os r) =
      (Returns (), (rc_writer r)\<lparr>w_journal_fd_open := False, w_fd_open := False\<rparr>, rc_os r)"
proof -
  from live pc have run: "running (rc_writer r) (rc_os r) h (base @ batch_frames (concat (rc_appended r)))
      (length base + ws_records_committed (w_stats (rc_writer r)))"
    and w: "w_path (rc_writer r) = path" "\<not> w_failed (rc_writer r)" "w_unsynced_batches (rc_writer r) = 0"
    and tot: "unat (rc_total_records_committed r) = length (concat (rc_appended r))"
    by (auto simp: live_def session_def)
  then show "final_log path h base r"
    using running_intact [OF run] by (simp add: final_log_def running_def writer_disk_def)
  have "w_fd_open (rc_writer r)" using run by (simp add: running_def)
  with w show "flush (rc_writer r) (rc_os r) = (Returns True, rc_writer r, rc_os r)"
    and "close (rc_writer r) (rc_os r) =
      (Returns (), (rc_writer r)\<lparr>w_journal_fd_open := False, w_fd_open := False\<rparr>, rc_os r)"
    by (simp_all add: flush_def close_def)
qed

lemma on_disk_joined_writer:
  assumes led: "ledger q lost r" and od: "on_disk b path h base q r" and ex: "rc_exit r = None"
    and pc: "rc_writer_thread r = W_Ended \<or> rc_writer_thread r = W_Off"
  shows "on_disk b path h base q (stop_joined_writer r)"
proof -
  have parts: "\<forall>batch \<in> set (rc_appended r). batch \<noteq> []" using od by (simp add: on_disk_def)
  from od ex consider (live) "live b path h base r" | (dead) "dead path h base q r" by (auto simp: on_disk_def)
  then show ?thesis
  proof cases
    case live
    then have "rc_writer_thread r = W_Ended" using pc by (auto simp: live_def)
    note final = live_final [OF live this]
    have tot: "unat (rc_total_records_committed r) \<le> ws_records_committed (w_stats (rc_writer r))"
      using live by (simp add: live_def)
    have "recovered_to path h base q (ws_records_committed (w_stats (rc_writer r))) r"
      by (rule live_flush(1) [OF led live final(2)]) simp_all
    with final(1) tot ex parts show ?thesis
      by (simp add: stop_joined_writer_def writer_call_def final(2,3) on_disk_def dead_def final_log_def recovered_to_def)
  next
    case dead
    let ?w = "record_failure (rc_writer r)"
    have f: "flush (rc_writer r) (rc_os r) = (Returns False, ?w, rc_os r)"
      using dead by (intro dead_flush) (simp add: dead_def)
    have c: "close ?w (rc_os r) = (Returns (), ?w\<lparr>w_journal_fd_open := False, w_fd_open := False\<rparr>, rc_os r)"
      by (simp add: close_def record_failure_fields)
    from dead ex parts show ?thesis
      by (auto simp: stop_joined_writer_def writer_call_def f c on_disk_def dead_def final_log_def recovered_to_def
          record_failure_fields)
  qed
qed

section \<open>The other steps\<close>

lemma on_disk_step:
  assumes step: "recorder_step m r r'" and led: "ledger q lost r" and od: "on_disk b path h base q r"
    and bound: "length (rc_pushed r') \<le> b" and base: "goes_on base q" "unat q + length (rc_pushed r') < 2 ^ 64"
      "24 + 84 * (length base + length (rc_pushed r')) < 2 ^ 64"
  shows "on_disk b path h base q r'"
proof -
  have mono: "length (rc_pushed r) \<le> length (rc_pushed r')" by (rule recorder_step_pushed [OF step])
  then have before: "length (rc_pushed r) \<le> b" "unat q + length (rc_pushed r) < 2 ^ 64"
    "24 + 84 * (length base + length (rc_pushed r)) < 2 ^ 64"
    using bound base by simp_all
  show ?thesis
    using step
  proof (cases rule: recorder_step.cases)
    case rs_append
    with on_disk_append [OF led od _ _ before(1) base(1) before(2,3)] show ?thesis by simp
  next
    case rs_top
    with on_disk_top [OF od led] show ?thesis by simp
  next
    case rs_finish
    with on_disk_finish [OF led od] show ?thesis by simp
  next
    case rs_joined_writer
    with on_disk_joined_writer [OF led od] show ?thesis by simp
  next
    case rs_sample
    then show ?thesis
      by (intro on_disk_frame [OF od, of _ "[]"]) (auto simp: sensor_sample_def split: if_splits option.splits)
  next
    case (rs_push x)
    then show ?thesis
      by (intro on_disk_frame [OF od, of _ "if fst (try_push x (rc_buffer r)) = Pushed then [x] else []"])
        (auto simp: sensor_push_def split: prod.split push_status.split)
  next
    case rs_pop
    then show ?thesis
      by (intro on_disk_frame [OF od, of _ "[]"])
        (auto simp: writer_pop_def take_sequence_def split: prod.split)
  next
    case rs_drain
    then show ?thesis
      by (intro on_disk_frame [OF od, of _ "[]"])
        (auto simp: writer_drain_def take_sequences_number split: prod.split)
  qed (auto intro!: on_disk_frame [OF od, of _ "[]"] simp: sensor_drop_def stop_request_def stop_joined_sensor_def)
qed

lemma on_disk_run:
  assumes "recorder_run m r0 r" and "ledger q [] r0" and "on_disk b path h base q r0"
    and "length (rc_pushed r) \<le> b" and "goes_on base q" and "unat q + length (rc_pushed r) < 2 ^ 64"
    and "24 + 84 * (length base + length (rc_pushed r)) < 2 ^ 64"
  shows "on_disk b path h base q r"
  using assms
proof (induction rule: recorder_run.induct)
  case (run_step r r')
  from recorder_step_pushed [OF run_step(2)] run_step.prems have before: "length (rc_pushed r) \<le> b"
    "unat q + length (rc_pushed r) < 2 ^ 64" "24 + 84 * (length base + length (rc_pushed r)) < 2 ^ 64"
    by simp_all
  then obtain lost where led: "ledger q lost r"
    using ledger_run [OF run_step(1) run_step.prems(1)] by fastforce
  from on_disk_step [OF run_step(2) led] run_step before show ?case by blast
qed


section \<open>Starting on a log\<close>

text \<open>There is no log yet, or one that an earlier session left committed, with checkpoint
  generations left for \<open>b\<close> batches.\<close>

definition startable :: "nat \<Rightarrow> string \<Rightarrow> os \<Rightarrow> persisted_file_header \<Rightarrow> log_frame list \<Rightarrow> bool" where
  "startable b path s h base \<longleftrightarrow>
     os_files s path = None \<and> os_files s (journal_path_for_log path) = None \<and>
       h = new_file_header (os_now s) \<and> base = [] \<and> b + 1 < 2 ^ 32 \<and>
       compute_checkpoint_crc (make_slot 2 (os_now s) 24 0 0) \<noteq> 0 \<or>
     (\<exists>g. committed_disk path (os_files s) h base g \<and> unat g + b < 2 ^ 32 \<and>
       (g = 1 \<longrightarrow> compute_checkpoint_crc (make_slot 2 (fh_recorder_start_time_us h) 24 0 0) \<noteq> 0))"

lemma reset_measurement_fields [simp]:
  "w_path (reset_measurement_counters w) = w_path w" "w_failed (reset_measurement_counters w) = w_failed w"
  "w_unsynced_batches (reset_measurement_counters w) = w_unsynced_batches w"
  "w_stats (reset_measurement_counters w) = empty_writer_stats"
  "room_for b (reset_measurement_counters w) = room_for b w"
  by (simp_all add: reset_measurement_counters_def room_for_def)

lemma reset_measurement_running: "running w s h fs n \<Longrightarrow> running (reset_measurement_counters w) s h fs n"
  by (auto simp: running_def writer_disk_def writer_at_def journal_at_def ack_apart_def reset_measurement_counters_def)

lemma running_script [simp]: "running w (s\<lparr>os_script := script\<rparr>) h fs n = running w s h fs n"
  by (simp add: running_def)

lemma launched_writer:
  assumes "launched m c s q r"
  shows "\<exists>w s1. open_writer (make_writer (cf_output_path c) (cf_fault_config c) (config_writer_options c)) s = (Returns True, w, s1) \<and>
    rc_writer r = reset_measurement_counters w \<and> rc_os r = s1 \<and> cf_output_path c \<noteq> []"
  using assms
  by (auto simp: launched_def start_recorder_def set_start_sequence_def make_recorder_def Let_def
      split: if_splits prod.splits call.splits)

text \<open>A start that succeeded has allocated the buffer, so the options were sound.\<close>

lemma open_writer_options:
  assumes "open_writer w s = (Returns True, w', s')" and "\<not> w_fd_open w" and "\<not> w_serialization_buffer w"
  shows "options_ok (w_options w)"
proof -
  obtain ok w0 s0 where a: "allocate_serialization_buffer w s = (ok, w0, s0)" by (metis prod_cases3)
  have "ok" and "w_path w \<noteq> []" and "wo_sync_every_batches (w_options w) \<noteq> 0"
    using assms(1,2) a by (auto simp: open_writer_def split: if_splits)
  with a assms(3) show ?thesis
    by (auto simp: allocate_serialization_buffer_def options_ok_def Let_def split: if_splits)
qed

lemma launched_options: "launched m c s q r \<Longrightarrow> options_ok (config_writer_options c)"
  using launched_writer open_writer_options by (fastforce simp: make_writer_def)

lemma launched_session:
  assumes s: "os_script s = []" and start: "startable b (cf_output_path c) s h base"
    and ack: "\<forall>a. fc_acknowledgement_fd (cf_fault_config c) = Some a \<longrightarrow>
      a \<noteq> cf_output_path c \<and> a \<noteq> journal_path_for_log (cf_output_path c)"
    and launch: "launched m c s q r"
  shows "session b (cf_output_path c) h base [] (rc_writer r) (rc_os r)"
proof -
  let ?w = "make_writer (cf_output_path c) (cf_fault_config c) (config_writer_options c)"
  note opt = launched_options [OF launch]
  obtain w s1 where o: "open_writer ?w s = (Returns True, w, s1)" "rc_writer r = reset_measurement_counters w"
    "rc_os r = s1" "cf_output_path c \<noteq> []"
    using launched_writer [OF launch] by blast
  have "opened ?w w \<and> writer_disk w (os_files s1) h base (length base) \<and> room_for b w"
    using start unfolding startable_def
  proof
    assume new: "os_files s (cf_output_path c) = None \<and> os_files s (journal_path_for_log (cf_output_path c)) = None \<and>
       h = new_file_header (os_now s) \<and> base = [] \<and> b + 1 < 2 ^ 32 \<and>
       compute_checkpoint_crc (make_slot 2 (os_now s) 24 0 0) \<noteq> 0"
    from open_new_log [OF s _ _ o(4) opt refl, of "cf_fault_config c"] new o(1) show ?thesis
      by (auto simp: room_for_def)
  next
    assume "\<exists>g. committed_disk (cf_output_path c) (os_files s) h base g \<and> unat g + b < 2 ^ 32 \<and>
       (g = 1 \<longrightarrow> compute_checkpoint_crc (make_slot 2 (fh_recorder_start_time_us h) 24 0 0) \<noteq> 0)"
    then obtain w0 where disk: "writer_disk w0 (os_files s) h base (length base)" and w0: "w_path w0 = cf_output_path c"
      "unat (w_checkpoint_generation w0) + b < 2 ^ 32"
      "w_checkpoint_generation w0 = 1 \<longrightarrow> compute_checkpoint_crc (make_slot 2 (fh_recorder_start_time_us h) 24 0 0) \<noteq> 0"
      by (auto simp: committed_disk_def)
    from open_existing_log [OF s disk _ opt refl, of "cf_fault_config c"] w0(1) o(1,4) have
      "opened ?w w" "w_recorder_start_time_us w = fh_recorder_start_time_us h"
      "w_checkpoint_generation w = w_checkpoint_generation w0" "writer_disk w (os_files s1) h base (length base)"
      by auto
    then show ?thesis using w0(2,3) by (simp add: room_for_def)
  qed
  then have op: "opened ?w w" and disk: "writer_disk w (os_files s1) h base (length base)" and room: "room_for b w"
    by simp_all
  then have "running w s1 h base (length base)"
    using ack opt by (auto simp: running_def opened_def options_ok_def ack_apart_def make_writer_def
        writer_disk_def writer_at_def)
  from reset_measurement_running [OF this] op room show ?thesis
    by (simp add: session_def o(2,3) room_kept_def opened_def make_writer_def empty_writer_stats_def batch_frames_def)
qed

lemma launched_on_disk:
  assumes "session b (cf_output_path c) h base [] (rc_writer r) (rc_os r)" and "launched m c s q r"
  shows "on_disk b (cf_output_path c) h base q r"
  using assms(1) by (simp add: on_disk_def live_def launched_fields [OF assms(2)] batch_frames_def)

lemma session_script [simp]: "session b path h base new w (s\<lparr>os_script := script\<rparr>) = session b path h base new w s"
  by (simp add: session_def)

text \<open>A recorder that runs on a system that may fail, from the moment it has started.\<close>

lemma run_on_disk:
  assumes "os_script s = []" and "startable (length (rc_pushed r)) (cf_output_path c) s h base"
    and "\<forall>a. fc_acknowledgement_fd (cf_fault_config c) = Some a \<longrightarrow>
      a \<noteq> cf_output_path c \<and> a \<noteq> journal_path_for_log (cf_output_path c)"
    and "launched m c s q r0" and "goes_on base q"
    and "recorder_run m (r0\<lparr>rc_os := (rc_os r0)\<lparr>os_script := script\<rparr>\<rparr>) r"
    and "unat q + length (rc_pushed r) < 2 ^ 64" and "24 + 84 * (length base + length (rc_pushed r)) < 2 ^ 64"
  shows "on_disk (length (rc_pushed r)) (cf_output_path c) h base q r" and "\<exists>lost. ledger q lost r"
proof -
  let ?r0 = "r0\<lparr>rc_os := (rc_os r0)\<lparr>os_script := script\<rparr>\<rparr>"
  have led: "ledger q [] ?r0"
    by (rule ledger_frame [OF launched_ledger [OF assms(4)]]) (simp_all add: in_hand_def)
  have "on_disk (length (rc_pushed r)) (cf_output_path c) h base q r0"
    by (rule launched_on_disk [OF launched_session [OF assms(1-4)] assms(4)])
  then have "on_disk (length (rc_pushed r)) (cf_output_path c) h base q ?r0"
    by (simp add: on_disk_def live_def launched_fields [OF assms(4)] dead_def)
  from on_disk_run [OF assms(6) led this order.refl assms(5,7,8)]
  show "on_disk (length (rc_pushed r)) (cf_output_path c) h base q r" .
  show "\<exists>lost. ledger q lost r"
    using ledger_run [OF assms(6) led] assms(7) by simp
qed

text \<open>At any moment the disk recovers to a prefix of the samples pushed.\<close>

lemma run_recovered:
  assumes "os_script s = []" and "startable (length (rc_pushed r)) (cf_output_path c) s h base"
    and "\<forall>a. fc_acknowledgement_fd (cf_fault_config c) = Some a \<longrightarrow>
      a \<noteq> cf_output_path c \<and> a \<noteq> journal_path_for_log (cf_output_path c)"
    and "launched m c s q r0" and "goes_on base q"
    and "recorder_run m (r0\<lparr>rc_os := (rc_os r0)\<lparr>os_script := script\<rparr>\<rparr>) r"
    and "unat q + length (rc_pushed r) < 2 ^ 64" and "24 + 84 * (length base + length (rc_pushed r)) < 2 ^ 64"
  shows "recovered_to (cf_output_path c) h base q (unat (rc_total_records_committed r)) r"
proof -
  note run = run_on_disk [OF assms]
  from run(2) obtain lost where led: "ledger q lost r" by blast
  show ?thesis
  proof (cases "rc_exit r")
    case (Some code)
    with run(1) show ?thesis by (simp add: on_disk_def)
  next
    case None
    with run(1) consider (live) "live (length (rc_pushed r)) (cf_output_path c) h base r"
      | (dead) "dead (cf_output_path c) h base q r" by (auto simp: on_disk_def)
    then show ?thesis
    proof cases
      case live
      then have ses: "session (length (rc_pushed r) - length (rc_appended r)) (cf_output_path c) h base
          (batch_frames (concat (rc_appended r))) (rc_writer r) (rc_os r)"
        and tot: "unat (rc_total_records_committed r) \<le> ws_records_committed (w_stats (rc_writer r))"
        by (simp_all add: live_def)
      from session_restores [OF ses] show ?thesis
        by (intro recovered_to_mono [OF live_restores [OF led live] tot]) simp_all
    next
      case dead
      then show ?thesis by (auto simp: dead_def intro: recovered_to_mono)
    qed
  qed
qed

text \<open>Stopped without an error, or killed between two steps, it leaves a whole journal.\<close>

lemma run_intact:
  assumes "os_script s = []" and "startable (length (rc_pushed r)) (cf_output_path c) s h base"
    and "\<forall>a. fc_acknowledgement_fd (cf_fault_config c) = Some a \<longrightarrow>
      a \<noteq> cf_output_path c \<and> a \<noteq> journal_path_for_log (cf_output_path c)"
    and "launched m c s q r0" and "goes_on base q"
    and "recorder_run m (r0\<lparr>rc_os := (rc_os r0)\<lparr>os_script := script\<rparr>\<rparr>) r"
    and "unat q + length (rc_pushed r) < 2 ^ 64" and "24 + 84 * (length base + length (rc_pushed r)) < 2 ^ 64"
    and "rc_exit r = None" and "\<not> rc_writer_error r"
  shows "intact (cf_output_path c) (rc_os r)"
proof -
  from run_on_disk(1) [OF assms(1-8)] assms(9,10) consider
      (live) "live (length (rc_pushed r)) (cf_output_path c) h base r" | (closed) "final_log (cf_output_path c) h base r"
    by (auto simp: on_disk_def dead_def)
  then show ?thesis
  proof cases
    case live
    then show ?thesis using running_intact by (fastforce simp: live_def session_def)
  qed (simp add: final_log_def)
qed

section \<open>A sample stopped run\<close>

text \<open>The recorder of \<open>plain_launched\<close>: the writer finds the ring empty, then the only sample is
  pushed, the ring is closed, and the writer sees the closed flag.\<close>

lemma plain_writer_idle:
  assumes plain: "plain_config c" and launch: "launched zero_machine c sample_os 0 r0"
  shows "flush (rc_writer r0) (rc_os r0) = (Returns True, rc_writer r0, rc_os r0)"
    and "close (rc_writer r0) (rc_os r0) =
      (Returns (), (rc_writer r0)\<lparr>w_journal_fd_open := False, w_fd_open := False\<rparr>, rc_os r0)"
    and "w_stats (rc_writer r0) = empty_writer_stats"
proof -
  obtain w s where w: "open_writer (make_writer ''log'' no_fault_config default_writer_options) sample_os = (Returns True, w, s)"
    "running w s (new_file_header 7) [] 0" "w_unsynced_batches w = 0" "\<not> w_failed w"
    using sample_opened by blast
  with launched_writer [OF launch] plain_fields [OF plain] have r0: "rc_writer r0 = reset_measurement_counters w" by auto
  have "w_fd_open w" using w(2) by (simp add: running_def)
  with w r0 show "flush (rc_writer r0) (rc_os r0) = (Returns True, rc_writer r0, rc_os r0)"
    and "close (rc_writer r0) (rc_os r0) =
      (Returns (), (rc_writer r0)\<lparr>w_journal_fd_open := False, w_fd_open := False\<rparr>, rc_os r0)"
    and "w_stats (rc_writer r0) = empty_writer_stats"
    by (simp_all add: flush_def close_def reset_measurement_counters_def)
qed

lemma plain_pushed_late:
  assumes plain: "plain_config c" and launch: "launched zero_machine c sample_os 0 r0"
  shows "\<exists>r x. recorder_run zero_machine r0 r \<and> rc_pushed r = [x] \<and> ring_items (rc_buffer r) = [x] \<and>
    rc_exit r = None \<and> rc_writer_thread r = W_Empty \<and> rc_sensor_thread r = S_Loop \<and> rc_main_thread r = M_Free \<and>
    rc_running r \<and> \<not> rc_writer_error r \<and> rc_writer r = rc_writer r0 \<and> rc_os r = rc_os r0 \<and>
    rc_dropped_records r = 0 \<and> rc_total_records_generated r = 1 \<and> rc_total_records_written r = 0 \<and>
    rc_appended r = []"
proof -
  note f = launched_fields [OF launch] and w = plain_writer_idle [OF plain launch]
  obtain x sim where smp: "next_sample zero_machine 5 False (rc_simulator r0) = Some (x, sim)"
    using zero_machine_sample by blast
  let ?a1 = "r0\<lparr>rc_writer_thread := W_Pop\<rparr>"
  let ?a2 = "r0\<lparr>rc_writer_thread := W_Empty\<rparr>"
  let ?a3 = "?a2\<lparr>rc_overflow_since_last_sample := False, rc_simulator := sim, rc_sensor_thread := S_Pushing x\<rparr>"
  have top: "writer_top 0 r0 = ?a1" by (simp add: writer_top_def f)
  have pop: "writer_pop ?a1 = ?a2"
    by (simp add: writer_pop_def f ring_empty_def reset_ring_def)
  have smp': "sensor_sample zero_machine 5 ?a2 = Some ?a3" using smp by (simp add: sensor_sample_def f)
  note g = f(1-5) f(7-19)
  obtain ring where ring: "try_push x (rc_buffer r0) = (Pushed, ring)" "ring_items ring = [x]"
    by (simp add: try_push_def Let_def f reset_ring_def make_ring_def ring_full_def ring_items_def
        plain_fields [OF plain] slot_index_def)
  have s1: "recorder_step zero_machine r0 ?a1" using rs_top [where now = 0] f top by metis
  have s2: "recorder_step zero_machine ?a1 ?a2" using rs_pop [of ?a1 zero_machine] pop by (simp add: f)
  have s3: "recorder_step zero_machine ?a2 ?a3" by (rule rs_sample [OF _ _ smp']) (simp_all add: f)
  have s4: "recorder_step zero_machine ?a3 (sensor_push x ?a3)" by (rule rs_push) (simp_all add: f)
  have "recorder_run zero_machine r0 (sensor_push x ?a3)"
    by (rule run_step [OF run_step [OF run_step [OF run_step [OF run_start s1] s2] s3] s4])
  then show ?thesis
    by (intro exI conjI, assumption) (simp_all add: sensor_push_def ring g)
qed

lemma plain_stopped:
  assumes plain: "plain_config c" and launch: "launched zero_machine c sample_os 0 r0"
  shows "\<exists>r x. recorder_run zero_machine r0 r \<and> rc_pushed r = [x] \<and> ring_items (rc_buffer r) = [x] \<and>
    rc_exit r = None \<and> rc_writer_thread r = W_Off \<and> rc_main_thread r = M_Free \<and> \<not> rc_writer_error r \<and>
    rc_dropped_records r = 0 \<and> rc_total_records_generated r = 1 \<and> rc_total_records_written r = 0 \<and>
    rc_os r = rc_os r0 \<and> ws_failures (w_stats (rc_writer r)) = 0 \<and> rc_appended r = [] \<and>
    rc_total_records_committed r = 0"
proof -
  note w = plain_writer_idle [OF plain launch]
  obtain a4 x where run: "recorder_run zero_machine r0 a4" and p: "rc_pushed a4 = [x]" "ring_items (rc_buffer a4) = [x]"
    "rc_exit a4 = None" "rc_writer_thread a4 = W_Empty" "rc_sensor_thread a4 = S_Loop" "rc_main_thread a4 = M_Free"
    "rc_running a4" "\<not> rc_writer_error a4" "rc_writer a4 = rc_writer r0" "rc_os a4 = rc_os r0"
    "rc_dropped_records a4 = 0" "rc_total_records_generated a4 = 1" "rc_total_records_written a4 = 0" "rc_appended a4 = []"
    using plain_pushed_late [OF plain launch] by blast
  let ?a5 = "a4\<lparr>rc_running := False, rc_stop_requested := True, rc_main_thread := M_Join_Sensor\<rparr>"
  let ?a6 = "?a5\<lparr>rc_sensor_thread := S_Ended\<rparr>"
  let ?a7 = "?a5\<lparr>rc_sensor_thread := S_Off, rc_buffer := close_ring (rc_buffer a4), rc_main_thread := M_Join_Writer\<rparr>"
  let ?a8 = "?a7\<lparr>rc_writer_thread := W_Finish\<rparr>"
  let ?a9 = "?a7\<lparr>rc_total_records_committed := 0, rc_writer_thread := W_Ended\<rparr>"
  let ?a10 = "?a9\<lparr>rc_writer := (rc_writer r0)\<lparr>w_journal_fd_open := False, w_fd_open := False\<rparr>,
      rc_writer_thread := W_Off, rc_main_thread := M_Free\<rparr>"
  have "stop_request a4 = ?a5" by (simp add: stop_request_def p)
  then have s5: "recorder_step zero_machine a4 ?a5" using rs_stop [of a4 zero_machine] p by simp
  have "sensor_sample zero_machine 6 ?a5 = Some ?a6" by (simp add: sensor_sample_def)
  then have s6: "recorder_step zero_machine ?a5 ?a6" by (rule rs_sample [rotated 2]) (simp_all add: p)
  have "stop_joined_sensor ?a6 = ?a7" by (simp add: stop_joined_sensor_def)
  then have s7: "recorder_step zero_machine ?a6 ?a7" using rs_joined_sensor [of ?a6 zero_machine] p by simp
  have s8: "recorder_step zero_machine ?a7 ?a8" using rs_closed [of ?a7 zero_machine] p by (simp add: close_ring_def)
  have "writer_finish ?a8 = ?a9" by (simp add: writer_finish_def writer_call_def p w committed_now_def empty_writer_stats_def)
  then have s9: "recorder_step zero_machine ?a8 ?a9" using rs_finish [of ?a8 zero_machine] p by simp
  have "stop_joined_writer ?a9 = ?a10" by (simp add: stop_joined_writer_def writer_call_def p w)
  then have s10: "recorder_step zero_machine ?a9 ?a10" using rs_joined_writer [of ?a9 zero_machine] p by simp
  have "recorder_run zero_machine r0 ?a10"
    by (rule run_step [OF run_step [OF run_step [OF run_step [OF run_step [OF run_step [OF run s5] s6] s7] s8] s9] s10])
  then show ?thesis
    by (intro exI conjI, assumption) (simp_all add: p w empty_writer_stats_def)
qed

lemmas sample_pushed_late = plain_pushed_late [OF sample_plain]
lemmas sample_stopped = plain_stopped [OF sample_plain]

lemma sample_startable: "n < 2 ^ 31 \<Longrightarrow> startable n ''log'' sample_os (new_file_header 7) []"
  using sample_crc by (simp add: startable_def sample_os_def)

text \<open>The hypotheses of both theorems, on the sample run and any script of answers.\<close>

lemma sample_hypotheses:
  "options_ok (config_writer_options sample_config)" "cf_output_path sample_config = ''log''"
  "cf_fault_config sample_config = no_fault_config" "os_script sample_os = []" "goes_on [] 0"
  by (simp_all add: config_writer_options_def sample_config_def default_recorder_config_def sample_os_def
      goes_on_def options_ok_def)

lemma plain_calm:
  assumes plain: "plain_config c" and launch: "launched zero_machine c sample_os 0 r0"
  shows "os_script (rc_os r0) = []"
proof -
  obtain w s where "open_writer (make_writer ''log'' no_fault_config default_writer_options) sample_os = (Returns True, w, s)"
    "os_script s = []"
    using sample_opened by blast
  then show ?thesis
    using launched_writer [OF launch] by (auto simp: plain_fields [OF plain])
qed

lemmas sample_calm = plain_calm [OF sample_plain]

lemma sample_script:
  "launched zero_machine sample_config sample_os 0 r0 \<Longrightarrow> r0\<lparr>rc_os := (rc_os r0)\<lparr>os_script := []\<rparr>\<rparr> = r0"
  using sample_calm by simp

text \<open>The log a recorder leaves that stopped without an error.\<close>

lemma clean_stop_log:
  assumes "os_script s = []" and "startable (length (rc_pushed r)) (cf_output_path c) s h base"
    and "\<forall>a. fc_acknowledgement_fd (cf_fault_config c) = Some a \<longrightarrow>
      a \<noteq> cf_output_path c \<and> a \<noteq> journal_path_for_log (cf_output_path c)"
    and "launched m c s q r0" and "goes_on base q"
    and "recorder_run m (r0\<lparr>rc_os := (rc_os r0)\<lparr>os_script := script\<rparr>\<rparr>) r"
    and "unat q + length (rc_pushed r) < 2 ^ 64" and "24 + 84 * (length base + length (rc_pushed r)) < 2 ^ 64"
    and "rc_exit r = None" and "rc_writer_thread r = W_Off" and "\<not> rc_writer_error r"
  defines "n \<equiv> length (concat (rc_appended r))"
  shows "n \<le> length (rc_pushed r)" and "file_header_ok h"
    and "chain_ok None (base @ batch_frames (number_from q (take n (rc_pushed r))))"
    and "os_files (rc_os r) (cf_output_path c) =
      Some (enc_file_header h @ enc_frames (base @ batch_frames (number_from q (take n (rc_pushed r)))))"
    and "unat (rc_total_records_committed r) = n" and "unat (rc_total_records_written r) = n"
proof -
  note run = run_on_disk [OF assms(1-8)]
  from run(2) obtain lost where led: "ledger q lost r" by blast
  have taken: "taken r = concat (rc_appended r)" using assms(10) by (simp add: taken_def in_hand_def)
  show n: "n \<le> length (rc_pushed r)" using ledger_prefix(1) [OF led] by (simp add: taken n_def)
  have app: "number_from q (take n (rc_pushed r)) = concat (rc_appended r)"
    using ledger_prefix(2) [OF led, of n] by (simp add: taken take_number_from n_def)
  show "chain_ok None (base @ batch_frames (number_from q (take n (rc_pushed r))))"
    by (rule goes_on_chain [OF assms(5)]) (use n assms(7) in simp)
  have "final_log (cf_output_path c) h base r"
    using run(1) assms(9-11) by (auto simp: on_disk_def live_def dead_def)
  then show "file_header_ok h" and "unat (rc_total_records_committed r) = n"
    and "os_files (rc_os r) (cf_output_path c) =
      Some (enc_file_header h @ enc_frames (base @ batch_frames (number_from q (take n (rc_pushed r)))))"
    unfolding app by (simp_all add: final_log_def n_def)
  show "unat (rc_total_records_written r) = n"
    using led n assms(7) by (simp add: ledger_def unat_of_nat_len n_def)
qed

section \<open>Properties\<close>

text \<open>C25. Crash safety of the recorder. Whatever the order of the threads, the clock, the answers of
  the system and the injected fault, at every moment, and after an \<open>_exit\<close>, the next startup
  recovers the log: it then holds what was there before and a prefix of the samples pushed, in
  order and numbered on from the start sequence, no shorter than the committed counter says.\<close>

theorem recorder_crash_safe:
  assumes "os_script s = []" and "startable (length (rc_pushed r)) (cf_output_path c) s h base"
    and "\<forall>a. fc_acknowledgement_fd (cf_fault_config c) = Some a \<longrightarrow>
      a \<noteq> cf_output_path c \<and> a \<noteq> journal_path_for_log (cf_output_path c)"
    and "launched m c s q r0" and "goes_on base q"
    and "recorder_run m (r0\<lparr>rc_os := (rc_os r0)\<lparr>os_script := script\<rparr>\<rparr>) r"
    and "unat q + length (rc_pushed r) < 2 ^ 64" and "24 + 84 * (length base + length (rc_pushed r)) < 2 ^ 64"
  shows "\<exists>k\<le>length (rc_pushed r). unat (rc_total_records_committed r) \<le> k \<and>
    restores (cf_output_path c) (rc_os r) h (base @ batch_frames (number_from q (take k (rc_pushed r))))"
  using run_recovered [OF assms] by (simp add: recovered_to_def take_number_from)

theorem recorder_crash_safe_witness:
  "\<exists>r0 r :: unit recorder. launched zero_machine sample_config sample_os 0 r0 \<and> recorder_run zero_machine r0 r \<and>
    length (rc_pushed r) = 1 \<and> (\<exists>k\<le>1. unat (rc_total_records_committed r) \<le> k \<and>
      restores ''log'' (rc_os r) (new_file_header 7) (batch_frames (number_from 0 (take k (rc_pushed r)))))"
proof -
  obtain r0 :: "unit recorder" where launch: "launched zero_machine sample_config sample_os 0 r0"
    using sample_launched by blast
  obtain r x where run: "recorder_run zero_machine r0 r" "rc_pushed r = [x]"
    using sample_pushed_late [OF launch] by blast
  note h = sample_hypotheses sample_startable [of 1]
  have run': "recorder_run zero_machine (r0\<lparr>rc_os := (rc_os r0)\<lparr>os_script := []\<rparr>\<rparr>) r"
    unfolding sample_script [OF launch] by (rule run(1))
  from recorder_crash_safe [of sample_os r sample_config "new_file_header 7" "[]" zero_machine 0 r0 "[]",
      OF _ _ _ launch _ run'] h run(2)
  have "\<exists>k\<le>1. unat (rc_total_records_committed r) \<le> k \<and>
      restores ''log'' (rc_os r) (new_file_header 7) (batch_frames (number_from 0 (take k (rc_pushed r))))"
    by (simp add: no_fault_config_def)
  with launch run show ?thesis by (intro exI [of _ r0] exI [of _ r]) simp
qed

text \<open>C29. A recorder that was stopped and reports no error has committed every batch it wrote: the
  log reads back as what was there before and the samples of all appended batches, numbered on
  from the start sequence, and the committed counter equals the written one.\<close>

theorem clean_stop_commits_everything:
  assumes "os_script s = []" and "startable (length (rc_pushed r)) (cf_output_path c) s h base"
    and "\<forall>a. fc_acknowledgement_fd (cf_fault_config c) = Some a \<longrightarrow>
      a \<noteq> cf_output_path c \<and> a \<noteq> journal_path_for_log (cf_output_path c)"
    and "launched m c s q r0" and "goes_on base q"
    and "recorder_run m (r0\<lparr>rc_os := (rc_os r0)\<lparr>os_script := script\<rparr>\<rparr>) r"
    and "unat q + length (rc_pushed r) < 2 ^ 64" and "24 + 84 * (length base + length (rc_pushed r)) < 2 ^ 64"
    and "rc_exit r = None" and "rc_writer_thread r = W_Off" and "\<not> rc_writer_error r"
  shows "\<exists>n\<le>length (rc_pushed r). fst (read_all (cf_output_path c) ((rc_os r)\<lparr>os_script := []\<rparr>)) =
      Inr (map frame_entry (base @ batch_frames (number_from q (take n (rc_pushed r))))) \<and>
    unat (rc_total_records_committed r) = n \<and> unat (rc_total_records_written r) = n"
proof -
  note log = clean_stop_log [OF assms]
  from read_all_frames [OF _ _ log(2,3), of "(rc_os r)\<lparr>os_script := []\<rparr>" "cf_output_path c"] log
  show ?thesis by (intro exI [of _ "length (concat (rc_appended r))"]) simp
qed

theorem clean_stop_commits_everything_witness:
  "\<exists>r0 r :: unit recorder. launched zero_machine sample_config sample_os 0 r0 \<and> recorder_run zero_machine r0 r \<and>
    rc_writer_thread r = W_Off \<and> (\<exists>n\<le>1. fst (read_all ''log'' ((rc_os r)\<lparr>os_script := []\<rparr>)) =
      Inr (map frame_entry (batch_frames (number_from 0 (take n (rc_pushed r))))) \<and>
      unat (rc_total_records_committed r) = n)"
proof -
  obtain r0 :: "unit recorder" where launch: "launched zero_machine sample_config sample_os 0 r0"
    using sample_launched by blast
  obtain r x where run: "recorder_run zero_machine r0 r" "rc_pushed r = [x]"
    "rc_exit r = None" "rc_writer_thread r = W_Off" "\<not> rc_writer_error r"
    using sample_stopped [OF launch] by blast
  note h = sample_hypotheses sample_startable [of 1]
  have run': "recorder_run zero_machine (r0\<lparr>rc_os := (rc_os r0)\<lparr>os_script := []\<rparr>\<rparr>) r"
    unfolding sample_script [OF launch] by (rule run(1))
  from clean_stop_commits_everything [of sample_os r sample_config "new_file_header 7" "[]" zero_machine 0 r0 "[]",
      OF _ _ _ launch _ run'] h run(2-5)
  have "\<exists>n\<le>1. fst (read_all ''log'' ((rc_os r)\<lparr>os_script := []\<rparr>)) =
      Inr (map frame_entry (batch_frames (number_from 0 (take n (rc_pushed r))))) \<and>
      unat (rc_total_records_committed r) = n"
    by (fastforce simp: no_fault_config_def)
  with launch run show ?thesis by (intro exI [of _ r0] exI [of _ r]) simp
qed


end
