(* ===== verification/Text_Format.thy ===== *)
theory Text_Format
  imports Prelude
begin

text \<open>
  What the programs use of the C++ library to read and print numbers: \<open>stoull\<close>, \<open>from_chars\<close>, the
  stream output of unsigned numbers in decimal and hexadecimal, and padded columns. A string is a
  list of characters; an exception is \<open>None\<close>.
\<close>

section \<open>Reading\<close>

definition is_space :: "char \<Rightarrow> bool" where
  "is_space c = (of_char c = (32 :: nat) \<or> (9 :: nat) \<le> of_char c \<and> of_char c \<le> (13 :: nat))"

definition is_digit :: "char \<Rightarrow> bool" where
  "is_digit c = ((48 :: nat) \<le> of_char c \<and> of_char c \<le> (57 :: nat))"

definition digits_value :: "string \<Rightarrow> nat" where
  "digits_value = foldl (\<lambda>v c. 10 * v + (of_char c - 48)) 0"

text \<open>\<open>std::stoull\<close> and, where \<open>unsigned long\<close> has 64 bits, \<open>std::stoul\<close>: leading white space, a
  sign, as many digits as there are; what follows them is ignored, a minus sign negates the word.\<close>

definition stoull :: "string \<Rightarrow> u64 option" where
  "stoull text = (let t = dropWhile is_space text;
      negative = (t \<noteq> [] \<and> hd t = CHR ''-'');
      u = (if t \<noteq> [] \<and> (hd t = CHR ''-'' \<or> hd t = CHR ''+'') then tl t else t);
      ds = takeWhile is_digit u;
      v = digits_value ds in
    if ds = [] \<or> 2 ^ 64 \<le> v then None
    else Some (if negative then - word_of_nat v else word_of_nat v))"

text \<open>\<open>std::from_chars\<close>: no white space and no plus sign; the value and the unread rest.\<close>

definition from_chars_unsigned :: "string \<Rightarrow> (u32 \<times> string) option" where
  "from_chars_unsigned text = (let ds = takeWhile is_digit text; v = digits_value ds in
    if ds = [] \<or> 2 ^ 32 \<le> v then None else Some (word_of_nat v, dropWhile is_digit text))"

definition from_chars_int :: "string \<Rightarrow> (int \<times> string) option" where
  "from_chars_int text = (let negative = (text \<noteq> [] \<and> hd text = CHR ''-'');
      u = (if negative then tl text else text);
      ds = takeWhile is_digit u; v = digits_value ds in
    if ds = [] \<or> (if negative then 2 ^ 31 < v else 2 ^ 31 \<le> v) then None
    else Some (if negative then - int v else int v, dropWhile is_digit u))"

section \<open>Printing\<close>

text \<open>\<open>std::hex\<close>.\<close>

definition hex_char :: "nat \<Rightarrow> char" where
  "hex_char d = char_of (if d < 10 then 48 + d else 87 + d)"

fun show_hex :: "nat \<Rightarrow> string" where
  "show_hex n = (if n < 16 then [hex_char n] else show_hex (n div 16) @ [hex_char (n mod 16)])"

declare show_hex.simps [simp del]

definition show_int :: "int \<Rightarrow> string" where
  "show_int i = (if i < 0 then ''-'' @ show_nat (nat (- i)) else show_nat (nat i))"

definition show_bool :: "bool \<Rightarrow> string" where
  "show_bool b = (if b then ''true'' else ''false'')"

text \<open>\<open>std::setw\<close> with \<open>std::left\<close>.\<close>

definition pad_right :: "nat \<Rightarrow> string \<Rightarrow> string" where
  "pad_right n text = text @ replicate (n - length text) CHR '' ''"

definition newline :: string where
  "newline = [CHR 0x0A]"

definition quote :: string where
  "quote = [CHR 0x22]"

text \<open>What a program leaves: its exit code and the two output streams.\<close>

record tool_run =
  tr_code :: nat
  tr_stdout :: string
  tr_stderr :: string

section \<open>What is printed is read back\<close>

lemma digits_value_snoc: "digits_value (ds @ [c]) = 10 * digits_value ds + (of_char c - 48)"
  by (simp add: digits_value_def)

lemma digits_value_show [simp]: "digits_value (show_nat n) = n"
proof (induction n rule: show_nat.induct)
  case (1 n)
  show ?case
  proof (cases "n < 10")
    case True
    then show ?thesis by (subst show_nat.simps) (simp add: digits_value_def of_char_of)
  next
    case False
    with 1 show ?thesis by (subst show_nat.simps) (simp add: digits_value_snoc of_char_of)
  qed
qed

lemma digit_char_is_digit: "d < (10 :: nat) \<Longrightarrow> is_digit (char_of (48 + d))"
  by (simp add: is_digit_def of_char_of)

lemma show_nat_digits: "list_all is_digit (show_nat n)" "show_nat n \<noteq> []"
proof (induction n rule: show_nat.induct)
  case (1 n)
  { case 1
    then show ?case using "1.IH" by (subst show_nat.simps) (simp add: digit_char_is_digit) }
  { case 2
    show ?case by (subst show_nat.simps) simp }
qed

lemma takeWhile_digits: "list_all is_digit ds \<Longrightarrow> takeWhile is_digit ds = ds"
  by (simp add: list_all_iff)

lemma digit_not_space: "is_digit c \<Longrightarrow> \<not> is_space c \<and> c \<noteq> CHR ''-'' \<and> c \<noteq> CHR ''+''"
  by (auto simp: is_digit_def is_space_def)

lemma stoull_show: "stoull (show_word (w :: u64)) = Some w"
proof -
  let ?ds = "show_word w"
  have ds: "list_all is_digit ?ds" "?ds \<noteq> []" using show_nat_digits by (simp_all add: show_word_def)
  then obtain c cs where c: "?ds = c # cs" "is_digit c" by (cases ?ds) auto
  then have "dropWhile is_space ?ds = ?ds" "hd ?ds \<noteq> CHR ''-''" "hd ?ds \<noteq> CHR ''+''"
    using digit_not_space [OF c(2)] by simp_all
  moreover have "digits_value ?ds = unat w" by (simp add: show_word_def)
  moreover have "unat w < 2 ^ LENGTH(64)" by (rule unsigned_less)
  ultimately show ?thesis using ds(2) by (simp add: stoull_def Let_def takeWhile_digits [OF ds(1)])
qed

lemma from_chars_show: "from_chars_unsigned (show_nat n) = (if n < 2 ^ 32 then Some (word_of_nat n, []) else None)"
proof -
  have ds: "list_all is_digit (show_nat n)" "show_nat n \<noteq> []" using show_nat_digits [of n] by simp_all
  then have "dropWhile is_digit (show_nat n) = []" by (auto simp: list_all_iff)
  then show ?thesis using ds(2) unfolding from_chars_unsigned_def Let_def takeWhile_digits [OF ds(1)] digits_value_show by simp
qed

end
