(* ===== verification/Cli.thy ===== *)
theory Cli
  imports Recorder_Durability Text_Format
begin

text \<open>
  The program, \<open>main.cpp\<close>: its command line, the startup recovery that the recorder continues from,
  the loop that waits for a signal, the deadline or a writer failure, and the report at the end. The
  loop's polls of the signal, the clock and the counters are a list of observations; the recorder
  itself runs by the steps of theory \<open>Recorder\<close>.
\<close>

section \<open>Command line\<close>

record cli =
  cl_config :: recorder_config
  cl_duration_seconds :: int
  cl_duration_set :: bool
  cl_run_until_signal :: bool
  cl_stats_interval_ms :: u32

definition default_cli :: cli where
  "default_cli = \<lparr>cl_config = default_recorder_config, cl_duration_seconds = 5, cl_duration_set = False,
     cl_run_until_signal = False, cl_stats_interval_ms = 0\<rparr>"

text \<open>An exception is \<open>Inl\<close> of its message.\<close>

definition parse_unsigned :: "string \<Rightarrow> string + u32" where
  "parse_unsigned v = (case from_chars_unsigned v of
     Some (parsed, []) \<Rightarrow> Inr parsed | _ \<Rightarrow> Inl ''expected an unsigned 32-bit integer'')"

definition parse_duration :: "string \<Rightarrow> string + int" where
  "parse_duration v = (case from_chars_int v of
     Some (parsed, []) \<Rightarrow> Inr parsed | _ \<Rightarrow> Inl ''duration must be an integer'')"

definition parse_fault_mode :: "string \<Rightarrow> string + runtime_fault_mode" where
  "parse_fault_mode v =
    (if v = ''none'' then Inr NoFault
     else if v = ''crash-after-journal'' then Inr CrashAfterJournalSync
     else if v = ''crash-before-write'' then Inr CrashBeforeMainLogWrite
     else if v = ''crash-during-write'' then Inr CrashDuringMainLogWrite
     else if v = ''crash-after-write'' then Inr CrashAfterMainLogWrite
     else if v = ''crash-before-data-sync'' then Inr CrashBeforeMainLogSync
     else if v = ''crash-after-data-sync'' then Inr CrashAfterMainLogSync
     else if v = ''crash-before-checkpoint'' then Inr CrashBeforeCheckpointWrite
     else if v = ''crash-during-checkpoint'' then Inr CrashDuringCheckpointWrite
     else if v = ''crash-after-checkpoint'' then Inr CrashAfterCheckpointWrite
     else if v = ''crash-before-journal-sync'' then Inr CrashBeforeJournalSync
     else if v = ''drop-commit'' then Inr DropCommit
     else Inl ''unknown fault mode'')"

text \<open>\<open>stoul\<close> and \<open>stoull\<close> name themselves in the exception.\<close>

definition read_number :: "string \<Rightarrow> string \<Rightarrow> string + u64" where
  "read_number name v = (case stoull v of None \<Rightarrow> Inl name | Some w \<Rightarrow> Inr w)"

definition set_config :: "(recorder_config \<Rightarrow> recorder_config) \<Rightarrow> cli \<Rightarrow> cli" where
  "set_config f c = c\<lparr>cl_config := f (cl_config c)\<rparr>"

text \<open>An option with a value, \<open>None\<close> when the argument is not one.\<close>

definition cli_value_option :: "string \<Rightarrow> string \<Rightarrow> cli \<Rightarrow> (string + cli) option" where
  "cli_value_option arg v c =
    (if arg = ''--output'' then Some (Inr (set_config (\<lambda>cf. cf\<lparr>cf_output_path := v\<rparr>) c))
     else if arg = ''--duration-seconds'' then Some (case parse_duration v of Inl e \<Rightarrow> Inl e
       | Inr n \<Rightarrow> Inr (c\<lparr>cl_duration_seconds := n, cl_duration_set := True\<rparr>))
     else if arg = ''--stats-interval-ms'' then Some (case parse_unsigned v of Inl e \<Rightarrow> Inl e
       | Inr n \<Rightarrow> Inr (c\<lparr>cl_stats_interval_ms := n\<rparr>))
     else if arg = ''--sample-rate-hz'' then Some (case read_number ''stoul'' v of Inl e \<Rightarrow> Inl e
       | Inr n \<Rightarrow> Inr (set_config (\<lambda>cf. cf\<lparr>cf_sample_rate_hz := ucast n\<rparr>) c))
     else if arg = ''--buffer-size'' then Some (case read_number ''stoull'' v of Inl e \<Rightarrow> Inl e
       | Inr n \<Rightarrow> Inr (set_config (\<lambda>cf. cf\<lparr>cf_buffer_size := n\<rparr>) c))
     else if arg = ''--batch-size'' then Some (case read_number ''stoull'' v of Inl e \<Rightarrow> Inl e
       | Inr n \<Rightarrow> Inr (set_config (\<lambda>cf. cf\<lparr>cf_batch_size := n\<rparr>) c))
     else if arg = ''--sync-every-batches'' then Some (case read_number ''stoull'' v of Inl e \<Rightarrow> Inl e
       | Inr n \<Rightarrow> Inr (set_config (\<lambda>cf. cf\<lparr>cf_sync_every_batches := n\<rparr>) c))
     else if arg = ''--flush-interval-ms'' then Some (case parse_unsigned v of Inl e \<Rightarrow> Inl e
       | Inr n \<Rightarrow> Inr (set_config (\<lambda>cf. cf\<lparr>cf_flush_interval_ms := n\<rparr>) c))
     else if arg = ''--seed'' then Some (case read_number ''stoul'' v of Inl e \<Rightarrow> Inl e
       | Inr n \<Rightarrow> Inr (set_config (\<lambda>cf. cf\<lparr>cf_simulator_seed := ucast n\<rparr>) c))
     else if arg = ''--fault'' then Some (case parse_fault_mode v of Inl e \<Rightarrow> Inl e
       | Inr mode \<Rightarrow> Inr (set_config (\<lambda>cf. cf\<lparr>cf_fault_config := (cf_fault_config cf)\<lparr>fc_mode := mode\<rparr>\<rparr>) c))
     else if arg = ''--fault-sequence'' then Some (case read_number ''stoull'' v of Inl e \<Rightarrow> Inl e
       | Inr n \<Rightarrow> Inr (set_config (\<lambda>cf. cf\<lparr>cf_fault_config := (cf_fault_config cf)\<lparr>fc_trigger_sequence := n\<rparr>\<rparr>) c))
     else None)"

datatype parse_outcome = Parsed cli | Show_Usage nat | Invalid_Argument string

definition cli_flag :: "string \<Rightarrow> cli \<Rightarrow> parse_outcome" where
  "cli_flag arg c =
    (if arg = ''--run-until-signal'' then Parsed (c\<lparr>cl_run_until_signal := True\<rparr>)
     else if arg = ''--unpaced'' then Parsed (set_config (\<lambda>cf. cf\<lparr>cf_unpaced_producer := True\<rparr>) c)
     else if arg = ''--help'' then Show_Usage 0
     else Show_Usage 1)"

text \<open>The arguments after the program's name.\<close>

fun parse_arguments :: "string list \<Rightarrow> cli \<Rightarrow> parse_outcome" where
  "parse_arguments [] c = Parsed c"
| "parse_arguments [arg] c = cli_flag arg c"
| "parse_arguments (arg # v # rest) c =
    (case cli_value_option arg v c of
       Some (Inl e) \<Rightarrow> Invalid_Argument e
     | Some (Inr c') \<Rightarrow> parse_arguments rest c'
     | None \<Rightarrow> (case cli_flag arg c of Parsed c' \<Rightarrow> parse_arguments (v # rest) c' | outcome \<Rightarrow> outcome))"

text \<open>The message of a combination that is refused.\<close>

definition cli_refused :: "cli \<Rightarrow> string option" where
  "cli_refused c = (let cf = cl_config c in
     if cl_duration_set c \<and> cl_run_until_signal c then
       Some ''--duration-seconds and --run-until-signal are mutually exclusive''
     else if cl_duration_seconds c < 0 then Some ''duration must not be negative''
     else if cf_sample_rate_hz cf = 0 \<or> cf_buffer_size cf = 0 \<or> cf_batch_size cf = 0 \<or> cf_sync_every_batches cf = 0 then
       Some ''sample rate, buffer size, batch size, and sync group must be greater than zero''
     else None)"

section \<open>Output\<close>

definition usage_text :: string where
  "usage_text = ''Usage: flight_recorder [--output path] [--duration-seconds N | --run-until-signal] '' @
     ''[--stats-interval-ms N] '' @ ''[--sample-rate-hz N] [--buffer-size N] '' @
     ''[--batch-size N] [--sync-every-batches N] [--flush-interval-ms N] '' @ ''[--seed N] '' @ ''[--unpaced] '' @
     ''[--fault none|crash-before-write|crash-during-write|crash-after-write|'' @
     ''crash-before-data-sync|crash-after-data-sync|crash-before-checkpoint|'' @
     ''crash-during-checkpoint|crash-after-checkpoint|crash-before-journal-sync|'' @
     ''crash-after-journal|drop-commit] '' @ ''[--fault-sequence N]'' @ newline @
     ''Flush interval: milliseconds before committing a pending group; 0 disables the timer.'' @ newline @
     ''SIGINT/SIGTERM stop acquisition, drain the queue, and commit pending records.'' @ newline @
     ''Stats interval: periodic live counters; 0 disables reporting (default).'' @ newline @
     ''Counters: generated=sensor samples; written=complete main-log records; '' @
     ''committed=records covered by a durably acknowledged checkpoint; '' @
     ''dropped=samples rejected when the bounded ring stays full.'' @ newline"

definition print_stats :: "recorder_stats \<Rightarrow> string" where
  "print_stats st = ''generated='' @ show_word (st_total_records_generated st) @
     '' written='' @ show_word (st_total_records_written st) @
     '' committed='' @ show_word (st_total_records_committed st) @
     '' dropped='' @ show_word (st_dropped_records st) @
     '' buffer_high_watermark='' @ show_word (st_buffer_high_watermark st) @
     '' writer_error='' @ show_bool (st_writer_error st) @ newline"

definition startup_text :: "startup_recovery_report \<Rightarrow> string" where
  "startup_text report = ''startup_recovery healthy='' @ show_bool (sr_healthy report) @
     '' log_truncated='' @ show_bool (sr_log_truncated report) @
     '' journal_found='' @ show_bool (sr_journal_found report) @
     '' journal_replayed='' @ show_bool (sr_journal_replayed report) @
     '' journal_cleared='' @ show_bool (sr_journal_cleared report) @
     '' last_sequence='' @ show_word (sr_last_sequence report) @ newline @ sr_message report @ newline"

definition recording_text :: "cli \<Rightarrow> string" where
  "recording_text c = ''Recording to '' @ cf_output_path (cl_config c) @
     (if cl_run_until_signal c then '' until SIGINT/SIGTERM''
      else '' for '' @ show_int (cl_duration_seconds c) @ '' seconds'') @
     '' seed='' @ show_word (cf_simulator_seed (cl_config c)) @ newline"

section \<open>The program\<close>

datatype 'g started =
    Exits_With tool_run os
  | Process_Ends nat "'g recorder"
  | Recording string cli "'g recorder"

definition refuse :: "string \<Rightarrow> string \<Rightarrow> os \<Rightarrow> 'g started" where
  "refuse out error s = Exits_With \<lparr>tr_code = 1, tr_stdout = out, tr_stderr = error @ newline\<rparr> s"

text \<open>From the validated options to a running recorder.\<close>

definition main_record :: "'g machine \<Rightarrow> cli \<Rightarrow> os \<Rightarrow> 'g started" where
  "main_record m c s =
    (case recover_startup_state (cf_output_path (cl_config c)) s of (report, s1) \<Rightarrow>
     let out = startup_text report in
     if \<not> sr_healthy report then refuse out ''startup recovery failed'' s1
     else case start_recorder (set_start_sequence (sr_last_sequence report) (make_recorder m (cl_config c) s1)) of
       (ok, r) \<Rightarrow>
     (case rc_exit r of
        Some code \<Rightarrow> Process_Ends code r
      | None \<Rightarrow> if \<not> ok then refuse out ''failed to start recorder'' (rc_os r)
         else Recording (out @ recording_text c) c r))"

definition main_start :: "'g machine \<Rightarrow> string list \<Rightarrow> os \<Rightarrow> 'g started" where
  "main_start m args s = (case parse_arguments args default_cli of
     Show_Usage code \<Rightarrow> Exits_With \<lparr>tr_code = code, tr_stdout = usage_text, tr_stderr = []\<rparr> s
   | Invalid_Argument e \<Rightarrow>
       Exits_With \<lparr>tr_code = 1, tr_stdout = usage_text, tr_stderr = ''invalid argument: '' @ e @ newline\<rparr> s
   | Parsed c \<Rightarrow> (case cli_refused c of
       Some e \<Rightarrow> refuse [] e s
     | None \<Rightarrow> (case succeeds s of (int_ok, s1) \<Rightarrow>
         if \<not> int_ok then refuse [] ''failed to install shutdown signal handlers'' s1
         else case succeeds s1 of (term_ok, s2) \<Rightarrow>
         if \<not> term_ok then refuse [] ''failed to install shutdown signal handlers'' s2
         else main_record m c s2)))"

text \<open>One round of the waiting loop sees the signal and the clock, then the counters and the clock.
  Times are in nanoseconds; \<open>None\<close> is the clock's largest time point, which is never reached.\<close>

record poll =
  po_signal :: int
  po_before :: nat
  po_stats :: recorder_stats
  po_now :: nat

definition reached :: "nat option \<Rightarrow> nat \<Rightarrow> bool" where
  "reached deadline now = (case deadline of None \<Rightarrow> False | Some d \<Rightarrow> d \<le> now)"

text \<open>The output, and whether the loop has ended.\<close>

fun main_loop :: "nat option \<Rightarrow> nat \<Rightarrow> nat option \<Rightarrow> poll list \<Rightarrow> string \<Rightarrow> string \<times> bool" where
  "main_loop deadline interval next_stats [] out = (out, False)"
| "main_loop deadline interval next_stats (p # ps) out =
    (if po_signal p \<noteq> 0 \<or> reached deadline (po_before p) then (out, True)
     else if st_writer_error (po_stats p) then (out, True)
     else if reached next_stats (po_now p) then
       main_loop deadline interval (Some (po_now p + interval)) ps (out @ ''status '' @ print_stats (po_stats p))
     else main_loop deadline interval next_stats ps out)"

definition main_wait :: "cli \<Rightarrow> nat \<Rightarrow> nat \<Rightarrow> poll list \<Rightarrow> string \<Rightarrow> string \<times> bool" where
  "main_wait c now now2 ps out =
    main_loop (if cl_run_until_signal c then None else Some (now + nat (cl_duration_seconds c) * 1000000000))
      (unat (cl_stats_interval_ms c) * 1000000)
      (if cl_stats_interval_ms c = 0 then None else Some (now2 + unat (cl_stats_interval_ms c) * 1000000)) ps out"

text \<open>After \<open>stop\<close>.\<close>

definition main_finish :: "cli \<Rightarrow> int \<Rightarrow> 'g recorder \<Rightarrow> string \<Rightarrow> tool_run \<times> os" where
  "main_finish c received_signal r out =
    (let stats = recorder_statistics r in
     case validate (cf_output_path (cl_config c)) (rc_os r) of (report, s) \<Rightarrow>
     (\<lparr>tr_code = (if \<not> st_writer_error stats \<and> rr_healthy report then 0 else 2),
       tr_stdout = out @
         (if received_signal \<noteq> 0 then ''shutdown_signal='' @ show_int received_signal @ newline else []) @
         ''Recording complete'' @ newline @ print_stats stats @
         ''replay_validation healthy='' @ show_bool (rr_healthy report) @
         '' checksum_failures='' @ show_nat (rr_checksum_failures report) @
         '' valid_records='' @ show_nat (rr_valid_records report) @ newline,
       tr_stderr = []\<rparr>, s))"


section \<open>What the options become\<close>

text \<open>No option touches the acknowledgement descriptor.\<close>

lemma cli_value_option_ack:
  assumes "cli_value_option arg v c = Some (Inr c')"
  shows "fc_acknowledgement_fd (cf_fault_config (cl_config c')) = fc_acknowledgement_fd (cf_fault_config (cl_config c))"
  using assms unfolding cli_value_option_def
  by (auto simp: set_config_def split: if_splits sum.splits)

lemma cli_flag_ack:
  assumes "cli_flag arg c = Parsed c'"
  shows "fc_acknowledgement_fd (cf_fault_config (cl_config c')) = fc_acknowledgement_fd (cf_fault_config (cl_config c))"
  using assms by (auto simp: cli_flag_def set_config_def split: if_splits)

lemma parse_arguments_ack:
  "parse_arguments args c = Parsed c' \<Longrightarrow>
    fc_acknowledgement_fd (cf_fault_config (cl_config c')) = fc_acknowledgement_fd (cf_fault_config (cl_config c))"
proof (induction args c rule: parse_arguments.induct)
  case (3 arg v rest c)
  show ?case
  proof (cases "cli_value_option arg v c")
    case None
    with 3 show ?thesis by (auto split: parse_outcome.splits dest: cli_flag_ack)
  next
    case (Some res)
    with 3 show ?thesis by (cases res) (auto dest: cli_value_option_ack)
  qed
qed (auto dest: cli_flag_ack)

text \<open>A recording started means: the options were accepted, recovery was healthy, and the recorder
  runs from the last sequence number it found.\<close>

lemma main_start_recording:
  assumes start: "main_start m args s = Recording out c r" and s: "os_script s = []"
  shows "\<exists>report s1. recover_startup_state (cf_output_path (cl_config c)) s = (report, s1) \<and> sr_healthy report \<and>
      launched m (cl_config c) s1 (sr_last_sequence report) r"
    and "fc_acknowledgement_fd (cf_fault_config (cl_config c)) = None"
proof -
  from start s obtain c' where parsed: "parse_arguments args default_cli = Parsed c'" "main_record m c' s = Recording out c r"
    by (auto simp: main_start_def refuse_def os_simps split: parse_outcome.splits option.splits)
  obtain report s1 where rec: "recover_startup_state (cf_output_path (cl_config c')) s = (report, s1)" by force
  obtain ok r1 where st: "start_recorder (set_start_sequence (sr_last_sequence report) (make_recorder m (cl_config c') s1)) = (ok, r1)"
    by force
  from parsed(2) have run: "sr_healthy report" "ok" "c' = c" "r1 = r"
    by (auto simp: main_record_def rec st refuse_def Let_def split: if_splits option.splits)
  with rec st show "\<exists>report s1. recover_startup_state (cf_output_path (cl_config c)) s = (report, s1) \<and> sr_healthy report \<and>
      launched m (cl_config c) s1 (sr_last_sequence report) r"
    by (auto simp: launched_def)
  from parse_arguments_ack [OF parsed(1)] run(3)
  show "fc_acknowledgement_fd (cf_fault_config (cl_config c)) = None"
    by (simp add: default_cli_def default_recorder_config_def no_fault_config_def)
qed

text \<open>A rate above the 32-bit range is not refused but taken modulo \<open>2\<^sup>3\<^sup>2\<close>.\<close>

lemma sample_rate_wraps:
  "parse_arguments [''--sample-rate-hz'', ''4294967297''] default_cli =
    Parsed (set_config (\<lambda>cf. cf\<lparr>cf_sample_rate_hz := 1\<rparr>) default_cli)"
proof -
  have "stoull ''4294967297'' = Some 4294967297"
    by (simp add: stoull_def is_space_def is_digit_def digits_value_def)
  moreover have wrap: "(4294967297 :: u32) = 1" by code_simp
  ultimately show ?thesis by (simp add: cli_value_option_def read_number_def) (simp only: wrap)
qed

section \<open>Properties\<close>

text \<open>C36. A whole session of the program. When it is recording, and the recorder has run in any order
  and stopped, the process exits with zero exactly when no writer error was reported; then the log
  is what was there before and the samples written, numbered on from the last recovered sequence
  number, and everything written is committed.\<close>

theorem session_exit_code:
  assumes "main_start m args s = Recording out c r0" and "os_script s = []"
    and "recover_startup_state (cf_output_path (cl_config c)) s = (report, s1)" and "os_script s1 = []"
    and "startable (length (rc_pushed r)) (cf_output_path (cl_config c)) s1 h base"
    and "goes_on base (sr_last_sequence report)"
    and "recorder_run m (r0\<lparr>rc_os := (rc_os r0)\<lparr>os_script := script\<rparr>\<rparr>) r"
    and "unat (sr_last_sequence report) + length (rc_pushed r) < 2 ^ 64"
    and "24 + 84 * (length base + length (rc_pushed r)) < 2 ^ 64"
    and "rc_exit r = None" and "rc_writer_thread r = W_Off" and "os_script (rc_os r) = []"
  shows "\<exists>n\<le>length (rc_pushed r).
    tr_code (fst (main_finish c signal r out')) = (if rc_writer_error r then 2 else 0) \<and>
    (rc_writer_error r \<or>
      os_files (rc_os r) (cf_output_path (cl_config c)) = Some (enc_file_header h @
        enc_frames (base @ batch_frames (number_from (sr_last_sequence report) (take n (rc_pushed r))))) \<and>
      unat (st_total_records_written (recorder_statistics r)) = n \<and>
      unat (st_total_records_committed (recorder_statistics r)) = n)"
proof (cases "rc_writer_error r")
  case True
  then show ?thesis
    by (intro exI [of _ 0]) (simp add: main_finish_def recorder_statistics_def split: prod.split)
next
  case False
  have launch: "launched m (cl_config c) s1 (sr_last_sequence report) r0"
    using main_start_recording(1) [OF assms(1,2)] assms(3) by auto
  note log = clean_stop_log [OF assms(4,5) _ launch assms(6-11) False]
  let ?n = "length (concat (rc_appended r))" and ?path = "cf_output_path (cl_config c)"
  let ?fs = "base @ batch_frames (number_from (sr_last_sequence report) (take ?n (rc_pushed r)))"
  let ?log = "enc_file_header h @ enc_frames ?fs"
  have ack: "\<forall>a. fc_acknowledgement_fd (cf_fault_config (cl_config c)) = Some a \<longrightarrow> a \<noteq> ?path \<and> a \<noteq> journal_path_for_log ?path"
    using main_start_recording(2) [OF assms(1,2)] by simp
  note log = log [OF ack]
  have ok: "log_header_ok ?log" using log(2) by (simp add: log_header_ok_def codec_simps)
  from scan_file_ok [OF assms(12) log(4) ok, of False] log_frames_whole [OF log(3), of h] obtain rep md es where
    scan: "scan_file ?path False (rc_os r) = ((rep, md, es), rc_os r)" "reports_prefix ?log rep" by auto
  have "log_valid_bytes ?log = length ?log"
    unfolding log_valid_bytes_def log_frames_whole [OF log(3)] by (simp add: codec_simps)
  then have "rr_healthy rep" using scan(2) by (simp add: reports_prefix_def)
  then show ?thesis
    using False log
    by (intro exI [of _ ?n]) (simp add: main_finish_def validate_def scan(1) recorder_statistics_def)
qed


text \<open>Where there is no log yet, recovery finds nothing wrong and leaves everything alone.\<close>

lemma recovery_of_nothing:
  assumes "os_files s path = None" and "os_files s (journal_path_for_log path) = None"
  shows "\<exists>report. recover_startup_state path s = (report, s) \<and> sr_healthy report \<and> sr_last_sequence report = 0 \<and>
    sr_checkpoint_generation report = 0"
  using assms
  by (simp add: recover_startup_state_def scan_healthy_prefix_def scan_file_def path_exists_def inspect_journal_def
      empty_report_def Let_def empty_startup_def)

lemma sample_parsed: "parse_arguments [''--output'', ''log''] default_cli = Parsed (default_cli\<lparr>cl_config := sample_config\<rparr>)"
  by (simp add: cli_value_option_def set_config_def default_cli_def sample_config_def)

lemma sample_main_start:
  "\<exists>out r :: unit recorder. main_start zero_machine [''--output'', ''log''] sample_os =
     Recording out (default_cli\<lparr>cl_config := sample_config\<rparr>) r \<and> launched zero_machine sample_config sample_os 0 r"
proof -
  let ?c = "default_cli\<lparr>cl_config := sample_config\<rparr>"
  obtain report where rec: "recover_startup_state ''log'' sample_os = (report, sample_os)" "sr_healthy report"
    "sr_last_sequence report = 0"
    using recovery_of_nothing [of sample_os "''log''"] by (auto simp: sample_os_def)
  obtain r :: "unit recorder" where launch: "launched zero_machine sample_config sample_os 0 r"
    using sample_launched by blast
  have "cli_refused ?c = None" by (simp add: cli_refused_def default_cli_def sample_config_def default_recorder_config_def)
  moreover have "succeeds sample_os = (True, sample_os)" using sample_hypotheses(4) by (rule succeeds_nil)
  moreover have "main_record zero_machine ?c sample_os = Recording (startup_text report @ recording_text ?c) ?c r"
    using launch launched_fields(11) [OF launch]
    by (simp add: main_record_def sample_hypotheses rec launched_def)
  ultimately show ?thesis using launch unfolding main_start_def sample_parsed by auto
qed

theorem session_exit_code_witness:
  "\<exists>out c (r0 :: unit recorder) r. main_start zero_machine [''--output'', ''log''] sample_os = Recording out c r0 \<and>
    recorder_run zero_machine r0 r \<and> rc_writer_thread r = W_Off \<and> tr_code (fst (main_finish c 2 r out)) = 0"
proof -
  let ?c = "default_cli\<lparr>cl_config := sample_config\<rparr>"
  obtain out and r0 :: "unit recorder" where start: "main_start zero_machine [''--output'', ''log''] sample_os = Recording out ?c r0"
    and launch: "launched zero_machine sample_config sample_os 0 r0"
    using sample_main_start by blast
  obtain report where rec: "recover_startup_state ''log'' sample_os = (report, sample_os)" "sr_last_sequence report = 0"
    using recovery_of_nothing [of sample_os "''log''"] by (auto simp: sample_os_def)
  obtain r x where run: "recorder_run zero_machine r0 r" "rc_pushed r = [x]" "rc_exit r = None"
    "rc_writer_thread r = W_Off" "\<not> rc_writer_error r" "rc_os r = rc_os r0"
    using sample_stopped [OF launch] by blast
  have run': "recorder_run zero_machine (r0\<lparr>rc_os := (rc_os r0)\<lparr>os_script := []\<rparr>\<rparr>) r"
    unfolding sample_script [OF launch] by (rule run(1))
  have calm: "os_script (rc_os r0) = []" by (rule sample_calm [OF launch])
  note h = sample_hypotheses sample_startable [of 1]
  from session_exit_code [OF start _ _ _ _ _ run', of report sample_os "new_file_header 7" "[]" 2 out] run h rec calm
  have "tr_code (fst (main_finish ?c 2 r out)) = 0" by auto
  with start run show ?thesis by blast
qed

end
