(* ===== verification/Replay_Tool.thy ===== *)
theory Replay_Tool
  imports Recovery Text_Format
begin

text \<open>
  The replay tool, \<open>replay_tool.cpp\<close>: its command line, the filter and the summary of the entries
  that the scan of a log returns, and what it prints. How the library prints a double and whether
  one double is less than another are parameters. A stream reports a failed write when the write
  fails; the library's buffering is not modelled.
\<close>

section \<open>Options\<close>

record replay_options =
  ro_log_path :: string
  ro_summary_only :: bool
  ro_show_invalid :: bool
  ro_from_seq :: u64
  ro_to_seq :: u64
  ro_max_records :: u64
  ro_csv_path :: string

definition default_replay_options :: replay_options where
  "default_replay_options = \<lparr>ro_log_path = [], ro_summary_only = False, ro_show_invalid = False,
     ro_from_seq = 0, ro_to_seq = - 1, ro_max_records = - 1, ro_csv_path = []\<rparr>"

text \<open>An option that takes a value; \<open>None\<close> when it is not one or the value is refused.\<close>

definition replay_value_option :: "string \<Rightarrow> string \<Rightarrow> replay_options \<Rightarrow> replay_options option" where
  "replay_value_option arg text options =
    (if arg = ''--from-seq'' then map_option (\<lambda>v. options\<lparr>ro_from_seq := v\<rparr>) (stoull text)
     else if arg = ''--to-seq'' then map_option (\<lambda>v. options\<lparr>ro_to_seq := v\<rparr>) (stoull text)
     else if arg = ''--max'' then map_option (\<lambda>v. options\<lparr>ro_max_records := v\<rparr>) (stoull text)
     else if arg = ''--csv'' then Some (options\<lparr>ro_csv_path := text\<rparr>)
     else None)"

fun replay_parse_loop :: "string list \<Rightarrow> replay_options \<Rightarrow> replay_options option" where
  "replay_parse_loop [] options = Some options"
| "replay_parse_loop [arg] options =
    (if arg = ''--summary'' then Some (options\<lparr>ro_summary_only := True\<rparr>)
     else if arg = ''--show-invalid'' then Some (options\<lparr>ro_show_invalid := True\<rparr>)
     else None)"
| "replay_parse_loop (arg # text # rest) options =
    (if arg = ''--summary'' then replay_parse_loop (text # rest) (options\<lparr>ro_summary_only := True\<rparr>)
     else if arg = ''--show-invalid'' then replay_parse_loop (text # rest) (options\<lparr>ro_show_invalid := True\<rparr>)
     else (case replay_value_option arg text options of
         None \<Rightarrow> None | Some options' \<Rightarrow> replay_parse_loop rest options'))"

text \<open>The arguments after the program's name.\<close>

definition replay_parse_args :: "string list \<Rightarrow> replay_options option" where
  "replay_parse_args args = (case args of [] \<Rightarrow> None
     | path # rest \<Rightarrow> (case replay_parse_loop rest (default_replay_options\<lparr>ro_log_path := path\<rparr>) of
         None \<Rightarrow> None
       | Some options \<Rightarrow> if ro_from_seq options \<le> ro_to_seq options then Some options else None))"

section \<open>Filter\<close>

definition matches_filter :: "replay_options \<Rightarrow> replay_entry \<Rightarrow> bool" where
  "matches_filter options entry \<longleftrightarrow>
     ro_from_seq options \<le> re_sequence entry \<and> re_sequence entry \<le> ro_to_seq options"

primrec filter_loop :: "replay_options \<Rightarrow> replay_entry list \<Rightarrow> replay_entry list \<Rightarrow> replay_entry list" where
  "filter_loop options [] filtered = filtered"
| "filter_loop options (entry # entries) filtered =
    (if \<not> matches_filter options entry then filter_loop options entries filtered
     else let filtered' = filtered @ [entry] in
       if unat (ro_max_records options) \<le> length filtered' then filtered'
       else filter_loop options entries filtered')"

definition filter_entries :: "replay_entry list \<Rightarrow> replay_options \<Rightarrow> replay_entry list" where
  "filter_entries entries options = filter_loop options entries []"

section \<open>Summary\<close>

record double_text =
  dt_less :: "f64 \<Rightarrow> f64 \<Rightarrow> bool"
  dt_fixed :: "f64 \<Rightarrow> string"
  dt_general :: "f64 \<Rightarrow> string"

record summary_stats =
  ss_total_valid_records :: nat
  ss_invalid_records :: nat
  ss_first_timestamp_us :: u64
  ss_last_timestamp_us :: u64
  ss_min_altitude_m :: f64
  ss_max_altitude_m :: f64
  ss_min_airspeed_kts :: f64
  ss_max_airspeed_kts :: f64
  ss_min_engine_temperature_c :: f64
  ss_max_engine_temperature_c :: f64

definition std_min :: "double_text \<Rightarrow> f64 \<Rightarrow> f64 \<Rightarrow> f64" where
  "std_min d a b = (if dt_less d b a then b else a)"

definition std_max :: "double_text \<Rightarrow> f64 \<Rightarrow> f64 \<Rightarrow> f64" where
  "std_max d a b = (if dt_less d a b then b else a)"

definition widen_summary :: "double_text \<Rightarrow> replay_entry \<Rightarrow> summary_stats \<Rightarrow> summary_stats" where
  "widen_summary d entry st = (let record = re_record entry in st\<lparr>
     ss_min_altitude_m := std_min d (ss_min_altitude_m st) (altitude_m record),
     ss_max_altitude_m := std_max d (ss_max_altitude_m st) (altitude_m record),
     ss_min_airspeed_kts := std_min d (ss_min_airspeed_kts st) (airspeed_kts record),
     ss_max_airspeed_kts := std_max d (ss_max_airspeed_kts st) (airspeed_kts record),
     ss_min_engine_temperature_c := std_min d (ss_min_engine_temperature_c st) (engine_temperature_c record),
     ss_max_engine_temperature_c := std_max d (ss_max_engine_temperature_c st) (engine_temperature_c record)\<rparr>)"

definition compute_summary :: "double_text \<Rightarrow> replay_entry list \<Rightarrow> recovery_report \<Rightarrow> summary_stats" where
  "compute_summary d entries report =
    (let start = \<lparr>ss_total_valid_records = length entries,
           ss_invalid_records = (if rr_corruption_detected report then 1 else 0),
           ss_first_timestamp_us = 0, ss_last_timestamp_us = 0, ss_min_altitude_m = 0, ss_max_altitude_m = 0,
           ss_min_airspeed_kts = 0, ss_max_airspeed_kts = 0, ss_min_engine_temperature_c = 0,
           ss_max_engine_temperature_c = 0\<rparr> in
     if entries = [] then start
     else let first_record = re_record (hd entries) in
       fold (widen_summary d) entries (start\<lparr>
         ss_first_timestamp_us := timestamp_us first_record,
         ss_last_timestamp_us := timestamp_us (re_record (last entries)),
         ss_min_altitude_m := altitude_m first_record, ss_max_altitude_m := altitude_m first_record,
         ss_min_airspeed_kts := airspeed_kts first_record, ss_max_airspeed_kts := airspeed_kts first_record,
         ss_min_engine_temperature_c := engine_temperature_c first_record,
         ss_max_engine_temperature_c := engine_temperature_c first_record\<rparr>))"

section \<open>Output\<close>

definition status_to_string :: "u32 \<Rightarrow> string" where
  "status_to_string status = ''0x'' @ show_hex (unat status)"

definition table_header :: string where
  "table_header = pad_right 8 ''SEQ'' @ pad_right 18 ''TIMESTAMP_US'' @ pad_right 12 ''ALT_M'' @
     pad_right 14 ''AIRSPEED_KTS'' @ pad_right 13 ''HEADING_DEG'' @ pad_right 12 ''VS_FPM'' @
     pad_right 14 ''ENG_TEMP_C'' @ pad_right 12 ''ENG_RPM'' @ ''STATUS'' @ newline"

definition table_row :: "double_text \<Rightarrow> replay_entry \<Rightarrow> string" where
  "table_row d entry = (let record = re_record entry in
     pad_right 8 (show_word (re_sequence entry)) @ pad_right 18 (show_word (timestamp_us record)) @
     pad_right 12 (dt_fixed d (altitude_m record)) @ pad_right 14 (dt_fixed d (airspeed_kts record)) @
     pad_right 13 (dt_fixed d (heading_deg record)) @ pad_right 12 (dt_fixed d (vertical_speed_fpm record)) @
     pad_right 14 (dt_fixed d (engine_temperature_c record)) @ pad_right 12 (dt_fixed d (engine_rpm record)) @
     status_to_string (system_status record) @ newline)"

definition print_table :: "double_text \<Rightarrow> replay_entry list \<Rightarrow> string" where
  "print_table d entries = table_header @ concat (map (table_row d) entries)"

definition csv_header :: string where
  "csv_header = ''sequence,timestamp_us,altitude_m,airspeed_kts,heading_deg,vertical_speed_fpm,'' @
     ''engine_temperature_c,engine_rpm,system_status'' @ newline"

definition csv_row :: "double_text \<Rightarrow> replay_entry \<Rightarrow> string" where
  "csv_row d entry = (let record = re_record entry; comma = '','' in
     show_word (re_sequence entry) @ comma @ show_word (timestamp_us record) @ comma @
     dt_general d (altitude_m record) @ comma @ dt_general d (airspeed_kts record) @ comma @
     dt_general d (heading_deg record) @ comma @ dt_general d (vertical_speed_fpm record) @ comma @
     dt_general d (engine_temperature_c record) @ comma @ dt_general d (engine_rpm record) @ comma @
     show_word (system_status record) @ newline)"

definition write_csv :: "double_text \<Rightarrow> string \<Rightarrow> replay_entry list \<Rightarrow> os \<Rightarrow> bool \<times> os" where
  "write_csv d path entries s = (case open_trunc path s of (opened, s1) \<Rightarrow>
     if \<not> opened then (False, s1)
     else let content = map of_char (csv_header @ concat (map (csv_row d) entries)) in
     case pwrite path content 0 s1 of (result, s2) \<Rightarrow> (result = Wrote (length content), s2))"

definition print_summary :: "double_text \<Rightarrow> summary_stats \<Rightarrow> recovery_report \<Rightarrow> string" where
  "print_summary d st report = ''summary'' @
     '' total_valid_records='' @ show_nat (ss_total_valid_records st) @
     '' invalid_corrupt_records='' @ show_nat (ss_invalid_records st) @
     '' checksum_failures='' @ show_nat (rr_checksum_failures report) @
     '' first_timestamp_us='' @ show_word (ss_first_timestamp_us st) @
     '' last_timestamp_us='' @ show_word (ss_last_timestamp_us st) @
     '' min_altitude_m='' @ dt_fixed d (ss_min_altitude_m st) @
     '' max_altitude_m='' @ dt_fixed d (ss_max_altitude_m st) @
     '' min_airspeed_kts='' @ dt_fixed d (ss_min_airspeed_kts st) @
     '' max_airspeed_kts='' @ dt_fixed d (ss_max_airspeed_kts st) @
     '' min_engine_temp_c='' @ dt_fixed d (ss_min_engine_temperature_c st) @
     '' max_engine_temp_c='' @ dt_fixed d (ss_max_engine_temperature_c st) @ newline"

definition print_invalid_boundary :: "recovery_report \<Rightarrow> string" where
  "print_invalid_boundary report = ''invalid_record'' @
     '' first_bad_record_index='' @ show_nat (rr_first_bad_record_index report) @
     '' first_bad_record_sequence='' @ show_word (rr_first_bad_record_sequence report) @
     '' corruption_offset='' @ show_nat (rr_corruption_offset report) @
     '' valid_bytes='' @ show_nat (rr_valid_bytes report) @
     '' bytes_scanned='' @ show_nat (rr_bytes_scanned report) @
     '' expected_sequence='' @ show_word (rr_expected_sequence report) @
     '' reason='' @ quote @ rr_message report @ quote @ newline"

definition file_header_line :: "replay_log \<Rightarrow> recovery_report \<Rightarrow> string" where
  "file_header_line log report = ''file_header'' @
     '' version='' @ show_word (md_format_version (rl_metadata log)) @
     '' recorder_start_us='' @ show_word (md_recorder_start_time_us (rl_metadata log)) @
     '' record_size='' @ show_word (md_record_size (rl_metadata log)) @
     '' total_records_in_valid_prefix='' @ show_nat (length (rl_entries log)) @
     '' healthy='' @ show_bool (rr_healthy report) @ newline"

section \<open>The program\<close>

definition replay_usage :: string where
  "replay_usage = ''Usage: replay_tool <log_file> [--summary] [--from-seq N] [--to-seq N] '' @
     ''[--max N] [--show-invalid] [--csv output.csv]'' @ newline"

definition replay_main :: "double_text \<Rightarrow> string list \<Rightarrow> os \<Rightarrow> tool_run \<times> os" where
  "replay_main d args s = (case replay_parse_args args of
     None \<Rightarrow> (\<lparr>tr_code = 1, tr_stdout = replay_usage, tr_stderr = []\<rparr>, s)
   | Some options \<Rightarrow>
     (case scan_replayable_log (ro_log_path options) s of ((log, report), s1) \<Rightarrow>
      let filtered = filter_entries (rl_entries log) options;
          out1 = file_header_line log report @
            (if ro_summary_only options then [] else print_table d filtered) @
            print_summary d (compute_summary d filtered report) report;
          (csv_ok, s2) = (if ro_csv_path options = [] then (True, s1)
            else write_csv d (ro_csv_path options) filtered s1) in
      if \<not> csv_ok then
        (\<lparr>tr_code = 1, tr_stdout = out1,
          tr_stderr = ''failed to write CSV to '' @ ro_csv_path options @ newline\<rparr>, s2)
      else
        (\<lparr>tr_code = (if rr_healthy report then 0 else 2),
          tr_stdout = out1 @ (if ro_csv_path options = [] then []
            else ''csv_export path='' @ ro_csv_path options @ '' records='' @ show_nat (length filtered) @ newline),
          tr_stderr = (if rr_corruption_detected report \<and> ro_show_invalid options
            then print_invalid_boundary report else [])\<rparr>, s2)))"


section \<open>What is shown\<close>

lemma filter_loop_spec:
  assumes "length filtered < max 1 (unat (ro_max_records options))"
  shows "filter_loop options entries filtered =
    take (max 1 (unat (ro_max_records options))) (filtered @ filter (matches_filter options) entries)"
  using assms
proof (induction entries arbitrary: filtered)
  case (Cons entry entries)
  show ?case
  proof (cases "matches_filter options entry \<and> unat (ro_max_records options) \<le> length (filtered @ [entry])")
    case True
    with Cons.prems have "length (filtered @ [entry]) = max 1 (unat (ro_max_records options))" by auto
    from take_append_length [OF this, of "filter (matches_filter options) entries"] True
    show ?thesis by (simp add: Let_def)
  next
    case False
    with Cons show ?thesis by (auto simp: Let_def simp del: take_append)
  qed
qed simp

lemma filter_entries_spec: "filter_entries entries options =
    take (max 1 (unat (ro_max_records options))) (filter (matches_filter options) entries)"
  by (simp add: filter_entries_def filter_loop_spec)

section \<open>Properties\<close>

text \<open>C33. The replay tool shows the longest valid prefix of the log and nothing else: of its entries
  those in the requested range, at most the requested number, but at least one; and it exits with
  zero exactly when the file has nothing after that prefix.\<close>

theorem replay_tool_shows_valid_prefix:
  assumes "os_script s = []" and "os_files s (ro_log_path options) = Some log" and "log_header_ok log"
    and "replay_parse_args args = Some options" and "ro_csv_path options = []"
  shows "\<exists>metadata report errors. reports_prefix log report \<and>
    (let entries = map frame_entry (log_frames log);
         shown = take (max 1 (unat (ro_max_records options))) (filter (matches_filter options) entries) in
     replay_main d args s =
      (\<lparr>tr_code = (if log_valid_bytes log = length log then 0 else 2),
        tr_stdout = file_header_line \<lparr>rl_metadata = metadata, rl_entries = entries\<rparr> report @
          (if ro_summary_only options then [] else print_table d shown) @
          print_summary d (compute_summary d shown report) report,
        tr_stderr = errors\<rparr>, s))"
proof -
  from scan_file_ok [OF assms(1-3), of False] obtain report metadata where
    scan: "scan_file (ro_log_path options) False s = ((report, metadata, map frame_entry (log_frames log)), s)"
      "reports_prefix log report" by auto
  have "rr_healthy report \<longleftrightarrow> log_valid_bytes log = length log" using scan(2) by (simp add: reports_prefix_def)
  then show ?thesis
    using scan assms(4,5)
    by (intro exI [of _ metadata] exI [of _ report] exI
        [of _ "if rr_corruption_detected report \<and> ro_show_invalid options then print_invalid_boundary report else []"])
      (simp add: replay_main_def scan_replayable_log_def Let_def filter_entries_spec)
qed


definition first_only :: replay_options where
  "first_only = default_replay_options\<lparr>ro_log_path := ''log'', ro_max_records := 0\<rparr>"

lemma parse_first_only: "replay_parse_args [''log'', ''--max'', ''0''] = Some first_only"
  by (simp add: replay_parse_args_def replay_value_option_def stoull_def is_space_def is_digit_def digits_value_def
      first_only_def default_replay_options_def)

theorem replay_tool_shows_valid_prefix_witness:
  "\<exists>d s out errors. replay_main d [''log'', ''--max'', ''0''] s =
     (\<lparr>tr_code = 0, tr_stdout = out, tr_stderr = errors\<rparr>, s) \<and>
     os_files s ''log'' = Some (log_bytes 7 sample_frames)"
proof -
  define s where "s = \<lparr>os_files = [''log'' \<mapsto> log_bytes 7 sample_frames], os_synced = Map.empty, os_script = [],
    os_elapsed = [], os_now = 7, os_keep_size = False\<rparr>"
  define d where "d = \<lparr>dt_less = (\<lambda>_ _. False), dt_fixed = (\<lambda>_. ''0.00''), dt_general = (\<lambda>_. ''0'')\<rparr>"
  have log: "log_header_ok (log_bytes 7 sample_frames)" "log_frames (log_bytes 7 sample_frames) = sample_frames"
    "log_valid_bytes (log_bytes 7 sample_frames) = length (log_bytes 7 sample_frames)"
    using log_bytes_header(1) [of 7 sample_frames "[]"] log_bytes_header(3) [of 7 sample_frames]
      log_bytes_frames [OF sample_chain, where rest = "[]" and t = 7]
    by (simp_all add: log_valid_bytes_def)
  have on_disk: "os_files s ''log'' = Some (log_bytes 7 sample_frames)" "os_script s = []" by (simp_all add: s_def)
  then obtain out errors where "replay_main d [''log'', ''--max'', ''0''] s =
      (\<lparr>tr_code = 0, tr_stdout = out, tr_stderr = errors\<rparr>, s)"
    using replay_tool_shows_valid_prefix [OF _ _ log(1) parse_first_only, of s d] log(3)
    by (auto simp: first_only_def default_replay_options_def Let_def)
  then show ?thesis using on_disk by blast
qed

end
