(* ===== verification/Fault_Injection.thy ===== *)
theory Fault_Injection
  imports Recovery Text_Format
begin

text \<open>
  The fault injector, \<open>fault_injection.cpp\<close> and its tool \<open>fault_injector.cpp\<close>: cutting bytes off a
  log's end and flipping bits of one byte of a record. An error is \<open>Inl\<close> of its message. A stream
  reports a failed write when the write fails; the library's buffering is not modelled.
\<close>

section \<open>The injections\<close>

definition truncate_log_tail :: "string \<Rightarrow> nat \<Rightarrow> os \<Rightarrow> (string + unit) \<times> os" where
  "truncate_log_tail path bytes_to_remove s =
    (if \<not> path_exists path s then (Inl ''log file does not exist'', s)
     else case succeeds s of (stat_ok, s1) \<Rightarrow>
     if \<not> stat_ok then (Inl ''failed to stat log file'', s1)
     else let current_size = stat_size path s1 in
     if current_size \<le> bytes_to_remove then (Inl ''refusing to truncate entire file'', s1)
     else case truncate_file path (current_size - bytes_to_remove) s1 of (truncated, s2) \<Rightarrow>
     if \<not> truncated then (Inl ''truncate failed'', s2) else (Inr (), s2))"

text \<open>The number of the first entry with the sequence number.\<close>

primrec find_sequence :: "u64 \<Rightarrow> nat \<Rightarrow> replay_entry list \<Rightarrow> nat option" where
  "find_sequence q i [] = None"
| "find_sequence q i (entry # entries) =
    (if re_sequence entry = q then Some i else find_sequence q (i + 1) entries)"

definition corrupt_record_byte :: "string \<Rightarrow> u64 \<Rightarrow> nat \<Rightarrow> os \<Rightarrow> (string + unit) \<times> os" where
  "corrupt_record_byte path sequence byte_offset_in_record s =
    (if kPersistedRecordSize \<le> byte_offset_in_record then (Inl ''record byte offset is out of range'', s)
     else case scan_replayable_log path s of ((log, _), s1) \<Rightarrow>
     (case find_sequence sequence 0 (rl_entries log) of
        None \<Rightarrow> (Inl ''sequence not found in valid log prefix'', s1)
      | Some record_index \<Rightarrow>
     case open_read path s1 of (opened, s2) \<Rightarrow>
     if \<not> opened then (Inl ''failed to open log file for corruption injection'', s2)
     else let record_offset = sizeof_file_header + record_index * kPersistedRecordSize + byte_offset_in_record in
     case pread path 1 record_offset s2 of (result, s3) \<Rightarrow>
     (case result of
        Some [current] \<Rightarrow>
         (case pwrite path [xor current 0x5A] record_offset s3 of (written, s4) \<Rightarrow>
          if written \<noteq> Wrote 1 then (Inl ''failed to write corrupted byte'', s4) else (Inr (), s4))
      | _ \<Rightarrow> (Inl ''failed to read target byte'', s3))))"

section \<open>The tool\<close>

definition injector_usage :: string where
  "injector_usage = ''Usage:'' @ newline @ ''  fault_injector truncate <log_file> <bytes>'' @ newline @
     ''  fault_injector corrupt <log_file> <sequence> <record_byte_offset>'' @ newline"

definition injector_refuses :: "string \<Rightarrow> string \<Rightarrow> tool_run" where
  "injector_refuses mode error =
    \<lparr>tr_code = 1, tr_stdout = [], tr_stderr = mode @ '' failed: '' @ error @ newline\<rparr>"

definition injector_truncate :: "string \<Rightarrow> string \<Rightarrow> os \<Rightarrow> tool_run \<times> os" where
  "injector_truncate path text s = (case stoull text of
     None \<Rightarrow> (\<lparr>tr_code = 1, tr_stdout = injector_usage, tr_stderr = []\<rparr>, s)
   | Some bytes \<Rightarrow> (case truncate_log_tail path (unat bytes) s of (result, s1) \<Rightarrow>
       (case result of
          Inl error \<Rightarrow> (injector_refuses ''truncate'' error, s1)
        | Inr _ \<Rightarrow> (\<lparr>tr_code = 0, tr_stdout = ''truncate_complete path='' @ path @
            '' bytes_removed='' @ show_word bytes @ newline, tr_stderr = []\<rparr>, s1))))"

definition injector_corrupt :: "string \<Rightarrow> string \<Rightarrow> string \<Rightarrow> os \<Rightarrow> tool_run \<times> os" where
  "injector_corrupt path sequence_text offset_text s = (case (stoull sequence_text, stoull offset_text) of
     (Some sequence, Some offset) \<Rightarrow>
       (case corrupt_record_byte path sequence (unat offset) s of (result, s1) \<Rightarrow>
       (case result of
          Inl error \<Rightarrow> (injector_refuses ''corrupt'' error, s1)
        | Inr _ \<Rightarrow> (\<lparr>tr_code = 0, tr_stdout = ''corruption_complete path='' @ path @
            '' sequence='' @ show_word sequence @ '' offset='' @ show_word offset @ newline, tr_stderr = []\<rparr>, s1)))
   | _ \<Rightarrow> (\<lparr>tr_code = 1, tr_stdout = injector_usage, tr_stderr = []\<rparr>, s))"

text \<open>The arguments after the program's name.\<close>

definition injector_main :: "string list \<Rightarrow> os \<Rightarrow> tool_run \<times> os" where
  "injector_main args s = (case args of
     [mode, path, text] \<Rightarrow>
       if mode = ''truncate'' then injector_truncate path text s
       else (\<lparr>tr_code = 1, tr_stdout = injector_usage, tr_stderr = []\<rparr>, s)
   | [mode, path, text, text2] \<Rightarrow>
       if mode = ''corrupt'' then injector_corrupt path text text2 s
       else (\<lparr>tr_code = 1, tr_stdout = injector_usage, tr_stderr = []\<rparr>, s)
   | _ \<Rightarrow> (\<lparr>tr_code = 1, tr_stdout = injector_usage, tr_stderr = []\<rparr>, s))"

section \<open>A damaged byte\<close>

lemma xor_changes: "xor (b :: u8) 0x5A \<noteq> b"
proof
  assume "xor b 0x5A = b"
  then have "xor b (xor b 0x5A) = 0" by simp
  then show False by (simp add: xor.assoc [symmetric])
qed

text \<open>In a chain the sequence numbers grow, so the first entry with a number is the only one.\<close>

lemma chain_grows:
  "chain_ok previous fs \<Longrightarrow> (\<forall>f\<in>set fs. \<forall>p. previous = Some p \<longrightarrow> unat p < unat (frame_seq f)) \<and> distinct (map frame_seq fs)"
proof (induction fs arbitrary: previous)
  case (Cons f fs)
  then have f: "follows previous (frame_seq f)" and IH: "\<forall>g\<in>set fs. unat (frame_seq f) < unat (frame_seq g)"
    "distinct (map frame_seq fs)" by auto
  have "unat p < unat (frame_seq f)" if "previous = Some p" for p
  proof -
    from f that have "p \<noteq> - 1" "frame_seq f = p + 1" by (simp_all add: follows_def)
    then show ?thesis using unatSuc [of p] by (simp add: add.commute add_eq_0_iff)
  qed
  with IH show ?case by fastforce
qed simp


lemma frame_entry_sequence [simp]: "re_sequence (frame_entry f) = frame_seq f"
  by (simp add: frame_entry_def frame_seq_def split: prod.split)

lemma find_sequence_here:
  "frame_seq f \<notin> frame_seq ` set fs \<Longrightarrow>
    find_sequence (frame_seq f) i (map frame_entry (fs @ f # gs)) = Some (i + length fs)"
  by (induction fs arbitrary: i) auto

lemma find_sequence_chain:
  "chain_ok None (fs @ f # gs) \<Longrightarrow> find_sequence (frame_seq f) 0 (map frame_entry (fs @ f # gs)) = Some (length fs)"
  using chain_grows [of None "fs @ f # gs"] find_sequence_here [of f fs 0 gs] by auto

text \<open>The byte is flipped in place.\<close>

lemma corrupt_flips:
  assumes s: "os_script s = []" and log: "os_files s path = Some (enc_file_header h @ enc_frames (fs @ f # gs))"
    and h: "file_header_ok h" and chain: "chain_ok None (fs @ f # gs)" and off: "off < 84"
  defines "frame \<equiv> enc_frame f"
  shows "corrupt_record_byte path (frame_seq f) off s = (Inr (),
    set_file path (enc_file_header h @ enc_frames fs @
      take off frame @ [xor (frame ! off) 0x5A] @ drop (Suc off) frame @ enc_frames gs) s)"
proof -
  let ?log = "enc_file_header h @ enc_frames (fs @ f # gs)" and ?head = "enc_file_header h @ enc_frames fs @ take off frame"
  have len: "length frame = 84" by (simp add: frame_def frc.enc_length)
  then have split: "frame = take off frame @ (frame ! off) # drop (Suc off) frame"
    using off by (simp add: id_take_nth_drop)
  have "enc_frames (fs @ f # gs) = enc_frames fs @ (take off frame @ (frame ! off) # drop (Suc off) frame) @ enc_frames gs"
    unfolding split [symmetric] by (simp add: frame_def codec_simps)
  then have parts: "?log = ?head @ [frame ! off] @ drop (Suc off) frame @ enc_frames gs" by simp
  have pos: "length ?head = 24 + length fs * 84 + off" using len off by (simp add: codec_simps)
  have ok: "log_header_ok ?log" using h by (simp add: log_header_ok_def codec_simps)
  have "log_frames ?log = fs @ f # gs" using valid_prefix_append [OF chain, of "[]"]
    by (simp add: log_frames_def codec_simps valid_prefix_stop)
  with scan_file_ok [OF s log ok, of False] find_sequence_chain [OF chain] obtain report metadata where
    scan: "scan_file path False s = ((report, metadata, map frame_entry (fs @ f # gs)), s)" by auto
  have read: "take 1 (drop (24 + length fs * 84 + off) ?log) = [frame ! off]"
    unfolding parts pos [symmetric] by simp
  have patched: "overwrite ?log (24 + length fs * 84 + off) [xor (frame ! off) 0x5A] =
      ?head @ [xor (frame ! off) 0x5A] @ drop (Suc off) frame @ enc_frames gs"
    unfolding parts by (subst overwrite_mid [OF pos]) simp_all
  show ?thesis
    using off s log read patched find_sequence_chain [OF chain]
    by (simp add: corrupt_record_byte_def scan_replayable_log_def scan Let_def os_simps file_bytes_some path_exists_def)
qed


section \<open>Properties\<close>

text \<open>C34. An injected corruption is found exactly where it was made: after flipping a byte of the record
  with a given sequence number in a valid log, the scan keeps the records before it and reports the
  damage at that record's offset; recovery with truncation leaves the log with these records; and
  the same injection is refused from then on.\<close>

theorem injected_corruption_is_found:
  assumes "os_script s = []" and "os_files s path = Some (enc_file_header h @ enc_frames (fs @ f # gs))"
    and "file_header_ok h" and "chain_ok None (fs @ f # gs)" and "off < 84"
  shows "\<exists>s' report report'. corrupt_record_byte path (frame_seq f) off s = (Inr (), s') \<and>
    validate path s' = (report, s') \<and> rr_corruption_detected report \<and> rr_valid_records report = length fs \<and>
    rr_corruption_offset report = 24 + 84 * length fs \<and>
    recover path True s' = (report', set_file path (enc_file_header h @ enc_frames fs) s') \<and> rr_healthy report' \<and>
    corrupt_record_byte path (frame_seq f) off s' = (Inl ''sequence not found in valid log prefix'', s')"
proof -
  let ?frame = "enc_frame f"
  let ?bad = "take off ?frame @ [xor (?frame ! off) 0x5A] @ drop (Suc off) ?frame"
  define log where "log = enc_file_header h @ enc_frames fs @ ?bad @ enc_frames gs"
  let ?s = "set_file path log s"
  have len: "length ?frame = 84" by (simp add: frc.enc_length)
  then have split: "?frame = take off ?frame @ [?frame ! off] @ drop (Suc off) ?frame"
    using assms(5) by (simp add: id_take_nth_drop)
  have fr: "log_frames log = fs"
    using damaged_log_frames [OF assms(4) split, of "[xor (?frame ! off) 0x5A]" "enc_file_header h" "enc_frames gs"]
      xor_changes [of "?frame ! off"] by (simp add: codec_simps log_def)
  have ok: "log_header_ok log" using assms(3) by (simp add: log_header_ok_def codec_simps log_def)
  have flips: "corrupt_record_byte path (frame_seq f) off s = (Inr (), ?s)"
    using corrupt_flips [OF assms] by (simp add: log_def)
  have s': "os_script ?s = []" "os_files ?s path = Some log" using assms(1) by simp_all
  have tail: "log_valid_bytes log < length log"
    using len assms(5) unfolding log_valid_bytes_def fr by (simp add: codec_simps log_def)
  from scan_file_ok [OF s' ok, of False] obtain report metadata where
    scan: "scan_file path False ?s = ((report, metadata, map frame_entry fs), ?s)" "reports_prefix log report"
    by (auto simp: fr)
  from scan_healthy_prefix_ok [OF s' ok] obtain report' where
    rec: "recover path True ?s = (report', set_file path (take (log_valid_bytes log) log) ?s)" "rr_healthy report'"
    by (auto simp: recover_def recovered_prefix_def)
  have cut: "take (log_valid_bytes log) log = enc_file_header h @ enc_frames fs"
    unfolding log_valid_bytes_def fr by (simp add: codec_simps log_def)
  have "frame_seq f \<notin> frame_seq ` set fs" using chain_grows [OF assms(4)] by auto
  then have "find_sequence (frame_seq f) i (map frame_entry fs) = None" for i
    by (induction fs arbitrary: i) auto
  then have again: "corrupt_record_byte path (frame_seq f) off ?s = (Inl ''sequence not found in valid log prefix'', ?s)"
    using assms(5) by (simp add: corrupt_record_byte_def scan_replayable_log_def scan(1))
  have "validate path ?s = (report, ?s)" by (simp add: validate_def scan(1))
  with flips scan(2) rec tail again show ?thesis
    unfolding cut by (intro exI [of _ ?s] exI [of _ report] exI [of _ report'])
      (simp add: reports_prefix_def fr log_valid_bytes_def)
qed

theorem injected_corruption_is_found_witness:
  "\<exists>s s' report. os_files s ''log'' = Some (enc_file_header (new_file_header 7) @ enc_frames sample_frames) \<and>
    corrupt_record_byte ''log'' 2 40 s = (Inr (), s') \<and> validate ''log'' s' = (report, s') \<and>
    rr_valid_records report = 1 \<and> rr_corruption_offset report = 108"
proof -
  define s where "s = \<lparr>os_files = [''log'' \<mapsto> enc_file_header (new_file_header 7) @ enc_frames sample_frames],
    os_synced = Map.empty, os_script = [], os_elapsed = [], os_now = 7, os_keep_size = False\<rparr>"
  have on_disk: "os_files s ''log'' = Some (enc_file_header (new_file_header 7) @ enc_frames sample_frames)"
    and calm: "os_script s = []" by (simp_all add: s_def)
  have frames: "sample_frames = [make_frame default_flight_record 1] @ make_frame default_flight_record 2 # []"
    by (simp add: sample_frames_def)
  obtain s' report where "corrupt_record_byte ''log'' 2 40 s = (Inr (), s')" "validate ''log'' s' = (report, s')"
    "rr_valid_records report = 1" "rr_corruption_offset report = 108"
    using injected_corruption_is_found [OF calm on_disk [unfolded frames] new_file_header_ok
      sample_chain [unfolded frames], of 40] by auto
  with on_disk show ?thesis by blast
qed

end
