(* ===== verification/Recovery_Tool.thy ===== *)
theory Recovery_Tool
  imports Recovery Text_Format
begin

text \<open>
  The recovery tool, \<open>recovery_tool.cpp\<close>: its two arguments, the startup recovery it always
  performs, the scan with or without truncation after it, and what it prints.
\<close>

definition recovery_usage :: string where
  "recovery_usage = ''Usage: recovery_tool <log_file> [--truncate]'' @ newline @
     ''Recovered records are those retained in the checkpoint-consistent '' @
     ''valid prefix; an unacknowledged written tail may be discarded.'' @ newline"

definition startup_line :: "startup_recovery_report \<Rightarrow> string" where
  "startup_line report = ''startup_recovery'' @
     '' healthy='' @ show_bool (sr_healthy report) @
     '' log_truncated='' @ show_bool (sr_log_truncated report) @
     '' journal_found='' @ show_bool (sr_journal_found report) @
     '' journal_replayed='' @ show_bool (sr_journal_replayed report) @
     '' journal_cleared='' @ show_bool (sr_journal_cleared report) @
     '' journal_discarded='' @ show_bool (sr_journal_discarded report) @
     '' valid_records='' @ show_nat (sr_valid_records report) @
     '' recovered_records='' @ show_nat (sr_valid_records report) @
     '' last_sequence='' @ show_word (sr_last_sequence report) @
     '' checkpoint_generation='' @ show_word (sr_checkpoint_generation report) @
     '' committed_length='' @ show_word (sr_committed_length report) @ newline @ sr_message report @ newline"

definition recovery_line :: "recovery_report \<Rightarrow> string" where
  "recovery_line report = ''healthy='' @ show_bool (rr_healthy report) @
     '' truncated='' @ show_bool (rr_truncated report) @
     '' valid_records='' @ show_nat (rr_valid_records report) @
     '' valid_bytes='' @ show_nat (rr_valid_bytes report) @
     '' bytes_scanned='' @ show_nat (rr_bytes_scanned report) @
     '' last_sequence='' @ show_word (rr_last_sequence report) @
     '' corruption_detected='' @ show_bool (rr_corruption_detected report) @
     '' first_bad_record_index='' @ show_nat (rr_first_bad_record_index report) @
     '' first_bad_record_sequence='' @ show_word (rr_first_bad_record_sequence report) @
     '' expected_sequence='' @ show_word (rr_expected_sequence report) @ newline @ rr_message report @ newline"

definition recovery_run :: "string \<Rightarrow> bool \<Rightarrow> os \<Rightarrow> tool_run \<times> os" where
  "recovery_run path cut_tail s =
    (case recover_startup_state path s of (startup, s1) \<Rightarrow>
     case recover path cut_tail s1 of (report, s2) \<Rightarrow>
     (\<lparr>tr_code = (if rr_healthy report then 0 else 2),
       tr_stdout = startup_line startup @ recovery_line report, tr_stderr = []\<rparr>, s2))"

text \<open>The arguments after the program's name.\<close>

definition recovery_tool_main :: "string list \<Rightarrow> os \<Rightarrow> tool_run \<times> os" where
  "recovery_tool_main args s = (case args of
     [path] \<Rightarrow> recovery_run path False s
   | [path, option] \<Rightarrow>
       if option \<noteq> ''--truncate'' then (\<lparr>tr_code = 1, tr_stdout = recovery_usage, tr_stderr = []\<rparr>, s)
       else recovery_run path True s
   | _ \<Rightarrow> (\<lparr>tr_code = 1, tr_stdout = recovery_usage, tr_stderr = []\<rparr>, s))"

text \<open>The log loses everything after the committed prefix, also when no truncation was asked for.\<close>

lemma recovery_tool_truncates_anyway:
  assumes s: "os_script s = []" and log: "os_files s path = Some log" and ok: "log_header_ok log"
    and j: "os_files s (journal_path_for_log path) = Some j" "length j = 104"
    and sel: "newest_agreeing (dec_file_header (take 24 log)) (log_frames log) (dec_slots j) slot"
    and n: "n \<le> length (log_frames log)"
    and commits: "slot_commits (dec_file_header (take 24 log)) (take n (log_frames log)) slot"
  shows "\<exists>report. recovery_tool_main [path] s = (report, set_file path (take (24 + 84 * n) log) s) \<and> tr_code report = 0"
proof -
  let ?new = "take (24 + 84 * n) log" and ?s = "set_file path (take (24 + 84 * n) log) s"
  obtain startup where rec: "recover_startup_state path s = (startup, ?s)"
    using recover_startup_ok [OF assms] by blast
  note new = cut_log [OF ok n]
  have s': "os_script ?s = []" "os_files ?s path = Some ?new" using s by simp_all
  from scan_file_ok [OF s' new(3), of False] obtain report metadata entries where
    scan: "scan_file path False ?s = ((report, metadata, entries), ?s)" "reports_prefix ?new report" by auto
  then have "rr_healthy report" using new(4,5) by (simp add: reports_prefix_def)
  then show ?thesis
    by (simp add: recovery_tool_main_def recovery_run_def rec recover_def scan_healthy_prefix_def scan(1))
qed

end
