(* ===== verification/Platform_Info.thy ===== *)
theory Platform_Info
  imports Text_Format
begin

text \<open>
  The platform description, \<open>platform_info.cpp\<close>: the text helpers, the queries of the system on
  Linux and the JSON object built from the answers. What the system answers is a parameter.
\<close>

section \<open>Text\<close>

definition trim_space :: "char \<Rightarrow> bool" where
  "trim_space c = (c = CHR '' '' \<or> of_char c \<in> {9, 13, 10 :: nat})"

text \<open>The end first, then the start; text that is all white space is empty.\<close>

definition trim :: "string \<Rightarrow> string" where
  "trim v = (if list_all trim_space v then []
     else dropWhile trim_space (rev (dropWhile trim_space (rev v))))"

primrec quote_chars :: "string \<Rightarrow> string" where
  "quote_chars [] = []"
| "quote_chars (c # cs) =
    (if c = CHR 0x27 then [CHR 0x27, CHR 0x5C, CHR 0x27, CHR 0x27] else [c]) @ quote_chars cs"

definition shell_quote :: "string \<Rightarrow> string" where
  "shell_quote v = [CHR 0x27] @ quote_chars v @ [CHR 0x27]"

definition escape_char :: "char \<Rightarrow> string" where
  "escape_char c =
    (if c = CHR 0x5C then [CHR 0x5C, CHR 0x5C]
     else if c = CHR 0x22 then [CHR 0x5C, CHR 0x22]
     else if c = CHR 0x0A then [CHR 0x5C, CHR ''n'']
     else if c = CHR 0x0D then [CHR 0x5C, CHR ''r'']
     else if c = CHR 0x09 then [CHR 0x5C, CHR ''t'']
     else if of_char c < (32 :: nat) then ''?'' else [c])"

definition json_escape :: "string \<Rightarrow> string" where
  "json_escape v = concat (map escape_char v)"

section \<open>What the system answers\<close>

record host =
  ho_compiler :: string
  ho_build_type :: string
  ho_source_dir :: string
  ho_uname :: "(string \<times> string \<times> string) option"
  ho_cpuinfo :: "string list"
  ho_statfs_type :: "string \<Rightarrow> u64 option"
  ho_stat_device :: "string \<Rightarrow> (u32 \<times> u32) option"
  ho_popen :: "string \<Rightarrow> (string \<times> int) option"

text \<open>The output of a command that succeeded, trimmed.\<close>

definition run_command :: "host \<Rightarrow> string \<Rightarrow> string" where
  "run_command h command = (case ho_popen h command of None \<Rightarrow> []
     | Some (output, status) \<Rightarrow> if status \<noteq> 0 then [] else trim output)"

definition kernel_name :: "host \<Rightarrow> string" where
  "kernel_name h = (case ho_uname h of None \<Rightarrow> ''unknown''
     | Some (sysname, release, machine) \<Rightarrow> sysname @ '' '' @ release @ '' '' @ machine)"

primrec cpu_line :: "string list \<Rightarrow> string" where
  "cpu_line [] = ''unknown''"
| "cpu_line (line # lines) =
    (if CHR '':'' \<in> set line \<and> (take 10 line = ''model name'' \<or> take 8 line = ''Hardware'')
     then trim (tl (dropWhile (\<lambda>c. c \<noteq> CHR '':'') line)) else cpu_line lines)"

definition cpu_name :: "host \<Rightarrow> string" where
  "cpu_name h = cpu_line (ho_cpuinfo h)"

definition filesystem_name :: "host \<Rightarrow> string \<Rightarrow> string" where
  "filesystem_name h path = (case ho_statfs_type h path of None \<Rightarrow> ''unknown''
     | Some t \<Rightarrow> ''type=0x'' @ show_hex (unat t))"

definition storage_device_name :: "host \<Rightarrow> string \<Rightarrow> string" where
  "storage_device_name h path = (case ho_stat_device h path of None \<Rightarrow> ''unknown''
     | Some (major, minor) \<Rightarrow> show_word major @ '':'' @ show_word minor)"

section \<open>The description\<close>

record platform_info =
  pi_compiler :: string
  pi_build_type :: string
  pi_os_kernel :: string
  pi_cpu :: string
  pi_filesystem :: string
  pi_storage_device :: string
  pi_git_revision :: string
  pi_dirty_worktree :: bool

definition git_command :: "host \<Rightarrow> string \<Rightarrow> string" where
  "git_command h command = ''git -C '' @ shell_quote (ho_source_dir h) @ '' '' @ command"

definition collect_platform_info :: "host \<Rightarrow> string \<Rightarrow> platform_info" where
  "collect_platform_info h path =
    (let revision = run_command h (git_command h ''rev-parse --short HEAD 2>/dev/null'');
         status = run_command h (git_command h ''status --porcelain --untracked-files=normal 2>/dev/null'') in
     \<lparr>pi_compiler = ho_compiler h, pi_build_type = ho_build_type h, pi_os_kernel = kernel_name h,
      pi_cpu = cpu_name h, pi_filesystem = filesystem_name h path,
      pi_storage_device = storage_device_name h path, pi_git_revision = revision,
      pi_dirty_worktree = (revision = [] \<or> status \<noteq> [])\<rparr>)"

definition json_field :: "string \<Rightarrow> string \<Rightarrow> string" where
  "json_field name v = quote @ name @ quote @ '':'' @ quote @ json_escape v @ quote @ '',''"

definition platform_info_json :: "platform_info \<Rightarrow> string" where
  "platform_info_json info = ''{'' @ json_field ''compiler'' (pi_compiler info) @
     json_field ''build_type'' (pi_build_type info) @ json_field ''os_kernel'' (pi_os_kernel info) @
     json_field ''cpu'' (pi_cpu info) @ json_field ''filesystem'' (pi_filesystem info) @
     json_field ''storage_device'' (pi_storage_device info) @ json_field ''git_revision'' (pi_git_revision info) @
     quote @ ''dirty_worktree'' @ quote @ '':'' @ show_bool (pi_dirty_worktree info) @ ''}''"

text \<open>The tool \<open>platform_info\<close>; the arguments after the program's name.\<close>

definition platform_info_main :: "host \<Rightarrow> string list \<Rightarrow> tool_run" where
  "platform_info_main h args =
    (if 1 < length args then
       \<lparr>tr_code = 1, tr_stdout = [], tr_stderr = ''Usage: platform_info [filesystem_path]'' @ newline\<rparr>
     else \<lparr>tr_code = 0, tr_stdout =
       platform_info_json (collect_platform_info h (if args = [] then ''.'' else hd args)) @ newline, tr_stderr = []\<rparr>)"

section \<open>Reading it back\<close>

text \<open>How a POSIX shell reads the rest of a word, outside and inside single quotes.\<close>

fun shell_word :: "bool \<Rightarrow> string \<Rightarrow> string \<times> string" where
  "shell_word quoted [] = ([], [])"
| "shell_word True (c # cs) =
    (if c = CHR 0x27 then shell_word False cs else case shell_word True cs of (w, rest) \<Rightarrow> (c # w, rest))"
| "shell_word False (c # cs) =
    (if c = CHR 0x27 then shell_word True cs
     else if c = CHR '' '' then ([], c # cs)
     else if c = CHR 0x5C then (case cs of [] \<Rightarrow> ([], []) | d # ds \<Rightarrow>
       (case shell_word False ds of (w, rest) \<Rightarrow> (d # w, rest)))
     else case shell_word False cs of (w, rest) \<Rightarrow> (c # w, rest))"

text \<open>How JSON reads a string up to its closing quote; \<open>None\<close> for what JSON does not allow.\<close>

fun json_string :: "string \<Rightarrow> (string \<times> string) option" where
  "json_string [] = None"
| "json_string (c # cs) =
    (if c = CHR 0x22 then Some ([], cs)
     else if of_char c < (32 :: nat) then None
     else if c = CHR 0x5C then (case cs of [] \<Rightarrow> None | d # ds \<Rightarrow>
       (case (if d = CHR 0x5C \<or> d = CHR 0x22 then Some d else if d = CHR ''n'' then Some (CHR 0x0A)
          else if d = CHR ''r'' then Some (CHR 0x0D) else if d = CHR ''t'' then Some (CHR 0x09) else None) of
         None \<Rightarrow> None | Some e \<Rightarrow> map_option (\<lambda>(v, rest). (e # v, rest)) (json_string ds)))
     else map_option (\<lambda>(v, rest). (c # v, rest)) (json_string cs))"

definition printable :: "char \<Rightarrow> char" where
  "printable c = (if of_char c < (32 :: nat) \<and> c \<notin> {CHR 0x0A, CHR 0x0D, CHR 0x09} then CHR ''?'' else c)"

lemma shell_word_quoted:
  "shell_word True (quote_chars v @ CHR 0x27 # CHR '' '' # rest) = (v, CHR '' '' # rest)"
  by (induction v) auto

lemma json_string_escaped:
  "json_string (json_escape v @ quote @ rest) = Some (map printable v, rest)"
  by (induction v) (auto simp: json_escape_def escape_char_def printable_def quote_def)

section \<open>Properties\<close>


end
