(* ===== verification/Calm_Faults.thy ===== *)
theory Calm_Faults
  imports Durability
begin

text \<open>
  What each armed fault of the writer leaves behind when the system itself does not fail: the exact
  files, and where the process ends. The crash matrix runs these.
\<close>

section \<open>The exact files\<close>

text \<open>No failure is to come, the clock is the same, and the files are \<open>files\<close>.\<close>

definition calm_to :: "os \<Rightarrow> (string \<Rightarrow> bytes option) \<Rightarrow> os \<Rightarrow> bool" where
  "calm_to s files s' \<longleftrightarrow> os_script s' = [] \<and> os_now s' = os_now s \<and> os_files s' = files"

lemma calm_to_trans: "calm_to s f s1 \<Longrightarrow> calm_to s1 g s2 \<Longrightarrow> calm_to s g s2"
  by (simp add: calm_to_def)

lemma write_at_full_exact:
  assumes "os_script s = []" and "data \<noteq> []" and "os_files s p = Some b"
  shows "\<exists>w' s'. write_at_full p data off c w s = (True, w', s') \<and> stats_only w w' \<and>
    calm_to s ((os_files s)(p \<mapsto> overwrite b off data)) s'"
proof -
  from write_at_full_calm [OF assms(1,2), of p off c w] obtain w' s' where
    "write_at_full p data off c w s = (True, w', s')" "os_script s' = []" "stats_only w w'"
    "same_disk (set_file p (overwrite b off data) s) s'"
    by (auto simp: file_bytes_some [OF assms(3)])
  then show ?thesis using same_disk_set by (auto simp: calm_to_def)
qed

lemma sync_main_exact:
  assumes "os_script s = []"
  shows "\<exists>w' s'. sync_main_file w s = (True, w', s') \<and> stats_only w w' \<and> calm_to s (os_files s) s'"
  using sync_main_calm [OF assms, of w] by (auto simp: synced_disk_def calm_to_def)

lemma truncate_exact:
  "os_script s = [] \<Longrightarrow> os_files s p = Some c \<Longrightarrow> length c = n \<Longrightarrow> truncate_file p n s = (True, s)"
  by (auto simp: os_simps file_bytes_some set_file_def fun_upd_idem)

lemma sync_file_exact: "os_script s = [] \<Longrightarrow> \<exists>s'. sync_file p s = (True, s') \<and> calm_to s (os_files s) s'"
  by (simp add: os_simps calm_to_def)

section \<open>The batch in the file\<close>

lemma write_batch_exact:
  assumes disk: "writer_disk w (os_files s) h fs n" and s: "os_script s = []" and ne: "records \<noteq> []"
    and chain: "chain_ok None (fs @ batch_frames records)" and len: "24 + 84 * (length fs + length records) < 2 ^ 64"
    and fault: "fault_armed records w \<Longrightarrow>
      fc_mode (w_fault_config w) \<notin> {CrashBeforeMainLogWrite, CrashDuringMainLogWrite}"
  shows "\<exists>w1 s1. write_batch records w s = after_batch (fault_armed records w) w1 s1 \<and>
    calm_to s ((os_files s)(w_path w \<mapsto> enc_file_header h @ enc_frames (fs @ batch_frames records))) s1 \<and>
    writer_disk w1 (os_files s1) h (fs @ batch_frames records) n \<and> same_session w w1 \<and>
    w_unsynced_batches w1 = w_unsynced_batches w + 1 \<and> w_pending_commit_fault w1 = w_pending_commit_fault w \<and>
    w_active_checkpoint_slot w1 = w_active_checkpoint_slot w"
proof -
  from disk have log: "os_files s (w_path w) = Some (enc_file_header h @ enc_frames fs)" and at: "writer_at w h fs"
    by (simp_all add: writer_disk_def)
  obtain st e where pre: "ensure_preallocated (length records * kPersistedRecordSize) w s =
      (True, w\<lparr>w_stats := st, w_preallocated_end := e\<rparr>, s)"
    using ensure_preallocated_calm [OF s] by blast
  let ?w1 = "w\<lparr>w_stats := st, w_preallocated_end := e\<rparr>" and ?p = "w_path w"
  have "serialize_batch records \<noteq> []"
  proof -
    have "length (serialize_batch records) \<noteq> 0" using ne by (simp add: serialize_batch_def)
    then show ?thesis by auto
  qed
  from write_at_full_exact [OF s this log, of "w_logical_end w" True ?w1] obtain w2 s2 where
    wr: "write_at_full ?p (serialize_batch records) (w_logical_end w) True ?w1 s = (True, w2, s2)"
      "stats_only ?w1 w2" "calm_to s ((os_files s)(?p \<mapsto> overwrite (enc_file_header h @ enc_frames fs) (w_logical_end w)
        (serialize_batch records))) s2"
    by blast
  have "overwrite (enc_file_header h @ enc_frames fs) (w_logical_end w) (serialize_batch records) =
      enc_file_header h @ enc_frames (fs @ batch_frames records)"
    using at overwrite_end [of "w_logical_end w" "enc_file_header h @ enc_frames fs"]
    by (simp add: writer_at_def codec_simps serialize_batch_def)
  with wr(3) have c: "calm_to s ((os_files s)(?p \<mapsto> enc_file_header h @ enc_frames (fs @ batch_frames records))) s2"
    by simp
  have st: "stats_only ?w1 w2" by (rule wr(2))
  note f = stats_only_fields [OF st, simplified]
  have cur: "same_cursors w w2" using f by (simp add: same_cursors_def)
  then have d2: "writer_disk w2 (os_files s) h fs n" using disk same_cursors_disk by blast
  have paths: "?p \<noteq> w_journal_path w" using at by (auto simp: writer_at_def)
  have "writer_disk (batch_written records w2) (os_files s2) h (fs @ batch_frames records) n"
    by (rule batch_written_disk [OF d2 chain len ne]) (use c f paths in \<open>simp_all add: calm_to_def\<close>)
  moreover have "same_session w (batch_written records w2)"
    using f batch_written_session [of w2 records] by (simp add: same_session_def)
  moreover have "write_batch records w s = after_batch (fault_armed records w) (batch_written records w2) s2"
    using fault pre wr(1) by (auto simp: write_batch_def Let_def simp del: kPersistedRecordSize_def)
  moreover have "w_unsynced_batches (batch_written records w2) = w_unsynced_batches w + 1"
    "w_pending_commit_fault (batch_written records w2) = w_pending_commit_fault w"
    "w_active_checkpoint_slot (batch_written records w2) = w_active_checkpoint_slot w"
    using f by (simp_all add: batch_written_def bump_stats_def)
  ultimately show ?thesis using c by blast
qed

lemma write_batch_cut:
  assumes disk: "writer_disk w (os_files s) h fs n" and s: "os_script s = []" and ne: "records \<noteq> []"
    and armed: "fault_armed records w" "fc_mode (w_fault_config w) = CrashDuringMainLogWrite"
    and cut: "0 < fc_partial_write_bytes (w_fault_config w)"
  defines "k \<equiv> min (84 * length records - 1) (fc_partial_write_bytes (w_fault_config w))"
  shows "\<exists>w' s'. write_batch records w s = (Exits 92, w', s') \<and>
    calm_to s ((os_files s)(w_path w \<mapsto> enc_file_header h @ enc_frames fs @ take k (enc_frames (batch_frames records)))) s'"
proof -
  from disk have log: "os_files s (w_path w) = Some (enc_file_header h @ enc_frames fs)" and at: "writer_at w h fs"
    by (simp_all add: writer_disk_def)
  obtain st e where pre: "ensure_preallocated (length records * kPersistedRecordSize) w s =
      (True, w\<lparr>w_stats := st, w_preallocated_end := e\<rparr>, s)"
    using ensure_preallocated_calm [OF s] by blast
  let ?w1 = "w\<lparr>w_stats := st, w_preallocated_end := e, w_fault_injected := True\<rparr>" and ?p = "w_path w"
  have k: "0 < k" "k < 84 * length records" using cut ne by (auto simp: k_def neq_Nil_conv)
  have "length (take k (serialize_batch records)) = k" using k(2) by (simp add: serialize_batch_def)
  then have "take k (serialize_batch records) \<noteq> []" using k(1) by auto
  from write_at_full_exact [OF s this log, of "w_logical_end w" True ?w1] obtain w2 s2 where
    wr: "write_at_full ?p (take k (serialize_batch records)) (w_logical_end w) True ?w1 s = (True, w2, s2)"
      "calm_to s ((os_files s)(?p \<mapsto> overwrite (enc_file_header h @ enc_frames fs) (w_logical_end w)
        (take k (serialize_batch records)))) s2"
    by blast
  have "overwrite (enc_file_header h @ enc_frames fs) (w_logical_end w) (take k (serialize_batch records)) =
      enc_file_header h @ enc_frames fs @ take k (enc_frames (batch_frames records))"
    using at overwrite_end [of "w_logical_end w" "enc_file_header h @ enc_frames fs"]
    by (simp add: writer_at_def codec_simps serialize_batch_def)
  with wr(2) have c: "calm_to s ((os_files s)(?p \<mapsto>
      enc_file_header h @ enc_frames fs @ take k (enc_frames (batch_frames records)))) s2" by simp
  from sync_main_exact [of s2 w2] c obtain w3 s3 where sy: "sync_main_file w2 s2 = (True, w3, s3)" "calm_to s2 (os_files s2) s3"
    by (auto simp: calm_to_def)
  have "write_batch records w s = (Exits 92, w3, s3)"
    using armed pre wr(1) sy(1) cut by (simp add: write_batch_def Let_def k_def mult.commute)
  moreover have "calm_to s ((os_files s)(?p \<mapsto>
      enc_file_header h @ enc_frames fs @ take k (enc_frames (batch_frames records)))) s3"
    using c sy(2) by (simp add: calm_to_def)
  ultimately show ?thesis by blast
qed

section \<open>Flushing\<close>

text \<open>The journal with the next slot in place.\<close>

definition next_journal :: "writer \<Rightarrow> bytes \<Rightarrow> bytes" where
  "next_journal w j = overwrite j (next_slot_index w * 52) (enc_checkpoint_slot (next_slot w))"

lemma next_journal_length: "length j = 104 \<Longrightarrow> length (next_journal w j) = 104"
  by (simp add: next_journal_def length_overwrite codec_simps next_slot_index_def)

lemma stats_only_slot: "stats_only w w' \<Longrightarrow> next_slot w' = next_slot w \<and> next_slot_index w' = next_slot_index w"
  by (simp add: next_slot_def next_slot_index_def stats_only_fields)

lemma commit_exact:
  assumes s: "os_script s = []" and j: "os_files s (w_journal_path w) = Some j" "length j = 104"
    and g: "w_checkpoint_generation w \<noteq> - 1" and f: "w_pending_commit_fault w \<in> {NoFault, CrashAfterJournalSync}"
  shows "\<exists>w' s'. commit_checkpoint w s = (Returns True, w', s') \<and> committed_writer w w' \<and>
    calm_to s ((os_files s)(w_journal_path w \<mapsto> next_journal w j)) s'"
proof -
  let ?jp = "w_journal_path w" and ?e = "enc_checkpoint_slot (next_slot w)"
  have "?e \<noteq> []" using ckc.enc_length [of "next_slot w"] by auto
  from write_at_full_exact [OF s this j(1), of "next_slot_index w * 52" False w] obtain w1 s1 where
    wr: "write_at_full ?jp ?e (next_slot_index w * 52) False w s = (True, w1, s1)" "stats_only w w1"
      "calm_to s ((os_files s)(?jp \<mapsto> next_journal w j)) s1"
    unfolding next_journal_def by blast
  have s1: "os_script s1 = []" "os_files s1 ?jp = Some (next_journal w j)" using wr(3) by (simp_all add: calm_to_def)
  note tr = truncate_exact [OF s1 next_journal_length [OF j(2)]]
  from sync_file_exact [OF s1(1), of ?jp] obtain s2 where sy: "sync_file ?jp s1 = (True, s2)" "calm_to s1 (os_files s1) s2"
    by blast
  have c: "calm_to s ((os_files s)(?jp \<mapsto> next_journal w j)) s2" using wr(3) sy(2) by (simp add: calm_to_def)
  have "\<exists>w'. commit_checkpoint w s = (Returns True, w', s2)"
    using f g wr(1) tr sy(1) stats_only_fields [OF wr(2)] by (auto simp: commit_checkpoint_def Let_def)
  then obtain w' where r: "commit_checkpoint w s = (Returns True, w', s2)" by blast
  have "committed_writer w w'"
    using r f g wr(1) tr sy(1) stats_only_fields [OF wr(2)] wr(2)
    by (cases w1) (auto simp: commit_checkpoint_def Let_def committed_writer_def stats_only_def bump_stats_def next_slot_def)
  then show ?thesis using r c by blast
qed

lemma flush_exact:
  assumes s: "os_script s = []" and w: "w_fd_open w" "\<not> w_failed w" "w_unsynced_batches w \<noteq> 0"
    and j: "os_files s (w_journal_path w) = Some j" "length j = 104"
    and g: "w_checkpoint_generation w \<noteq> - 1" and f: "w_pending_commit_fault w = NoFault"
  shows "\<exists>w' s'. flush w s = (Returns True, w', s') \<and> w_active_checkpoint_slot w' = next_slot_index w \<and>
    calm_to s ((os_files s)(w_journal_path w \<mapsto> next_journal w j)) s'"
proof -
  from sync_main_exact [OF s, of w] obtain w1 s1 where
    sy: "sync_main_file w s = (True, w1, s1)" "stats_only w w1" "calm_to s (os_files s) s1" by blast
  note f1 = stats_only_fields [OF sy(2)]
  have s1: "os_script s1 = []" "os_files s1 = os_files s" using sy(3) by (simp_all add: calm_to_def)
  from commit_exact [OF s1(1), of w1 j] s1(2) f1 j g f obtain w2 s2 where
    cm: "commit_checkpoint w1 s1 = (Returns True, w2, s2)" "committed_writer w1 w2"
      "calm_to s1 ((os_files s)(w_journal_path w \<mapsto> next_journal w1 j)) s2" by auto
  note f2 = stats_only_fields [OF cm(2) [unfolded committed_writer_def], simplified]
  have "next_journal w1 j = next_journal w j" "next_slot_index w1 = next_slot_index w"
    using stats_only_slot [OF sy(2)] by (simp_all add: next_journal_def)
  then show ?thesis
    using w f sy cm f1 f2 calm_to_trans [OF sy(3) cm(3)] by (auto simp: flush_def)
qed

lemma flush_before_checkpoint:
  assumes s: "os_script s = []" and w: "w_fd_open w" "\<not> w_failed w" "w_unsynced_batches w \<noteq> 0"
    and g: "w_checkpoint_generation w \<noteq> - 1" and f: "w_pending_commit_fault w = CrashAfterMainLogSync"
  shows "\<exists>w' s'. flush w s = (Exits 85, w', s') \<and> calm_to s (os_files s) s'"
proof -
  from sync_main_exact [OF s, of w] obtain w1 s1 where
    sy: "sync_main_file w s = (True, w1, s1)" "stats_only w w1" "calm_to s (os_files s) s1" by blast
  note f1 = stats_only_fields [OF sy(2)]
  show ?thesis using w g f f1 sy by (auto simp: flush_def commit_checkpoint_def)
qed

lemma flush_torn_checkpoint:
  assumes s: "os_script s = []" and w: "w_fd_open w" "\<not> w_failed w" "w_unsynced_batches w \<noteq> 0"
    and j: "os_files s (w_journal_path w) = Some j"
    and g: "w_checkpoint_generation w \<noteq> - 1" and f: "w_pending_commit_fault w = CrashDuringCheckpointWrite"
    and cut: "0 < fc_partial_write_bytes (w_fault_config w)" "fc_partial_write_bytes (w_fault_config w) < 52"
  shows "\<exists>w' s'. flush w s = (Exits 87, w', s') \<and>
    (\<exists>s1. os_files s1 = os_files s \<and> commit_disk (fc_partial_write_bytes (w_fault_config w)) w j s1 s') \<and>
    calm_to s ((os_files s)(w_journal_path w \<mapsto> overwrite j (next_slot_index w * 52)
      (take (fc_partial_write_bytes (w_fault_config w)) (enc_checkpoint_slot (next_slot w))))) s'"
proof -
  let ?k = "fc_partial_write_bytes (w_fault_config w)"
  from sync_main_exact [OF s, of w] obtain w1 s1 where
    sy: "sync_main_file w s = (True, w1, s1)" "stats_only w w1" "calm_to s (os_files s) s1" by blast
  note f1 = stats_only_fields [OF sy(2)]
  have s1: "os_script s1 = []" "os_files s1 = os_files s" "os_now s1 = os_now s" using sy(3) by (simp_all add: calm_to_def)
  let ?e = "take ?k (enc_checkpoint_slot (next_slot w))"
  let ?s2 = "set_file (w_journal_path w) (overwrite j (next_slot_index w * 52) ?e) s1"
  have k: "min 51 ?k = ?k" using cut by simp
  have "flush w s = (Exits 87, w1, ?s2)"
    using w g f f1 sy s1 j cut stats_only_slot [OF sy(2)]
    by (simp add: flush_def commit_checkpoint_def Let_def pwrite_nil file_bytes_some k)
  moreover have "commit_disk ?k w j s1 ?s2" using s1 cut by (simp add: commit_disk_def)
  moreover have "calm_to s ((os_files s)(w_journal_path w \<mapsto> overwrite j (next_slot_index w * 52) ?e)) ?s2"
    using s1 by (simp add: calm_to_def)
  ultimately show ?thesis using s1(2) by blast
qed

lemma acknowledge_exact:
  assumes "os_script s = []" and "os_files s a = Some b" and "length b = 8"
  shows "\<exists>s'. acknowledge a q s = (90, s') \<and> calm_to s ((os_files s)(a \<mapsto> le 8 q)) s'"
  using assms by (simp add: acknowledge_def os_simps file_bytes_some calm_to_def overwrite_start)

lemma flush_acknowledged:
  assumes s: "os_script s = []" and w: "w_fd_open w" "\<not> w_failed w" "w_unsynced_batches w \<noteq> 0"
    and j: "os_files s (w_journal_path w) = Some j" "length j = 104"
    and g: "w_checkpoint_generation w \<noteq> - 1" and f: "w_pending_commit_fault w = CrashAfterJournalSync"
    and a: "fc_acknowledgement_fd (w_fault_config w) = Some a" "a \<noteq> w_journal_path w"
      "os_files s a = Some b" "length b = 8"
  shows "\<exists>w' s'. flush w s = (Exits 90, w', s') \<and>
    calm_to s ((os_files s)(w_journal_path w \<mapsto> next_journal w j, a \<mapsto> le 8 (w_last_written_sequence w))) s'"
proof -
  from sync_main_exact [OF s, of w] obtain w1 s1 where
    sy: "sync_main_file w s = (True, w1, s1)" "stats_only w w1" "calm_to s (os_files s) s1" by blast
  note f1 = stats_only_fields [OF sy(2)]
  have s1: "os_script s1 = []" "os_files s1 = os_files s" using sy(3) by (simp_all add: calm_to_def)
  from commit_exact [OF s1(1), of w1 j] s1(2) f1 j g f obtain w2 s2 where
    cm: "commit_checkpoint w1 s1 = (Returns True, w2, s2)" "committed_writer w1 w2"
      "calm_to s1 ((os_files s)(w_journal_path w \<mapsto> next_journal w1 j)) s2" by auto
  note f2 = stats_only_fields [OF cm(2) [unfolded committed_writer_def], simplified]
  have nj: "next_journal w1 j = next_journal w j" using stats_only_slot [OF sy(2)] by (simp add: next_journal_def)
  have s2: "os_script s2 = []" "os_files s2 a = Some b" using cm(3) a by (simp_all add: calm_to_def)
  from acknowledge_exact [OF s2 a(4), of "w_last_written_sequence w2"] obtain s3 where
    ak: "acknowledge a (w_last_written_sequence w2) s2 = (90, s3)"
      "calm_to s2 ((os_files s2)(a \<mapsto> le 8 (w_last_written_sequence w2))) s3" by blast
  have "flush w s = (Exits 90, w2, s3)"
    using w f a(1) sy(1) cm(1) f1 f2 ak(1) by (simp add: flush_def)
  moreover have "calm_to s ((os_files s)(w_journal_path w \<mapsto> next_journal w j, a \<mapsto> le 8 (w_last_written_sequence w))) s3"
    using sy(3) cm(3) ak(2) f1 f2 nj by (simp add: calm_to_def)
  ultimately show ?thesis by blast
qed

section \<open>Appending to an open log\<close>

lemma append_open:
  assumes disk: "writer_disk w files h fs n" and op: "w_fd_open w"
    and rec: "records \<noteq> []" "length records \<le> wo_batch_capacity_records (w_options w)" "consecutive records"
    and next_seq: "fs \<noteq> [] \<Longrightarrow> sq_sequence (hd records) = seq_or_0 fs + 1"
  shows "append_batch records w s = write_batch records w s"
proof -
  have at: "writer_at w h fs" and len: "24 + 84 * length fs < 2 ^ 64" using disk by (simp_all add: writer_disk_def)
  have "w_file_record_count w \<noteq> 0 \<longleftrightarrow> fs \<noteq> []"
  proof -
    have "unat (w_file_record_count w) = length fs" using at len by (simp add: writer_at_def unat_of_nat_len)
    then show ?thesis by (metis length_0_conv unat_eq_zero)
  qed
  then show ?thesis using rec op next_seq at by (auto simp: append_batch_def open_writer_def writer_at_def)
qed

text \<open>A writer right after it was opened, and a batch it accepts and commits at once.\<close>

definition ready :: "sequenced_record list \<Rightarrow> writer \<Rightarrow> os \<Rightarrow> persisted_file_header \<Rightarrow> log_frame list \<Rightarrow> bytes \<Rightarrow> bool" where
  "ready records w s h fs j \<longleftrightarrow> writer_disk w (os_files s) h fs (length fs) \<and> os_script s = [] \<and>
     w_fd_open w \<and> \<not> w_failed w \<and> w_unsynced_batches w = 0 \<and> \<not> w_fault_injected w \<and>
     w_pending_commit_fault w = NoFault \<and> wo_sync_every_batches (w_options w) = 1 \<and>
     w_checkpoint_generation w \<noteq> - 1 \<and> os_files s (w_journal_path w) = Some j \<and>
     records \<noteq> [] \<and> length records \<le> wo_batch_capacity_records (w_options w) \<and> consecutive records \<and>
     (fs \<noteq> [] \<longrightarrow> sq_sequence (hd records) = seq_or_0 fs + 1) \<and>
     chain_ok None (fs @ batch_frames records) \<and> 24 + 84 * (length fs + length records) < 2 ^ 64"

lemma ready_journal: "ready records w s h fs j \<Longrightarrow> length j = 104 \<and> w_active_checkpoint_slot w < 2"
  by (auto simp: ready_def writer_disk_def journal_at_def)

text \<open>The log with the batch, and the writer that is about to commit it.\<close>

lemma ready_written:
  assumes r: "ready records w s h fs j"
    and fault: "fault_armed records w \<Longrightarrow>
      fc_mode (w_fault_config w) \<notin> {CrashBeforeMainLogWrite, CrashDuringMainLogWrite}"
  obtains w1 s1 where "append_batch records w s = after_batch (fault_armed records w) w1 s1"
    and "calm_to s ((os_files s)(w_path w \<mapsto> enc_file_header h @ enc_frames (fs @ batch_frames records))) s1"
    and "writer_disk w1 (os_files s1) h (fs @ batch_frames records) (length fs)"
    and "same_session w w1" and "w_unsynced_batches w1 = 1" and "w_pending_commit_fault w1 = NoFault"
    and "w_active_checkpoint_slot w1 = w_active_checkpoint_slot w"
    and "os_files s1 (w_journal_path w1) = Some j"
proof -
  from r have disk: "writer_disk w (os_files s) h fs (length fs)" and s: "os_script s = []" by (simp_all add: ready_def)
  have paths: "w_path w \<noteq> w_journal_path w" using disk by (auto simp: writer_disk_def writer_at_def)
  from write_batch_exact [OF disk s _ _ _ fault, of records] r obtain w1 s1 where
    w: "write_batch records w s = after_batch (fault_armed records w) w1 s1"
    "calm_to s ((os_files s)(w_path w \<mapsto> enc_file_header h @ enc_frames (fs @ batch_frames records))) s1"
    "writer_disk w1 (os_files s1) h (fs @ batch_frames records) (length fs)" "same_session w w1"
    "w_unsynced_batches w1 = w_unsynced_batches w + 1" "w_pending_commit_fault w1 = w_pending_commit_fault w"
    "w_active_checkpoint_slot w1 = w_active_checkpoint_slot w"
    unfolding ready_def by blast
  moreover have "append_batch records w s = write_batch records w s"
    using r by (intro append_open [OF disk]) (simp_all add: ready_def)
  moreover have "os_files s1 (w_journal_path w1) = Some j"
    using w(2,4) r paths by (simp add: calm_to_def same_session_def ready_def)
  ultimately show ?thesis using r by (intro that [of w1 s1]) (simp_all add: ready_def)
qed

text \<open>The slot of a commit, and where it goes.\<close>

definition commit_slot :: "persisted_file_header \<Rightarrow> u64 \<Rightarrow> log_frame list \<Rightarrow> persisted_checkpoint_slot" where
  "commit_slot h g fs = make_slot g (fh_recorder_start_time_us h) (word_of_nat (24 + 84 * length fs))
     (word_of_nat (length fs)) (seq_or_0 fs)"

definition put_slot :: "nat \<Rightarrow> persisted_checkpoint_slot \<Rightarrow> bytes \<Rightarrow> bytes" where
  "put_slot i slot j = overwrite j (i * 52) (enc_checkpoint_slot slot)"

lemma next_slot_is:
  "writer_disk w files h fs n \<Longrightarrow> next_slot w = commit_slot h (w_checkpoint_generation w + 1) fs"
  by (simp add: next_slot_def commit_slot_def writer_disk_def writer_at_def)

lemma next_journal_is:
  assumes "writer_disk w1 files h fs n" and "same_session w w1" and "w_active_checkpoint_slot w1 = w_active_checkpoint_slot w"
  shows "next_journal w1 j = put_slot (next_slot_index w) (commit_slot h (w_checkpoint_generation w + 1) fs) j"
  using next_slot_is [OF assms(1)] assms(2,3)
  by (simp add: next_journal_def put_slot_def next_slot_index_def same_session_def)

lemma append_exact:
  assumes r: "ready records w s h fs j" and calm: "\<not> fault_armed records w"
  shows "\<exists>w' s'. append_batch records w s = (Returns True, w', s') \<and>
    w_active_checkpoint_slot w' = next_slot_index w \<and>
    calm_to s ((os_files s)(w_path w \<mapsto> enc_file_header h @ enc_frames (fs @ batch_frames records),
      w_journal_path w \<mapsto> put_slot (next_slot_index w)
        (commit_slot h (w_checkpoint_generation w + 1) (fs @ batch_frames records)) j)) s'"
proof -
  obtain w1 s1 where w: "append_batch records w s = after_batch (fault_armed records w) w1 s1"
    "calm_to s ((os_files s)(w_path w \<mapsto> enc_file_header h @ enc_frames (fs @ batch_frames records))) s1"
    "writer_disk w1 (os_files s1) h (fs @ batch_frames records) (length fs)"
    "same_session w w1" "w_unsynced_batches w1 = 1" "w_pending_commit_fault w1 = NoFault"
    "w_active_checkpoint_slot w1 = w_active_checkpoint_slot w" "os_files s1 (w_journal_path w1) = Some j"
    using ready_written [OF r] calm by metis
  have f: "w_fd_open w1" "\<not> w_failed w1" "w_unsynced_batches w1 \<noteq> 0" "w_checkpoint_generation w1 \<noteq> - 1"
    "wo_sync_every_batches (w_options w1) = 1" "w_journal_path w1 = w_journal_path w"
    using r w(4,5) by (simp_all add: ready_def same_session_def)
  have s1: "os_script s1 = []" using w(2) by (simp add: calm_to_def)
  from flush_exact [OF s1 f(1-3) w(8) _ f(4) w(6)] ready_journal [OF r] obtain w' s' where
    fl: "flush w1 s1 = (Returns True, w', s')" "w_active_checkpoint_slot w' = next_slot_index w1"
      "calm_to s1 ((os_files s1)(w_journal_path w1 \<mapsto> next_journal w1 j)) s'" by blast
  have "append_batch records w s = (Returns True, w', s')"
    using w(1,5) calm f(5) fl(1) by (simp add: after_batch_def Let_def)
  moreover have "w_active_checkpoint_slot w' = next_slot_index w" using fl(2) w(7) by (simp add: next_slot_index_def)
  moreover note next_journal_is [OF w(3,4,7), of j]
  ultimately show ?thesis using w(2) fl(3) f(6) by (simp add: calm_to_def)
qed

section \<open>Where a process ends at an armed fault\<close>

text \<open>Nothing but the log and its journal is touched.\<close>

definition leaves :: "writer \<Rightarrow> os \<Rightarrow> os \<Rightarrow> bool" where
  "leaves w s s' \<longleftrightarrow> os_script s' = [] \<and> os_now s' = os_now s \<and>
     (\<forall>q. q \<noteq> w_path w \<longrightarrow> q \<noteq> w_journal_path w \<longrightarrow> os_files s' q = os_files s q)"

text \<open>The process ends with \<open>code\<close>, and recovery brings back what had been committed before.\<close>

definition crash_keeps :: "nat \<Rightarrow> sequenced_record list \<Rightarrow> writer \<Rightarrow> os \<Rightarrow> persisted_file_header \<Rightarrow> log_frame list \<Rightarrow> bool" where
  "crash_keeps code records w s h fs \<longleftrightarrow> (\<exists>w' s'. append_batch records w s = (Exits code, w', s') \<and>
     leaves w s s' \<and> restores (w_path w) s' h fs)"

lemma crash_before_write:
  assumes r: "ready records w s h fs j" and armed: "fault_armed records w"
    and mode: "fc_mode (w_fault_config w) = CrashBeforeMainLogWrite"
  shows "crash_keeps 81 records w s h fs"
proof -
  have disk: "writer_disk w (os_files s) h fs (length fs)" using r by (simp add: ready_def)
  have "append_batch records w s = write_batch records w s"
    using r by (intro append_open [OF disk]) (simp_all add: ready_def)
  then have "append_batch records w s = (Exits 81, w\<lparr>w_fault_injected := True\<rparr>, s)"
    using armed mode by (simp add: write_batch_def Let_def)
  moreover have "restores (w_path w) s h (take (length fs) fs)"
    by (rule writer_disk_restores [OF disk, of "[]" s 0]) (use disk in \<open>simp_all add: writer_disk_def\<close>)
  ultimately show ?thesis using r by (simp add: crash_keeps_def leaves_def ready_def)
qed

lemma crash_during_write:
  assumes r: "ready records w s h fs j" and armed: "fault_armed records w"
    and mode: "fc_mode (w_fault_config w) = CrashDuringMainLogWrite" and cut: "0 < fc_partial_write_bytes (w_fault_config w)"
  shows "crash_keeps 92 records w s h fs"
proof -
  have disk: "writer_disk w (os_files s) h fs (length fs)" and s: "os_script s = []" and ne: "records \<noteq> []"
    and chain: "chain_ok None (fs @ batch_frames records)"
    using r by (simp_all add: ready_def)
  have paths: "w_path w \<noteq> w_journal_path w" using disk by (auto simp: writer_disk_def writer_at_def)
  have "append_batch records w s = write_batch records w s"
    using r by (intro append_open [OF disk]) (simp_all add: ready_def)
  with write_batch_cut [OF disk s ne armed mode cut] obtain w' s' k where
    c: "append_batch records w s = (Exits 92, w', s')"
      "calm_to s ((os_files s)(w_path w \<mapsto> enc_file_header h @ enc_frames fs @ take k (enc_frames (batch_frames records)))) s'"
    by auto
  have "restores (w_path w) s' h (take (length fs) fs)"
    by (rule writer_disk_restores [OF disk chain, of s' k]) (use c(2) paths in \<open>simp_all add: calm_to_def\<close>)
  with c show ?thesis by (auto simp: crash_keeps_def leaves_def calm_to_def)
qed

text \<open>The log complete, the commit not done: recovery cuts the batch off again.\<close>

lemma log_written_restores:
  assumes disk: "writer_disk w1 (os_files s1) h (fs @ bs) (length fs)" and same: "os_files s' = os_files s1"
  shows "restores (w_path w1) s' h fs"
proof -
  have "restores (w_path w1) s' h (take (length fs) (fs @ bs))"
    by (rule writer_disk_restores [OF disk, of "[]" s' 0]) (use disk same in \<open>simp_all add: writer_disk_def\<close>)
  then show ?thesis by simp
qed

lemma crash_after_write:
  assumes r: "ready records w s h fs j" and armed: "fault_armed records w"
    and mode: "fc_mode (w_fault_config w) = CrashAfterMainLogWrite"
  shows "crash_keeps 83 records w s h fs"
proof -
  obtain w1 s1 where w: "append_batch records w s = after_batch (fault_armed records w) w1 s1"
    "calm_to s ((os_files s)(w_path w \<mapsto> enc_file_header h @ enc_frames (fs @ batch_frames records))) s1"
    "writer_disk w1 (os_files s1) h (fs @ batch_frames records) (length fs)" "same_session w w1"
    using ready_written [OF r] mode by simp blast
  have "append_batch records w s = (Exits 83, w1\<lparr>w_fault_injected := True\<rparr>, s1)"
    using w(1,4) armed mode by (simp add: after_batch_def same_session_def)
  then show ?thesis
    using log_written_restores [OF w(3) refl] w(2,4) by (auto simp: crash_keeps_def leaves_def calm_to_def same_session_def)
qed

text \<open>A fault of the commit: the batch is in the log, and the writer starts to flush.\<close>

lemma armed_flush:
  assumes r: "ready records w s h fs j" and armed: "fault_armed records w" and mode: "fc_mode (w_fault_config w) = m"
    and m: "m \<notin> {CrashBeforeMainLogWrite, CrashDuringMainLogWrite, CrashAfterMainLogWrite, DropCommit}"
  obtains w1 s1 where "append_batch records w s = flush w1 s1"
    and "calm_to s ((os_files s)(w_path w \<mapsto> enc_file_header h @ enc_frames (fs @ batch_frames records))) s1"
    and "writer_disk w1 (os_files s1) h (fs @ batch_frames records) (length fs)" and "same_session w w1"
    and "w_unsynced_batches w1 = 1" and "w_pending_commit_fault w1 = m" and "os_script s1 = []"
    and "w_active_checkpoint_slot w1 = w_active_checkpoint_slot w" and "os_files s1 (w_journal_path w1) = Some j"
    and "w_fd_open w1" and "\<not> w_failed w1" and "w_checkpoint_generation w1 \<noteq> - 1"
proof -
  obtain w1 s1 where w: "append_batch records w s = after_batch (fault_armed records w) w1 s1"
    "calm_to s ((os_files s)(w_path w \<mapsto> enc_file_header h @ enc_frames (fs @ batch_frames records))) s1"
    "writer_disk w1 (os_files s1) h (fs @ batch_frames records) (length fs)"
    "same_session w w1" "w_unsynced_batches w1 = 1" "w_pending_commit_fault w1 = NoFault"
    "w_active_checkpoint_slot w1 = w_active_checkpoint_slot w" "os_files s1 (w_journal_path w1) = Some j"
    using ready_written [OF r] mode m by blast
  let ?w = "w1\<lparr>w_pending_commit_fault := m\<rparr>"
  have "append_batch records w s = flush ?w s1"
    using w(1,4,5) armed mode m r by (simp add: after_batch_def Let_def same_session_def ready_def)
  moreover have "writer_disk ?w (os_files s1) h (fs @ batch_frames records) (length fs)"
    using w(3) same_cursors_disk [of w1 ?w] by (simp add: same_cursors_def)
  ultimately show ?thesis
    using w r by (intro that [of ?w s1]) (simp_all add: same_session_def ready_def calm_to_def)
qed

lemma crash_before_checkpoint:
  assumes r: "ready records w s h fs j" and armed: "fault_armed records w"
    and mode: "fc_mode (w_fault_config w) = CrashAfterMainLogSync"
  shows "crash_keeps 85 records w s h fs"
proof -
  obtain w1 s1 where w: "append_batch records w s = flush w1 s1"
    "calm_to s ((os_files s)(w_path w \<mapsto> enc_file_header h @ enc_frames (fs @ batch_frames records))) s1"
    "writer_disk w1 (os_files s1) h (fs @ batch_frames records) (length fs)" "same_session w w1"
    "w_unsynced_batches w1 = 1" "w_pending_commit_fault w1 = CrashAfterMainLogSync" "os_script s1 = []"
    "w_fd_open w1" "\<not> w_failed w1" "w_checkpoint_generation w1 \<noteq> - 1"
    by (rule armed_flush [OF r armed mode]) simp_all
  from flush_before_checkpoint [OF w(7-9) _ w(10,6)] w(5) obtain w' s' where
    fl: "flush w1 s1 = (Exits 85, w', s')" "calm_to s1 (os_files s1) s'" by auto
  have "restores (w_path w1) s' h fs"
    by (rule log_written_restores [OF w(3)]) (use fl(2) in \<open>simp add: calm_to_def\<close>)
  then show ?thesis
    using fl w(1,2,4) by (auto simp: crash_keeps_def leaves_def calm_to_def same_session_def)
qed

text \<open>
  A torn checkpoint that differs from the whole one leaves the commit before in force. (One whose
  missing bytes happen to be those that are there already is the whole checkpoint.)
\<close>

lemma same_session_bounds: "same_session w w1 \<Longrightarrow> checkpoint_bounds w1 = checkpoint_bounds w"
  by (simp add: same_session_def checkpoint_bounds_def)

lemma crash_during_checkpoint:
  assumes r: "ready records w s h fs j" and armed: "fault_armed records w"
    and mode: "fc_mode (w_fault_config w) = CrashDuringCheckpointWrite" and b: "checkpoint_bounds w"
    and k: "k = fc_partial_write_bytes (w_fault_config w)" "0 < k" "k < 52"
    and tear: "drop k (enc_checkpoint_slot (commit_slot h (w_checkpoint_generation w + 1) (fs @ batch_frames records))) \<noteq>
      drop k (slot_at (1 - w_active_checkpoint_slot w) j)"
  shows "crash_keeps 87 records w s h fs"
proof -
  obtain w1 s1 where w: "append_batch records w s = flush w1 s1"
    "calm_to s ((os_files s)(w_path w \<mapsto> enc_file_header h @ enc_frames (fs @ batch_frames records))) s1"
    "writer_disk w1 (os_files s1) h (fs @ batch_frames records) (length fs)" "same_session w w1"
    "w_unsynced_batches w1 = 1" "w_pending_commit_fault w1 = CrashDuringCheckpointWrite" "os_script s1 = []"
    "w_active_checkpoint_slot w1 = w_active_checkpoint_slot w" "os_files s1 (w_journal_path w1) = Some j"
    "w_fd_open w1" "\<not> w_failed w1" "w_checkpoint_generation w1 \<noteq> - 1"
    by (rule armed_flush [OF r armed mode]) simp_all
  have k1: "k = fc_partial_write_bytes (w_fault_config w1)" "w_checkpoint_generation w1 = w_checkpoint_generation w"
    "w_path w1 = w_path w" "w_journal_path w1 = w_journal_path w"
    using w(4) k(1) by (simp_all add: same_session_def)
  from flush_torn_checkpoint [OF w(7,10,11) _ w(9,12,6)] w(5) k k1(1) obtain w' s' s2 where
    fl: "flush w1 s1 = (Exits 87, w', s')" "os_files s2 = os_files s1" "commit_disk k w1 j s2 s'"
      "calm_to s1 ((os_files s1)(w_journal_path w1 \<mapsto> overwrite j (next_slot_index w1 * 52)
        (take k (enc_checkpoint_slot (next_slot w1))))) s'" by auto
  let ?N = "enc_checkpoint_slot (next_slot w1)" and ?M = "slot_at (1 - w_active_checkpoint_slot w1) j"
  have "drop k ?N \<noteq> drop k ?M" using tear next_slot_is [OF w(3)] w(8) k1(2) by simp
  moreover have "drop k (torn k ?N ?M) = drop k ?M" using k(3) by (intro torn_old) (simp_all add: codec_simps)
  ultimately have torn: "torn k ?N ?M \<noteq> ?N" by auto
  have j2: "os_files s2 (w_journal_path w1) = Some j" using fl(2) w(9) by simp
  from commit_disk_restores(3) [OF w(3) [folded fl(2)] _ j2 fl(3) w(12) torn] b same_session_bounds [OF w(4)]
  have "restores (w_path w1) s' h fs" by simp
  then show ?thesis
    using fl(1,4) w(1,2) k1 by (auto simp: crash_keeps_def leaves_def calm_to_def)
qed

lemma crash_after_acknowledgement:
  assumes r: "ready records w s h fs j" and armed: "fault_armed records w"
    and mode: "fc_mode (w_fault_config w) = CrashAfterJournalSync" and b: "checkpoint_bounds w"
    and a: "fc_acknowledgement_fd (w_fault_config w) = Some a" "a \<noteq> w_path w" "a \<noteq> w_journal_path w"
      "os_files s a = Some c" "length c = 8"
  shows "\<exists>w' s'. append_batch records w s = (Exits 90, w', s') \<and> os_script s' = [] \<and> os_now s' = os_now s \<and>
    os_files s' a = Some (le 8 (sq_sequence (last records))) \<and>
    (\<forall>q. q \<noteq> w_path w \<longrightarrow> q \<noteq> w_journal_path w \<longrightarrow> q \<noteq> a \<longrightarrow> os_files s' q = os_files s q) \<and>
    restores (w_path w) s' h (fs @ batch_frames records)"
proof -
  obtain w1 s1 where w: "append_batch records w s = flush w1 s1"
    "calm_to s ((os_files s)(w_path w \<mapsto> enc_file_header h @ enc_frames (fs @ batch_frames records))) s1"
    "writer_disk w1 (os_files s1) h (fs @ batch_frames records) (length fs)" "same_session w w1"
    "w_unsynced_batches w1 = 1" "w_pending_commit_fault w1 = CrashAfterJournalSync" "os_script s1 = []"
    "w_active_checkpoint_slot w1 = w_active_checkpoint_slot w" "os_files s1 (w_journal_path w1) = Some j"
    "w_fd_open w1" "\<not> w_failed w1" "w_checkpoint_generation w1 \<noteq> - 1"
    by (rule armed_flush [OF r armed mode]) simp_all
  have same: "w_path w1 = w_path w" "w_journal_path w1 = w_journal_path w" "w_fault_config w1 = w_fault_config w"
    using w(4) by (simp_all add: same_session_def)
  have lj: "length j = 104" and u: "w_unsynced_batches w1 \<noteq> 0" using ready_journal [OF r] w(5) by simp_all
  have a1: "os_files s1 a = Some c" using w(2) a by (simp add: calm_to_def)
  from flush_acknowledged [OF w(7,10,11) u w(9) lj w(12,6) _ _ a1 a(5)] a same obtain w' s' where
    fl: "flush w1 s1 = (Exits 90, w', s')"
      "calm_to s1 ((os_files s1)(w_journal_path w1 \<mapsto> next_journal w1 j, a \<mapsto> le 8 (w_last_written_sequence w1))) s'"
    by auto
  have last: "w_last_written_sequence w1 = sq_sequence (last records)"
  proof -
    have "records \<noteq> []" using r by (simp add: ready_def)
    moreover have "w_last_written_sequence w1 = seq_or_0 (fs @ batch_frames records)"
      using w(3) by (simp add: writer_disk_def writer_at_def)
    ultimately show ?thesis by (simp add: seq_or_0_def batch_frames_def last_map)
  qed
  have ack: "ack_apart w1" using a same by (simp add: ack_apart_def)
  have "checkpoint_bounds w1" using b same_session_bounds [OF w(4)] by simp
  from flush_safe(2) [OF w(3) this ack fl(1) refl] have "restores (w_path w) s' h (fs @ batch_frames records)"
    by (simp add: same)
  then show ?thesis using w(1,2) fl last same by (auto simp: calm_to_def)
qed

section \<open>A first start that fails\<close>

text \<open>
  A start that fails, or is cut short, between the header of a new log and its journal leaves a log
  without a journal. Every later startup recovery refuses it, although nothing was ever recorded.
\<close>

lemma failed_first_open_is_refused:
  "\<exists>w s report s'. open_writer (make_writer ''log'' no_fault_config default_writer_options)
      (sample_os\<lparr>os_script := [Done, Done, Done, Done, Done, Failed]\<rparr>) = (Returns False, w, s) \<and>
    os_files s = [''log'' \<mapsto> enc_file_header (new_file_header 7)] \<and> os_script s = [] \<and>
    recover_startup_state ''log'' s = (report, s') \<and> \<not> sr_healthy report"
proof -
  let ?w = "make_writer ''log'' no_fault_config default_writer_options"
  have ne: "enc_file_header (new_file_header 7) \<noteq> []" using fhc.enc_length [of "new_file_header 7"] by auto
  have "\<exists>w s. open_writer ?w (sample_os\<lparr>os_script := [Done, Done, Done, Done, Done, Failed]\<rparr>) = (Returns False, w, s) \<and>
    os_files s = [''log'' \<mapsto> enc_file_header (new_file_header 7)] \<and> os_script s = []"
    using ne sample_options
    by (simp add: open_writer_def make_writer_def default_writer_options_def allocate_serialization_buffer_def succeeds_def next_outcome_def sample_os_def
      path_exists_def open_create_def stat_size_def file_bytes_def set_file_def start_new_log_def write_file_header_def write_at_full.simps pwrite_def next_elapsed_def
      sync_main_file_def sync_file_def open_checkpoint_def open_journal_def abandon_def close_def bump_stats_def record_failure_def overwrite_def options_ok_def Let_def
      journal_path_for_log_def)
  then obtain w s where w: "open_writer ?w (sample_os\<lparr>os_script := [Done, Done, Done, Done, Done, Failed]\<rparr>) = (Returns False, w, s)"
    "os_files s = [''log'' \<mapsto> enc_file_header (new_file_header 7)]" "os_script s = []" by blast
  have ok: "log_header_ok (enc_file_header (new_file_header 7))" by (simp add: log_header_ok_def new_file_header_ok codec_simps)
  have "os_files s (journal_path_for_log ''log'') = None" using w(2) by (simp add: journal_path_for_log_def)
  with refused_without_journal [OF w(3) _ ok, of "''log''"] w(2)
  have "\<exists>report s'. recover_startup_state ''log'' s = (report, s') \<and> \<not> sr_healthy report" by auto
  with w show ?thesis by blast
qed

end
