(* ===== verification/Crash_Matrix.thy ===== *)
theory Crash_Matrix
  imports Calm_Faults Ring_Buffer Sensor_Simulator Platform_Info
begin

text \<open>
  The crash matrix, \<open>crash_matrix.cpp\<close>: 180 cases in which a child process is ended at one of six
  sites of the writer and the log is recovered by another process. A process is a function on the
  operating system; a forked child keeps nothing of its own but the files it changed. \<open>random\<close> is
  the generator of the standard library, doubles are computed by the \<open>machine\<close>, and the pipe
  between a child and its parent delivers what was written into it.
\<close>

section \<open>Sites and results\<close>

record crash_site =
  si_name :: string
  si_mode :: runtime_fault_mode
  si_expected_exit :: int
  si_acknowledges_new_batch :: bool

definition kSites :: "crash_site list" where
  "kSites =
    [\<lparr>si_name = ''before_main_write'', si_mode = CrashBeforeMainLogWrite, si_expected_exit = 81, si_acknowledges_new_batch = False\<rparr>,
     \<lparr>si_name = ''during_main_write'', si_mode = CrashDuringMainLogWrite, si_expected_exit = 92, si_acknowledges_new_batch = False\<rparr>,
     \<lparr>si_name = ''after_main_write_before_sync'', si_mode = CrashAfterMainLogWrite, si_expected_exit = 83, si_acknowledges_new_batch = False\<rparr>,
     \<lparr>si_name = ''after_main_sync_before_checkpoint'', si_mode = CrashAfterMainLogSync, si_expected_exit = 85, si_acknowledges_new_batch = False\<rparr>,
     \<lparr>si_name = ''during_checkpoint_write'', si_mode = CrashDuringCheckpointWrite, si_expected_exit = 87, si_acknowledges_new_batch = False\<rparr>,
     \<lparr>si_name = ''after_journal_sync'', si_mode = CrashAfterJournalSync, si_expected_exit = 90, si_acknowledges_new_batch = True\<rparr>]"

record recovery_result =
  rv_recovered_sequence :: u64
  rv_recovered_records :: nat
  rv_recovered_bytes :: nat
  rv_first_generation :: u64
  rv_second_generation :: u64
  rv_first_healthy :: bool
  rv_second_healthy :: bool
  rv_contiguous :: bool
  rv_exact_size :: bool
  rv_idempotent :: bool

definition no_recovery :: recovery_result where
  "no_recovery = \<lparr>rv_recovered_sequence = 0, rv_recovered_records = 0, rv_recovered_bytes = 0,
     rv_first_generation = 0, rv_second_generation = 0, rv_first_healthy = False, rv_second_healthy = False,
     rv_contiguous = False, rv_exact_size = False, rv_idempotent = False\<rparr>"

record case_result =
  cr_case_index :: nat
  cr_seed :: u32
  cr_site :: string
  cr_batch_size :: nat
  cr_partial_cut :: nat
  cr_ring_capacity :: nat
  cr_ring_wrap_cycles :: nat
  cr_preexisting_sequence :: u64
  cr_expected_sequence :: u64
  cr_acknowledged_sequence :: u64
  cr_recovery :: recovery_result
  cr_child_exit :: int
  cr_passed :: bool

section \<open>Records, and a log to start from\<close>

definition make_record :: "'g machine \<Rightarrow> u64 \<Rightarrow> flight_record" where
  "make_record m sequence = default_flight_record\<lparr>timestamp_us := 1000000 + sequence,
     altitude_m := mc_of_u64 m sequence, airspeed_kts := mc_number m 120 0\<rparr>"

definition make_records :: "'g machine \<Rightarrow> u64 \<Rightarrow> nat \<Rightarrow> sequenced_record list" where
  "make_records m first count = map (\<lambda>index. let sequence = first + word_of_nat index in
     \<lparr>sq_record = make_record m sequence, sq_sequence = sequence\<rparr>) [0..<count]"

definition matrix_options :: "nat \<Rightarrow> writer_options" where
  "matrix_options capacity = \<lparr>wo_batch_capacity_records = capacity, wo_sync_every_batches = 1,
     wo_preallocation_chunk_bytes = 4096, wo_serialization_buffer_alignment = 4096\<rparr>"

text \<open>\<open>&&\<close> of calls, and the destructor of the writer, which closes it.\<close>

definition and_then :: "bool call \<times> writer \<times> os \<Rightarrow> (writer \<Rightarrow> os \<Rightarrow> bool call \<times> writer \<times> os) \<Rightarrow> bool call \<times> writer \<times> os" where
  "and_then c f = (case c of (result, w, s) \<Rightarrow> if result = Returns True then f w s else c)"

definition initialize_committed_log :: "'g machine \<Rightarrow> string \<Rightarrow> u64 \<Rightarrow> os \<Rightarrow> bool call \<times> os" where
  "initialize_committed_log m path record_count s =
    (case and_then (and_then (open_writer (make_writer path no_fault_config (matrix_options (unat record_count))) s)
         (append_batch (make_records m 1 (unat record_count)))) flush of (result, w1, s1) \<Rightarrow>
     (case result of
        Exits code \<Rightarrow> (Exits code, s1)
      | Returns ok \<Rightarrow> (case close w1 s1 of (closed, _, s2) \<Rightarrow>
          (case closed of Exits code \<Rightarrow> (Exits code, s2) | Returns _ \<Rightarrow> (Returns ok, s2)))))"

section \<open>A batch out of a ring that has wrapped around\<close>

primrec wrap_ring :: "nat list \<Rightarrow> flight_record \<Rightarrow> ring \<Rightarrow> (flight_record \<times> ring) option" where
  "wrap_ring [] temporary r = Some (temporary, r)"
| "wrap_ring (index # indices) temporary r =
    (let temporary1 = temporary\<lparr>timestamp_us := word_of_nat index\<rparr> in
     case try_push temporary1 r of (pushed, r1) \<Rightarrow>
     if pushed \<noteq> Pushed then None
     else case try_pop temporary1 r1 of (popped, temporary2, r2) \<Rightarrow>
     if \<not> popped then None else wrap_ring indices temporary2 r2)"

primrec push_all :: "flight_record list \<Rightarrow> ring \<Rightarrow> ring option" where
  "push_all [] r = Some r"
| "push_all (x # xs) r = (case try_push x r of (pushed, r1) \<Rightarrow> if pushed \<noteq> Pushed then None else push_all xs r1)"

definition make_wrapped_batch :: "'g machine \<Rightarrow> u64 \<Rightarrow> nat \<Rightarrow> nat \<Rightarrow> nat \<Rightarrow> sequenced_record list" where
  "make_wrapped_batch m first count capacity wrap_cycles =
    (case wrap_ring [0..<capacity * wrap_cycles] default_flight_record (make_ring (word_of_nat capacity)) of
       None \<Rightarrow> []
     | Some (_, r1) \<Rightarrow>
     (case push_all (map (\<lambda>index. make_record m (first + word_of_nat index)) [0..<count]) r1 of
       None \<Rightarrow> []
     | Some r2 \<Rightarrow>
     (case try_pop_batch (word_of_nat count) r2 of (drained, _) \<Rightarrow>
      if length drained \<noteq> count then []
      else map (\<lambda>index. \<lparr>sq_record = drained ! index, sq_sequence = first + word_of_nat index\<rparr>) [0..<count])))"

section \<open>Recovery in a fresh process\<close>

primrec contiguous_from :: "u64 \<Rightarrow> replay_entry list \<Rightarrow> bool" where
  "contiguous_from expected [] \<longleftrightarrow> True"
| "contiguous_from expected (entry # entries) \<longleftrightarrow>
     re_sequence entry = expected \<and> contiguous_from (expected + 1) entries"

definition fresh_process :: "string \<Rightarrow> os \<Rightarrow> recovery_result \<times> os" where
  "fresh_process path s =
    (case recover_startup_state path s of (first, s1) \<Rightarrow>
     case recover_startup_state path s1 of (second, s2) \<Rightarrow>
     case scan_replayable_log path s2 of ((replay, scan), s3) \<Rightarrow>
     (\<lparr>rv_recovered_sequence = sr_last_sequence second,
       rv_recovered_records = length (rl_entries replay),
       rv_recovered_bytes = rr_valid_bytes scan,
       rv_first_generation = sr_checkpoint_generation first,
       rv_second_generation = sr_checkpoint_generation second,
       rv_first_healthy = sr_healthy first,
       rv_second_healthy = sr_healthy second,
       rv_contiguous = (rr_healthy scan \<and> contiguous_from 1 (rl_entries replay)),
       rv_exact_size = (rr_valid_bytes scan = sizeof_file_header + length (rl_entries replay) * kPersistedRecordSize),
       rv_idempotent = (sr_healthy first \<and> sr_healthy second \<and>
         sr_last_sequence first = sr_last_sequence second \<and>
         sr_valid_records first = sr_valid_records second \<and>
         sr_checkpoint_generation first = sr_checkpoint_generation second \<and>
         \<not> sr_log_truncated second)\<rparr>, s3))"

text \<open>Without a pipe or a child, nothing comes back: the result keeps its zeros.\<close>

definition recover_in_fresh_process :: "string \<Rightarrow> os \<Rightarrow> recovery_result \<times> os" where
  "recover_in_fresh_process path s =
    (case succeeds s of (piped, s1) \<Rightarrow>
     if \<not> piped then (no_recovery, s1)
     else case succeeds s1 of (forked, s2) \<Rightarrow>
     if \<not> forked then (no_recovery, s2) else fresh_process path s2)"

section \<open>One case\<close>

text \<open>\<open>1u + (random() % n)\<close>.\<close>

definition draw :: "('g \<Rightarrow> u32 \<times> 'g) \<Rightarrow> nat \<Rightarrow> 'g \<Rightarrow> nat \<times> 'g" where
  "draw random n g = (case random g of (x, g') \<Rightarrow> (1 + unat x mod n, g'))"

definition draw_case :: "'g machine \<Rightarrow> ('g \<Rightarrow> u32 \<times> 'g) \<Rightarrow> crash_site \<Rightarrow> nat \<Rightarrow> case_result" where
  "draw_case m random site case_index =
    (let seed = word_of_nat (0xC0FFEE + case_index * 7919) in
     case draw random 23 (mc_seed m seed) of (preexisting, g1) \<Rightarrow>
     case draw random 8 g1 of (batch, g2) \<Rightarrow>
     case draw random 5 g2 of (extra, g3) \<Rightarrow>
     case draw random 4 g3 of (cycles, g4) \<Rightarrow>
     let batch_bytes = batch * kPersistedRecordSize;
         cut = (if si_name site = ''during_main_write'' then fst (draw random (batch_bytes - 1) g4)
                else if si_name site = ''during_checkpoint_write'' then fst (draw random (sizeof_checkpoint_slot - 1) g4)
                else 0) in
     \<lparr>cr_case_index = case_index, cr_seed = seed, cr_site = si_name site, cr_batch_size = batch,
      cr_partial_cut = cut, cr_ring_capacity = batch + extra, cr_ring_wrap_cycles = cycles,
      cr_preexisting_sequence = word_of_nat preexisting,
      cr_expected_sequence = (if si_acknowledges_new_batch site then word_of_nat preexisting + word_of_nat batch
        else word_of_nat preexisting),
      cr_acknowledged_sequence = 0, cr_recovery = no_recovery, cr_child_exit = - 1, cr_passed = False\<rparr>)"

definition start_acknowledgement :: "string \<Rightarrow> u64 \<Rightarrow> os \<Rightarrow> bool \<times> os" where
  "start_acknowledgement ack_path preexisting s =
    (case open_trunc ack_path s of (is_open, s1) \<Rightarrow>
     if \<not> is_open then (False, s1)
     else case pwrite ack_path (le 8 preexisting) 0 s1 of (written, s2) \<Rightarrow>
     if written \<noteq> Wrote 8 then (False, s2) else sync_file ack_path s2)"

text \<open>The child appends the batch with the fault armed, and leaves by \<open>_exit\<close> in any case.\<close>

definition crash_child :: "'g machine \<Rightarrow> crash_site \<Rightarrow> case_result \<Rightarrow> string \<Rightarrow> string \<Rightarrow> os \<Rightarrow> nat \<times> os" where
  "crash_child m site c log_path ack_path s =
    (let records = make_wrapped_batch m (cr_preexisting_sequence c + 1) (cr_batch_size c)
           (cr_ring_capacity c) (cr_ring_wrap_cycles c);
         fault = \<lparr>fc_mode = si_mode site,
           fc_trigger_sequence = cr_preexisting_sequence c + word_of_nat (cr_batch_size c),
           fc_partial_write_bytes = cr_partial_cut c, fc_acknowledgement_fd = Some ack_path\<rparr> in
     case open_writer (make_writer log_path fault (matrix_options (cr_batch_size c))) s of (result, w1, s1) \<Rightarrow>
     (case result of
        Exits code \<Rightarrow> (code, s1)
      | Returns is_open \<Rightarrow>
     if \<not> is_open \<or> length records \<noteq> cr_batch_size c then (71, s1)
     else case append_batch records w1 s1 of (appended, _, s2) \<Rightarrow>
     (case appended of Exits code \<Rightarrow> (code, s2) | Returns _ \<Rightarrow> (72, s2))))"

definition case_passed :: "crash_site \<Rightarrow> case_result \<Rightarrow> bool" where
  "case_passed site c \<longleftrightarrow> cr_child_exit c = si_expected_exit site \<and>
     cr_acknowledged_sequence c = cr_expected_sequence c \<and>
     rv_first_healthy (cr_recovery c) \<and> rv_second_healthy (cr_recovery c) \<and>
     rv_recovered_sequence (cr_recovery c) = cr_expected_sequence c \<and>
     rv_recovered_records (cr_recovery c) = unat (cr_expected_sequence c) \<and>
     rv_contiguous (cr_recovery c) \<and> rv_exact_size (cr_recovery c) \<and> rv_idempotent (cr_recovery c)"

definition read_acknowledgement :: "string \<Rightarrow> os \<Rightarrow> u64 \<times> os" where
  "read_acknowledgement ack_path s = (case pread ack_path 8 0 s of (data, s1) \<Rightarrow>
     (case data of None \<Rightarrow> 0 | Some bs \<Rightarrow> if length bs \<noteq> 8 then 0 else un_le bs, s1))"

text \<open>A failed \<open>fork\<close> leaves the status at zero, which reads as an exit with code zero.\<close>

definition run_child :: "'g machine \<Rightarrow> crash_site \<Rightarrow> case_result \<Rightarrow> string \<Rightarrow> string \<Rightarrow> os \<Rightarrow> int \<times> os" where
  "run_child m site c log_path ack_path s =
    (case succeeds s of (forked, s1) \<Rightarrow>
     if \<not> forked then (0, s1)
     else case crash_child m site c log_path ack_path s1 of (code, s2) \<Rightarrow> (int code, s2))"

definition run_case :: "'g machine \<Rightarrow> ('g \<Rightarrow> u32 \<times> 'g) \<Rightarrow> string \<Rightarrow> crash_site \<Rightarrow> nat \<Rightarrow> os \<Rightarrow> case_result call \<times> os" where
  "run_case m random work_dir site case_index s =
    (let c = draw_case m random site case_index;
         case_prefix = work_dir @ ''/case-'' @ show_nat case_index;
         log_path = case_prefix @ ''.bin''; ack_path = case_prefix @ ''.ack'' in
     case initialize_committed_log m log_path (cr_preexisting_sequence c) s of (initialized, s1) \<Rightarrow>
     (case initialized of
        Exits code \<Rightarrow> (Exits code, s1)
      | Returns ok1 \<Rightarrow>
     if \<not> ok1 then (Returns c, s1)
     else case start_acknowledgement ack_path (cr_preexisting_sequence c) s1 of (ok2, s2) \<Rightarrow>
     if \<not> ok2 then (Returns c, s2)
     else case run_child m site c log_path ack_path s2 of (code, s3) \<Rightarrow>
     case read_acknowledgement ack_path s3 of (acknowledged, s4) \<Rightarrow>
     case recover_in_fresh_process log_path s4 of (recovery, s5) \<Rightarrow>
     let c1 = c\<lparr>cr_child_exit := code, cr_acknowledged_sequence := acknowledged, cr_recovery := recovery\<rparr> in
       (Returns (c1\<lparr>cr_passed := case_passed site c1\<rparr>), s5)))"

section \<open>All cases, and the artifact\<close>

text \<open>Thirty cases of each site, numbered from one.\<close>

definition matrix_cases :: "(nat \<times> crash_site) list" where
  "matrix_cases = enumerate 1 (concat (map (replicate 30) kSites))"

primrec run_cases :: "'g machine \<Rightarrow> ('g \<Rightarrow> u32 \<times> 'g) \<Rightarrow> string \<Rightarrow> (nat \<times> crash_site) list \<Rightarrow> os \<Rightarrow>
    case_result list call \<times> os" where
  "run_cases m random work_dir [] s = (Returns [], s)"
| "run_cases m random work_dir (c # cs) s =
    (case run_case m random work_dir (snd c) (fst c) s of (result, s1) \<Rightarrow>
     (case result of
        Exits code \<Rightarrow> (Exits code, s1)
      | Returns r \<Rightarrow> (case run_cases m random work_dir cs s1 of (rest, s2) \<Rightarrow>
          (case rest of Exits code \<Rightarrow> (Exits code, s2) | Returns rs \<Rightarrow> (Returns (r # rs), s2)))))"

definition passed_count :: "case_result list \<Rightarrow> nat" where
  "passed_count results = length (filter cr_passed results)"

definition field_of :: "string \<Rightarrow> string \<Rightarrow> string" where
  "field_of name v = '','' @ quote @ name @ quote @ '':'' @ v"

definition case_line :: "case_result \<Rightarrow> string" where
  "case_line item = ''    {'' @ quote @ ''case'' @ quote @ '':'' @ show_nat (cr_case_index item) @
     field_of ''seed'' (show_word (cr_seed item)) @
     field_of ''crash_site'' (quote @ cr_site item @ quote) @
     field_of ''batch_size'' (show_nat (cr_batch_size item)) @
     field_of ''partial_cut'' (show_nat (cr_partial_cut item)) @
     field_of ''ring_capacity'' (show_nat (cr_ring_capacity item)) @
     field_of ''ring_wrap_cycles'' (show_nat (cr_ring_wrap_cycles item)) @
     field_of ''preexisting_sequence'' (show_word (cr_preexisting_sequence item)) @
     field_of ''expected_committed_sequence'' (show_word (cr_expected_sequence item)) @
     field_of ''acknowledged_sequence'' (show_word (cr_acknowledged_sequence item)) @
     field_of ''recovered_sequence'' (show_word (rv_recovered_sequence (cr_recovery item))) @
     field_of ''recovered_records'' (show_nat (rv_recovered_records (cr_recovery item))) @
     field_of ''child_exit'' (show_int (cr_child_exit item)) @
     field_of ''healthy'' (show_bool (rv_first_healthy (cr_recovery item))) @
     field_of ''contiguous'' (show_bool (rv_contiguous (cr_recovery item))) @
     field_of ''exact_size'' (show_bool (rv_exact_size (cr_recovery item))) @
     field_of ''idempotent'' (show_bool (rv_idempotent (cr_recovery item))) @
     field_of ''passed'' (show_bool (cr_passed item)) @ ''}''"

fun case_lines :: "case_result list \<Rightarrow> string" where
  "case_lines [] = []"
| "case_lines [item] = case_line item @ newline"
| "case_lines (item # items) = case_line item @ '','' @ newline @ case_lines items"

definition matrix_artifact :: "string \<Rightarrow> case_result list \<Rightarrow> string" where
  "matrix_artifact platform results = ''{'' @ newline @
     ''  '' @ quote @ ''crash_cases'' @ quote @ '': '' @ show_nat (length results) @ '','' @ newline @
     ''  '' @ quote @ ''passed'' @ quote @ '': '' @ show_nat (passed_count results) @ '','' @ newline @
     ''  '' @ quote @ ''failed'' @ quote @ '': '' @ show_nat (length results - passed_count results) @ '','' @ newline @
     ''  '' @ quote @ ''platform'' @ quote @ '': '' @ platform @ '','' @ newline @
     ''  '' @ quote @ ''cases'' @ quote @ '': ['' @ newline @ case_lines results @ ''  ]'' @ newline @ ''}'' @ newline"

definition matrix_fails :: "string \<Rightarrow> tool_run" where
  "matrix_fails message = \<lparr>tr_code = 1, tr_stdout = [], tr_stderr = message @ newline\<rparr>"

text \<open>
  \<open>work_dir\<close> is the directory the paths of the standard library make of the argument and the
  process number, \<open>message\<close> the text of an error of the system, \<open>h\<close> what the system
  answers about the platform; a directory that is there is not an error.
\<close>

definition matrix_main :: "'g machine \<Rightarrow> ('g \<Rightarrow> u32 \<times> 'g) \<Rightarrow> string \<Rightarrow> string \<Rightarrow> host \<Rightarrow> string list \<Rightarrow> os \<Rightarrow>
    tool_run call \<times> os" where
  "matrix_main m random work_dir message h args s =
    (if length args \<noteq> 1 then (Returns (matrix_fails ''Usage: crash_matrix <artifact.json>''), s)
     else let artifact_path = hd args in
     case succeeds s of (parent_made, s1) \<Rightarrow>
     if \<not> parent_made then (Returns (matrix_fails (''failed to create artifact directory: '' @ message)), s1)
     else case succeeds s1 of (work_made, s2) \<Rightarrow>
     if \<not> work_made then (Returns (matrix_fails (''failed to create crash-matrix workspace: '' @ message)), s2)
     else case run_cases m random work_dir matrix_cases s2 of (run, s3) \<Rightarrow>
     (case run of
        Exits code \<Rightarrow> (Exits code, s3)
      | Returns results \<Rightarrow>
     case open_trunc artifact_path s3 of (is_open, s4) \<Rightarrow>
     if \<not> is_open then
       (Returns (matrix_fails (''failed to open artifact file: '' @ quote @ artifact_path @ quote)), s4)
     else case pwrite artifact_path (map of_char (matrix_artifact (platform_info_json (collect_platform_info h ''.'')) results)) 0 s4 of (_, s5) \<Rightarrow>
       (Returns \<lparr>tr_code = (if length results = 180 \<and> passed_count results = 180 then 0 else 2),
          tr_stdout = ''crash_cases='' @ show_nat (length results) @ '' passed='' @ show_nat (passed_count results) @
            '' failed='' @ show_nat (length results - passed_count results) @ '' artifact='' @ artifact_path @ newline,
          tr_stderr = []\<rparr>, s5)))"

section \<open>The records of a case\<close>

lemma make_records_Suc: "make_records m first (Suc n) =
    \<lparr>sq_record = make_record m first, sq_sequence = first\<rparr> # make_records m (first + 1) n"
  by (simp add: make_records_def upt_rec [of 0] map_Suc_upt [symmetric] del: upt_Suc) (simp add: add.assoc Let_def)

lemma length_make_records [simp]: "length (make_records m first n) = n"
  by (simp add: make_records_def)

lemma make_records_none [simp]: "make_records m first 0 = []"
  by (simp add: make_records_def)

lemma make_records_nil [simp]: "make_records m first n = [] \<longleftrightarrow> n = 0"
  using length_make_records [of m first n] by (metis length_0_conv)

lemma make_records_append:
  "make_records m first (p + n) = make_records m first p @ make_records m (first + word_of_nat p) n"
  by (induction p arbitrary: first) (simp_all add: make_records_Suc add.assoc)

lemma make_records_hd: "0 < n \<Longrightarrow> sq_sequence (hd (make_records m first n)) = first"
  by (cases n) (simp_all add: make_records_Suc)

lemma make_records_last: "0 < n \<Longrightarrow> sq_sequence (last (make_records m first n)) = first + word_of_nat (n - 1)"
  by (simp add: make_records_def last_map Let_def)

lemma make_records_consecutive: "consecutive (make_records m first n)"
proof (induction n arbitrary: first)
  case (Suc n)
  then show ?case by (cases n) (use Suc [of "first + 1"] in \<open>simp_all add: make_records_Suc\<close>)
qed simp

lemma make_records_seq: "seq_or_0 (batch_frames (make_records m 1 n)) = word_of_nat n"
proof (cases n)
  case (Suc k)
  then have "make_records m 1 n \<noteq> []" by simp
  then have "seq_or_0 (batch_frames (make_records m 1 n)) = sq_sequence (last (make_records m 1 n))"
    by (simp add: seq_or_0_def batch_frames_def last_map)
  then show ?thesis using make_records_last [of n m 1] Suc by simp
qed (simp add: seq_or_0_def)

lemma make_records_chain: "n < 2 ^ 32 \<Longrightarrow> chain_ok None (batch_frames (make_records m 1 n))"
  by (rule chain_batch [OF make_records_consecutive]) (simp add: make_records_hd)

lemma matrix_options_ok: "0 < n \<Longrightarrow> n < 2 ^ 32 \<Longrightarrow> options_ok (matrix_options n)"
  by (simp add: options_ok_def matrix_options_def)

section \<open>The log a case starts from\<close>

definition first_slot :: "u64 \<Rightarrow> persisted_checkpoint_slot" where
  "first_slot t = make_slot 1 t 24 0 0"

lemma first_journal_slots:
  "put_slot 1 slot (enc_checkpoint_slot (first_slot t) @ replicate 52 0) =
    enc_checkpoint_slot (first_slot t) @ enc_checkpoint_slot slot"
  by (simp add: put_slot_def overwrite_mid codec_simps)

lemma initialize_exact:
  fixes m :: "'g machine"
  assumes s: "os_script s = []" and new: "os_files s path = None" "os_files s (journal_path_for_log path) = None"
    and path: "path \<noteq> []" and p: "0 < p" "p < 2 ^ 32"
    and crc: "compute_checkpoint_crc (make_slot 2 (os_now s) 24 0 0) \<noteq> 0"
  defines "h \<equiv> new_file_header (os_now s)" and "fs \<equiv> batch_frames (make_records m 1 p)"
  shows "\<exists>w s'. initialize_committed_log m path (word_of_nat p) s = (Returns True, s') \<and>
    calm_to s ((os_files s)(path \<mapsto> enc_file_header h @ enc_frames fs, journal_path_for_log path \<mapsto>
      enc_checkpoint_slot (first_slot (os_now s)) @ enc_checkpoint_slot (commit_slot h 2 fs))) s' \<and>
    writer_disk w (os_files s') h fs (length fs) \<and> w_path w = path \<and> w_checkpoint_generation w = 2 \<and>
    w_active_checkpoint_slot w = 1"
proof -
  let ?opt = "matrix_options p" and ?R = "make_records m 1 p" and ?jp = "journal_path_for_log path"
  let ?j = "enc_checkpoint_slot (first_slot (os_now s)) @ replicate 52 0"
  have u: "unat (word_of_nat p :: u64) = p" using p(2) by (intro unat_of_nat_len) simp
  from open_new_log [OF s new path matrix_options_ok [OF p] refl, of no_fault_config] obtain w1 s1 where
    o: "open_writer (make_writer path no_fault_config ?opt) s = (Returns True, w1, s1)" "os_script s1 = []"
      "opened (make_writer path no_fault_config ?opt) w1" "w_recorder_start_time_us w1 = os_now s"
      "w_checkpoint_generation w1 = 1" "writer_disk w1 (os_files s1) h [] 0" "os_now s1 = os_now s"
      "w_active_checkpoint_slot w1 = 0"
      "os_files s1 = (os_files s)(path \<mapsto> enc_file_header h, ?jp \<mapsto> ?j)"
    unfolding h_def first_slot_def by blast
  have w1: "w_path w1 = path" "w_options w1 = ?opt" "w_fault_config w1 = no_fault_config" "w_fd_open w1" "\<not> w_failed w1"
    "w_unsynced_batches w1 = 0" "w_journal_path w1 = ?jp" "\<not> w_fault_injected w1" "w_pending_commit_fault w1 = NoFault"
    using o(3,6) by (simp_all add: opened_def make_writer_def writer_disk_def writer_at_def)
  have chain: "chain_ok None ([] @ batch_frames ?R)" using make_records_chain [OF p(2)] by simp
  have len: "24 + 84 * (length ([] :: log_frame list) + length ?R) < 2 ^ 64" using p(2) by simp
  have ready: "ready ?R w1 s1 h [] ?j"
    using o w1 p chain make_records_consecutive by (simp add: ready_def matrix_options_def)
  have calm: "\<not> fault_armed ?R w1" using w1(3) by (simp add: fault_armed_def no_fault_config_def)
  from append_exact [OF ready calm] obtain w2 s2 where
    ap: "append_batch ?R w1 s1 = (Returns True, w2, s2)" "w_active_checkpoint_slot w2 = next_slot_index w1"
      "calm_to s1 ((os_files s1)(path \<mapsto> enc_file_header h @ enc_frames fs,
        ?jp \<mapsto> put_slot (next_slot_index w1) (commit_slot h 2 fs) ?j)) s2"
    using w1 o(5) by (auto simp: fs_def)
  have idx: "next_slot_index w1 = 1" using o(8) by (simp add: next_slot_index_def)
  have bounds: "checkpoint_bounds w1" using o(4,5) crc by (simp add: checkpoint_bounds_def)
  have ack: "ack_apart w1" using w1(3) by (simp add: ack_apart_def no_fault_config_def)
  have "writer_disk w1 (os_files s1) h [] (length ([] :: log_frame list))" using o(6) by simp
  from append_batch_safe [OF this bounds ack chain len w1(4) ap(1)] have dc: "durably_committed w1 w2 s2 h fs"
    using w1 by (simp add: batch_outcome_def matrix_options_def fs_def)
  have fl: "flush w2 s2 = (Returns True, w2, s2)" and cl: "\<exists>w3. close w2 s2 = (Returns (), w3, s2)"
    using dc w1 by (simp_all add: durably_committed_def flush_def close_def)
  have "initialize_committed_log m path (word_of_nat p) s = (Returns True, s2)"
    using o(1) ap(1) fl cl by (auto simp: initialize_committed_log_def u and_then_def)
  moreover have "calm_to s ((os_files s)(path \<mapsto> enc_file_header h @ enc_frames fs, ?jp \<mapsto>
      enc_checkpoint_slot (first_slot (os_now s)) @ enc_checkpoint_slot (commit_slot h 2 fs))) s2"
    using ap(3) o(2,7,9) first_journal_slots unfolding idx by (simp add: calm_to_def fun_upd_twist)
  ultimately show ?thesis
    using dc o(5) ap(2) idx w1(1) by (intro exI [of _ w2] exI [of _ s2]) (simp add: durably_committed_def)
qed

section \<open>The batch that comes out of the ring\<close>

lemma wrap_ring_empty:
  assumes "ring_inv (length indices + n) r" and "\<not> bq_closed (ring_abs r)" and "bq_items (ring_abs r) = []"
    and "0 < bq_capacity (ring_abs r)"
  shows "\<exists>t r'. wrap_ring indices temporary r = Some (t, r') \<and> ring_inv n r' \<and> ring_abs r' = ring_abs r"
  using assms
proof (induction indices arbitrary: temporary r)
  case (Cons i js)
  let ?t = "temporary\<lparr>timestamp_us := word_of_nat i\<rparr>"
  from Cons.prems(1) have "ring_inv (Suc (length js + n)) r" by simp
  from ring_queue.push_then_pop [OF this Cons.prems(2-4), of ?t ?t] obtain r1 r2 where
    "try_push ?t r = (Pushed, r1)" "try_pop_status ?t r1 = (Popped, ?t, r2)" "ring_inv (length js + n) r2"
    "ring_abs r2 = ring_abs r" by metis
  moreover have "\<exists>t r'. wrap_ring js ?t r2 = Some (t, r') \<and> ring_inv n r' \<and> ring_abs r' = ring_abs r2"
    by (rule Cons.IH) (use calculation(3,4) Cons.prems(2-4) in simp_all)
  ultimately show ?case by (simp add: Let_def try_pop_def)
qed simp

lemma push_all_fits:
  assumes "ring_inv (length xs + n) r" and "\<not> bq_closed (ring_abs r)"
    and "length (bq_items (ring_abs r)) + length xs \<le> bq_capacity (ring_abs r)"
  shows "\<exists>r'. push_all xs r = Some r' \<and> ring_inv n r' \<and>
    ring_abs r' = (ring_abs r)\<lparr>bq_items := bq_items (ring_abs r) @ xs\<rparr>"
  using assms
proof (induction xs arbitrary: r)
  case (Cons x xs)
  from Cons.prems have "ring_inv (Suc (length xs + n)) r" and "length (bq_items (ring_abs r)) < bq_capacity (ring_abs r)"
    by simp_all
  from ring_queue.accept [OF this(1) Cons.prems(2) this(2), of x] obtain r1 where
    p: "try_push x r = (Pushed, r1)" "ring_inv (length xs + n) r1"
    "ring_abs r1 = (ring_abs r)\<lparr>bq_items := bq_items (ring_abs r) @ [x]\<rparr>" by blast
  with Cons.IH [OF p(2)] Cons.prems(2,3) show ?case by auto
qed simp

lemma wrapped_batch:
  assumes "0 < count" and "count \<le> capacity" and "capacity * cycles + count < 2 ^ 64" and "capacity < 2 ^ 64"
  shows "make_wrapped_batch m first count capacity cycles = make_records m first count"
proof -
  let ?r = "make_ring (word_of_nat capacity)" and ?xs = "map (\<lambda>i. make_record m (first + word_of_nat i)) [0..<count]"
  have cap: "unat (word_of_nat capacity :: u64) = capacity" by (rule unat_of_nat_len [OF assms(4)])
  have abs: "ring_abs ?r = \<lparr>bq_capacity = capacity, bq_items = [], bq_closed = False\<rparr>"
    by (simp add: ring_abs_def make_ring_def ring_items_def cap)
  have "ring_inv (length [0..<capacity * cycles] + count) ?r" using assms(3) by (intro make_ring_inv) simp
  from wrap_ring_empty [OF this, of default_flight_record] abs assms(1,2) obtain t r1 where
    w: "wrap_ring [0..<capacity * cycles] default_flight_record ?r = Some (t, r1)" "ring_inv count r1"
    "ring_abs r1 = ring_abs ?r" by auto
  have "ring_inv (length ?xs + 0) r1" using w(2) by simp
  from push_all_fits [OF this] w(3) abs assms(2) obtain r2 where
    p: "push_all ?xs r1 = Some r2" "ring_inv 0 r2" "bq_items (ring_abs r2) = ?xs" by auto
  have "unat (word_of_nat count :: u64) = count" using assms by (intro unat_of_nat_len) simp
  with ring_queue.take_batch [OF p(2), of "word_of_nat count"] p(3) obtain r3 where
    b: "try_pop_batch (word_of_nat count) r2 = (?xs, r3)" by auto
  show ?thesis
    using w(1) p(1) b by (simp add: make_wrapped_batch_def make_records_def Let_def)
qed

section \<open>What the fresh process reports\<close>

lemma contiguous_batch: "contiguous_from first (map frame_entry (batch_frames (make_records m first n)))"
  by (induction n arbitrary: first) (simp_all add: make_records_Suc batch_frames_def frame_entry_def make_frame_def Let_def)

lemma fresh_process_restored:
  assumes s: "os_script s = []" and r: "restores path s h fs" and fs: "fs = batch_frames (make_records m 1 n)" "n < 2 ^ 32"
    and h: "file_header_ok h"
  shows "\<exists>v. recover_in_fresh_process path s = (v, set_file path (enc_file_header h @ enc_frames fs) s) \<and>
    rv_recovered_sequence v = word_of_nat n \<and> rv_recovered_records v = n \<and> rv_first_healthy v \<and> rv_second_healthy v \<and>
    rv_contiguous v \<and> rv_exact_size v \<and> rv_idempotent v"
proof -
  let ?log = "enc_file_header h @ enc_frames fs" and ?s = "set_file path (enc_file_header h @ enc_frames fs) s"
  have "s\<lparr>os_script := []\<rparr> = s" using s by simp
  with r obtain rep rep' where rec: "recover_startup_state path s = (rep, ?s)" "recover_startup_state path ?s = (rep', ?s)"
    and rep: "sr_healthy rep" "sr_valid_records rep = length fs" "sr_last_sequence rep = seq_or_0 fs"
    "sr_healthy rep'" "\<not> sr_log_truncated rep'" "sr_valid_records rep' = sr_valid_records rep"
    "sr_last_sequence rep' = sr_last_sequence rep" "sr_checkpoint_generation rep' = sr_checkpoint_generation rep"
    unfolding restores_def by metis
  have chain: "chain_ok None fs" using make_records_chain fs by blast
  have ok: "log_header_ok ?log" using h by (simp add: log_header_ok_def codec_simps)
  note fr = log_frames_whole [OF chain, of h]
  from scan_file_ok [of ?s path ?log False, OF _ _ ok] s obtain report md where
    scan: "scan_file path False ?s = ((report, md, map frame_entry fs), ?s)" "reports_prefix ?log report"
    unfolding fr by auto
  have bytes: "rr_healthy report" "rr_valid_bytes report = 24 + 84 * length fs"
    using scan(2) by (simp_all add: reports_prefix_def log_valid_bytes_def fr codec_simps)
  have len: "length fs = n" using fs by simp
  show ?thesis
    using rec rep scan(1) bytes s contiguous_batch [of 1 m n] make_records_seq [of m n] len fs(1)
    by (simp add: recover_in_fresh_process_def fresh_process_def scan_replayable_log_def os_simps)
qed

section \<open>The child process\<close>

text \<open>
  A case as it is drawn: \<open>p\<close> records committed, \<open>b\<close> in the batch. What a torn checkpoint leaves
  differs from the whole one unless the bytes not written are those of the old slot.
\<close>

definition tear_shows :: "u64 \<Rightarrow> nat \<Rightarrow> nat \<Rightarrow> nat \<Rightarrow> bool" where
  "tear_shows t p b k \<longleftrightarrow>
     drop k (enc_checkpoint_slot (make_slot 3 t (word_of_nat (24 + 84 * (p + b))) (word_of_nat (p + b)) (word_of_nat (p + b)))) \<noteq>
     drop k (enc_checkpoint_slot (first_slot t))"

definition case_drawn :: "crash_site \<Rightarrow> nat \<Rightarrow> nat \<Rightarrow> case_result \<Rightarrow> bool" where
  "case_drawn site p b c \<longleftrightarrow> 0 < p \<and> 0 < b \<and> p \<le> 23 \<and> b \<le> 8 \<and> cr_preexisting_sequence c = word_of_nat p \<and>
     cr_batch_size c = b \<and> b \<le> cr_ring_capacity c \<and> cr_ring_capacity c \<le> 13 \<and> cr_ring_wrap_cycles c \<le> 4 \<and>
     cr_expected_sequence c = word_of_nat (if si_acknowledges_new_batch site then p + b else p) \<and>
     (si_mode site = CrashDuringMainLogWrite \<longrightarrow> 0 < cr_partial_cut c) \<and>
     (si_mode site = CrashDuringCheckpointWrite \<longrightarrow> 0 < cr_partial_cut c \<and> cr_partial_cut c < 52)"

text \<open>The files as the child finds them.\<close>

definition case_files :: "'g machine \<Rightarrow> nat \<Rightarrow> string \<Rightarrow> string \<Rightarrow> os \<Rightarrow> bool" where
  "case_files m p log_path ack_path s \<longleftrightarrow> os_script s = [] \<and> log_path \<noteq> [] \<and>
     ack_path \<noteq> log_path \<and> ack_path \<noteq> journal_path_for_log log_path \<and>
     os_files s ack_path = Some (le 8 (word_of_nat p :: u64)) \<and>
     (let h = new_file_header (os_now s); fs = batch_frames (make_records m 1 p) in
      os_files s (journal_path_for_log log_path) =
        Some (enc_checkpoint_slot (first_slot (os_now s)) @ enc_checkpoint_slot (commit_slot h 2 fs)) \<and>
      (\<exists>w. writer_disk w (os_files s) h fs (length fs) \<and> w_path w = log_path \<and> w_checkpoint_generation w = 2 \<and>
         w_active_checkpoint_slot w = 1))"

text \<open>The child's batch, and its writer when the batch is about to be appended.\<close>

lemma child_opens:
  fixes m :: "'g machine"
  assumes files: "case_files m p log_path ack_path s" and drawn: "case_drawn site p b c" and mode: "si_mode site \<noteq> NoFault"
  defines "records \<equiv> make_records m (1 + word_of_nat p) b" and "h \<equiv> new_file_header (os_now s)"
    and "fs \<equiv> batch_frames (make_records m 1 p)"
  obtains w j where "crash_child m site c log_path ack_path s =
      (case append_batch records w s of (appended, _, s2) \<Rightarrow> (case appended of Exits code \<Rightarrow> (code, s2) | Returns _ \<Rightarrow> (72, s2)))"
    and "ready records w s h fs j" and "fault_armed records w" and "fc_mode (w_fault_config w) = si_mode site"
    and "fc_partial_write_bytes (w_fault_config w) = cr_partial_cut c" and "fc_acknowledgement_fd (w_fault_config w) = Some ack_path"
    and "checkpoint_bounds w" and "w_path w = log_path" and "w_journal_path w = journal_path_for_log log_path"
    and "w_checkpoint_generation w = 2" and "slot_at (1 - w_active_checkpoint_slot w) j = enc_checkpoint_slot (first_slot (os_now s))"
    and "fs @ batch_frames records = batch_frames (make_records m 1 (p + b))"
proof -
  from files obtain w0 where s: "os_script s = []" and path: "log_path \<noteq> []"
    and ack: "ack_path \<noteq> log_path" "ack_path \<noteq> journal_path_for_log log_path"
    and j: "os_files s (journal_path_for_log log_path) =
      Some (enc_checkpoint_slot (first_slot (os_now s)) @ enc_checkpoint_slot (commit_slot h 2 fs))"
    and disk: "writer_disk w0 (os_files s) h fs (length fs)" and w0: "w_path w0 = log_path" "w_checkpoint_generation w0 = 2"
      "w_active_checkpoint_slot w0 = 1"
    by (auto simp: case_files_def Let_def h_def fs_def)
  from drawn have pb: "0 < p" "0 < b" "p \<le> 23" "b \<le> 8" and c: "cr_preexisting_sequence c = word_of_nat p" "cr_batch_size c = b"
    and ring: "b \<le> cr_ring_capacity c" "cr_ring_capacity c \<le> 13" "cr_ring_wrap_cycles c \<le> 4"
    by (simp_all add: case_drawn_def)
  let ?j = "enc_checkpoint_slot (first_slot (os_now s)) @ enc_checkpoint_slot (commit_slot h 2 fs)"
  let ?fault = "\<lparr>fc_mode = si_mode site, fc_trigger_sequence = cr_preexisting_sequence c + word_of_nat (cr_batch_size c),
      fc_partial_write_bytes = cr_partial_cut c, fc_acknowledgement_fd = Some ack_path\<rparr>"
  have "cr_ring_capacity c * cr_ring_wrap_cycles c \<le> 13 * 4" using ring by (intro mult_mono) simp_all
  then have batch: "make_wrapped_batch m (cr_preexisting_sequence c + 1) (cr_batch_size c) (cr_ring_capacity c)
      (cr_ring_wrap_cycles c) = records"
    using wrapped_batch [of b "cr_ring_capacity c" "cr_ring_wrap_cycles c" m "word_of_nat p + 1"] ring pb c
    by (simp add: records_def add.commute)
  from open_existing_log [OF s disk _ matrix_options_ok [of b] refl, of ?fault] path w0 pb obtain w where
    w: "open_writer (make_writer log_path ?fault (matrix_options b)) s = (Returns True, w, s)"
      "opened (make_writer log_path ?fault (matrix_options b)) w" "w_checkpoint_generation w = 2"
      "writer_disk w (os_files s) h fs (length fs)" "w_active_checkpoint_slot w = 1" by auto
  have fields: "w_path w = log_path" "w_options w = matrix_options b" "w_fault_config w = ?fault" "w_fd_open w" "\<not> w_failed w"
    "w_unsynced_batches w = 0" "w_journal_path w = journal_path_for_log log_path" "\<not> w_fault_injected w" "w_pending_commit_fault w = NoFault"
    using w(2,4) by (simp_all add: opened_def make_writer_def writer_disk_def writer_at_def)
  have all: "fs @ batch_frames records = batch_frames (make_records m 1 (p + b))"
    unfolding make_records_append by (simp add: fs_def records_def)
  have chain: "chain_ok None (fs @ batch_frames records)" unfolding all using make_records_chain [of "p + b"] pb by simp
  have hd: "sq_sequence (hd records) = 1 + word_of_nat p" using make_records_hd [OF pb(2)] by (simp add: records_def)
  have last: "sq_sequence (last records) = word_of_nat (p + b)"
    using make_records_last [OF pb(2), of m "1 + word_of_nat p"] pb(2) by (simp add: records_def of_nat_diff)
  have len: "24 + 84 * (length fs + length records) < 2 ^ 64" using pb by (simp add: fs_def records_def)
  have seq: "sq_sequence (hd records) = seq_or_0 fs + 1" unfolding hd fs_def make_records_seq by simp
  have "ready records w s h fs ?j"
    unfolding ready_def using w(3,4) fields s j chain len seq pb make_records_consecutive
    by (simp add: records_def matrix_options_def)
  moreover have "fault_armed records w"
  proof -
    have "(1 + word_of_nat p :: u64) \<le> word_of_nat (p + b)"
    proof -
      have "(1 + word_of_nat p :: u64) = word_of_nat (Suc p)" by simp
      moreover have "unat (word_of_nat (Suc p) :: u64) = Suc p" "unat (word_of_nat (p + b) :: u64) = p + b"
        by (rule unat_of_nat_len, use pb in simp)+
      ultimately show ?thesis unfolding word_le_nat_alt using pb(2) by simp
    qed
    then show ?thesis using mode fields hd last c by (simp add: fault_armed_def)
  qed
  moreover have "crash_child m site c log_path ack_path s =
      (case append_batch records w s of (appended, _, s2) \<Rightarrow> (case appended of Exits code \<Rightarrow> (code, s2) | Returns _ \<Rightarrow> (72, s2)))"
    using w(1) batch c by (simp add: crash_child_def Let_def records_def)
  moreover have "slot_at (1 - w_active_checkpoint_slot w) ?j = enc_checkpoint_slot (first_slot (os_now s))"
    by (simp add: w(5) slot_at_def codec_simps)
  moreover have "checkpoint_bounds w" by (simp add: checkpoint_bounds_def w(3))
  ultimately show ?thesis using that fields w(3) all by simp
qed

text \<open>What a child leaves when its expected exit is taken.\<close>

definition child_leaves :: "'g machine \<Rightarrow> crash_site \<Rightarrow> nat \<Rightarrow> string \<Rightarrow> string \<Rightarrow> os \<Rightarrow> os \<Rightarrow> bool" where
  "child_leaves m site n log_path ack_path s s' \<longleftrightarrow> os_script s' = [] \<and> os_now s' = os_now s \<and>
     os_files s' ack_path = Some (le 8 (word_of_nat n :: u64)) \<and>
     (\<forall>q. q \<notin> {log_path, journal_path_for_log log_path, ack_path} \<longrightarrow> os_files s' q = os_files s q) \<and>
     restores log_path s' (new_file_header (os_now s)) (batch_frames (make_records m 1 n))"

lemma child_keeps:
  assumes files: "case_files m p log_path ack_path s"
    and child: "crash_child m site c log_path ack_path s =
      (case append_batch records w s of (appended, _, s2) \<Rightarrow> (case appended of Exits code \<Rightarrow> (code, s2) | Returns _ \<Rightarrow> (72, s2)))"
    and w: "w_path w = log_path" "w_journal_path w = journal_path_for_log log_path"
    and keeps: "crash_keeps code records w s (new_file_header (os_now s)) (batch_frames (make_records m 1 p))"
  shows "\<exists>s'. crash_child m site c log_path ack_path s = (code, s') \<and> child_leaves m site p log_path ack_path s s'"
proof -
  from keeps obtain w' s' where a: "append_batch records w s = (Exits code, w', s')" and l: "leaves w s s'"
    and r: "restores log_path s' (new_file_header (os_now s)) (batch_frames (make_records m 1 p))"
    using w by (auto simp: crash_keeps_def)
  have "child_leaves m site p log_path ack_path s s'"
    using files l r w by (auto simp: child_leaves_def leaves_def case_files_def)
  with child a show ?thesis by simp
qed

lemma child_at_site:
  assumes files: "case_files m p log_path ack_path s" and drawn: "case_drawn site p b c" and site: "site \<in> set kSites"
    and tear: "si_mode site = CrashDuringCheckpointWrite \<Longrightarrow> tear_shows (os_now s) p b (cr_partial_cut c)"
  shows "\<exists>code s'. crash_child m site c log_path ack_path s = (code, s') \<and> int code = si_expected_exit site \<and>
    child_leaves m site (if si_acknowledges_new_batch site then p + b else p) log_path ack_path s s'"
proof -
  let ?h = "new_file_header (os_now s)" and ?fs = "batch_frames (make_records m 1 p)"
  let ?R = "make_records m (1 + word_of_nat p) b"
  have mode: "si_mode site \<noteq> NoFault" using site by (auto simp: kSites_def)
  obtain w j where child: "crash_child m site c log_path ack_path s =
      (case append_batch ?R w s of (appended, _, s2) \<Rightarrow> (case appended of Exits code \<Rightarrow> (code, s2) | Returns _ \<Rightarrow> (72, s2)))"
    and r: "ready ?R w s ?h ?fs j" and armed: "fault_armed ?R w" and md: "fc_mode (w_fault_config w) = si_mode site"
    and k: "fc_partial_write_bytes (w_fault_config w) = cr_partial_cut c" and a: "fc_acknowledgement_fd (w_fault_config w) = Some ack_path"
    and bounds: "checkpoint_bounds w" and w: "w_path w = log_path" "w_journal_path w = journal_path_for_log log_path"
    and g: "w_checkpoint_generation w = 2" and old: "slot_at (1 - w_active_checkpoint_slot w) j = enc_checkpoint_slot (first_slot (os_now s))"
    and all: "?fs @ batch_frames ?R = batch_frames (make_records m 1 (p + b))"
    by (rule child_opens [OF files drawn mode])
  note keeps = child_keeps [OF files child w]
  note here = r armed md
  have ack: "ack_path \<noteq> w_path w" "ack_path \<noteq> w_journal_path w" "os_files s ack_path = Some (le 8 (word_of_nat p :: u64))"
    using files w by (simp_all add: case_files_def)
  from site consider "si_mode site = CrashBeforeMainLogWrite" "si_expected_exit site = 81" "\<not> si_acknowledges_new_batch site"
    | "si_mode site = CrashDuringMainLogWrite" "si_expected_exit site = 92" "\<not> si_acknowledges_new_batch site"
    | "si_mode site = CrashAfterMainLogWrite" "si_expected_exit site = 83" "\<not> si_acknowledges_new_batch site"
    | "si_mode site = CrashAfterMainLogSync" "si_expected_exit site = 85" "\<not> si_acknowledges_new_batch site"
    | "si_mode site = CrashDuringCheckpointWrite" "si_expected_exit site = 87" "\<not> si_acknowledges_new_batch site"
    | "si_mode site = CrashAfterJournalSync" "si_expected_exit site = 90" "si_acknowledges_new_batch site"
    by (auto simp: kSites_def)
  then show ?thesis
  proof cases
    case 1
    show ?thesis using keeps [OF crash_before_write [OF r armed md [unfolded 1(1)]]] 1 by auto
  next
    case 2
    have "0 < fc_partial_write_bytes (w_fault_config w)" using drawn 2 k by (simp add: case_drawn_def)
    from keeps [OF crash_during_write [OF r armed md [unfolded 2(1)] this]] 2 show ?thesis by auto
  next
    case 3
    show ?thesis using keeps [OF crash_after_write [OF r armed md [unfolded 3(1)]]] 3 by auto
  next
    case 4
    show ?thesis using keeps [OF crash_before_checkpoint [OF r armed md [unfolded 4(1)]]] 4 by auto
  next
    case 5
    have cut: "0 < cr_partial_cut c" "cr_partial_cut c < 52" using drawn 5 by (simp_all add: case_drawn_def)
    have "commit_slot ?h (w_checkpoint_generation w + 1) (?fs @ batch_frames ?R) =
        make_slot 3 (os_now s) (word_of_nat (24 + 84 * (p + b))) (word_of_nat (p + b)) (word_of_nat (p + b))"
      unfolding all commit_slot_def make_records_seq new_file_header_start g by simp
    then have "drop (cr_partial_cut c) (enc_checkpoint_slot (commit_slot ?h (w_checkpoint_generation w + 1) (?fs @ batch_frames ?R))) \<noteq>
        drop (cr_partial_cut c) (slot_at (1 - w_active_checkpoint_slot w) j)"
      using tear [OF 5(1)] old by (simp only: tear_shows_def not_False_eq_True)
    from keeps [OF crash_during_checkpoint [OF r armed md [unfolded 5(1)] bounds k [symmetric] cut this]] 5 show ?thesis by auto
  next
    case 6
    have last: "sq_sequence (last ?R) = word_of_nat (p + b)"
      using make_records_last [of b m "1 + word_of_nat p"] drawn by (simp add: case_drawn_def of_nat_diff)
    from crash_after_acknowledgement [OF r armed md [unfolded 6(1)] bounds a ack] obtain w' s' where
      e: "append_batch ?R w s = (Exits 90, w', s')" "os_script s' = []" "os_now s' = os_now s"
      "os_files s' ack_path = Some (le 8 (sq_sequence (last ?R)))"
      "\<forall>q. q \<noteq> w_path w \<longrightarrow> q \<noteq> w_journal_path w \<longrightarrow> q \<noteq> ack_path \<longrightarrow> os_files s' q = os_files s q"
      "restores (w_path w) s' ?h (?fs @ batch_frames ?R)" by auto
    have "child_leaves m site (p + b) log_path ack_path s s'"
      using e(2-6) w unfolding last all by (auto simp: child_leaves_def)
    then show ?thesis using child e(1) 6 by auto
  qed
qed

section \<open>Every case passes\<close>

definition case_log :: "string \<Rightarrow> nat \<Rightarrow> string" where
  "case_log work_dir i = (work_dir @ ''/case-'' @ show_nat i) @ ''.bin''"

definition case_ack :: "string \<Rightarrow> nat \<Rightarrow> string" where
  "case_ack work_dir i = (work_dir @ ''/case-'' @ show_nat i) @ ''.ack''"

text \<open>The files of different cases are different, and so are those of one case.\<close>

lemma numbered_name:
  assumes "show_nat i @ c # x = show_nat k @ d # y" and "\<not> is_digit c" and "\<not> is_digit d"
  shows "i = k"
proof -
  have "takeWhile is_digit (show_nat n @ c # x) = show_nat n" if "\<not> is_digit c" for n c x
  proof -
    have "takeWhile is_digit (show_nat n @ c # x) = show_nat n @ takeWhile is_digit (c # x)"
      using show_nat_digits(1) [of n] by (intro takeWhile_append2) (auto simp: list_all_iff)
    then show ?thesis using that by simp
  qed
  from this [OF assms(2), of i x] this [OF assms(3), of k y] assms(1) have "show_nat i = show_nat k" by metis
  then show ?thesis using digits_value_show by metis
qed

definition case_names :: "string \<Rightarrow> nat \<Rightarrow> string set" where
  "case_names work_dir i = {case_log work_dir i, journal_path_for_log (case_log work_dir i), case_ack work_dir i}"

lemma case_names_apart: "i \<noteq> k \<Longrightarrow> case_names work_dir i \<inter> case_names work_dir k = {}"
  using numbered_name [of i "CHR ''.''" _ k "CHR ''.''"]
  by (auto simp: case_names_def case_log_def case_ack_def journal_path_for_log_def is_digit_def)

lemma case_ack_apart: "case_ack work_dir i \<noteq> case_log work_dir i"
  "case_ack work_dir i \<noteq> journal_path_for_log (case_log work_dir i)"
  by (simp_all add: case_log_def case_ack_def journal_path_for_log_def)

text \<open>What the case draws, for any generator.\<close>

lemma draw_case_drawn:
  assumes "site \<in> set kSites"
  shows "\<exists>p b. case_drawn site p b (draw_case m random site i)"
proof -
  let ?seed = "word_of_nat (0xC0FFEE + i * 7919) :: u32"
  obtain x1 g1 where r1: "random (mc_seed m ?seed) = (x1, g1)" by force
  obtain x2 g2 where r2: "random g1 = (x2, g2)" by force
  obtain x3 g3 where r3: "random g2 = (x3, g3)" by force
  obtain x4 g4 where r4: "random g3 = (x4, g4)" by force
  obtain x5 g5 where r5: "random g4 = (x5, g5)" by force
  let ?p = "1 + unat x1 mod 23" and ?b = "1 + unat x2 mod 8"
  have lim: "unat x1 mod 23 < 23" "unat x2 mod 8 < 8" "unat x3 mod 5 < 5" "unat x4 mod 4 < 4" "unat x5 mod 51 < 51" by simp_all
  note at = draw_case_def draw_def r1 [simplified] r2 r3 r4 r5 Let_def
  let ?c = "draw_case m random site i"
  have fields: "cr_preexisting_sequence ?c = word_of_nat ?p" "cr_batch_size ?c = ?b"
    "cr_ring_capacity ?c = ?b + (1 + unat x3 mod 5)" "cr_ring_wrap_cycles ?c = 1 + unat x4 mod 4"
    "cr_expected_sequence ?c = word_of_nat (if si_acknowledges_new_batch site then ?p + ?b else ?p)"
    by (simp_all add: at)
  have names: "si_mode site = CrashDuringMainLogWrite \<Longrightarrow> si_name site = ''during_main_write''"
    "si_mode site = CrashDuringCheckpointWrite \<Longrightarrow> si_name site = ''during_checkpoint_write''"
    using assms by (auto simp: kSites_def)
  have "cr_partial_cut ?c = 1 + unat x5 mod (?b * kPersistedRecordSize - 1)" if "si_mode site = CrashDuringMainLogWrite"
    by (simp add: at names(1) [OF that])
  moreover have "cr_partial_cut ?c = 1 + unat x5 mod 51" if "si_mode site = CrashDuringCheckpointWrite"
    by (simp add: at names(2) [OF that])
  moreover have "unat x1 mod 23 \<le> 22" "unat x2 mod 8 \<le> 7" "unat x2 mod 8 + unat x3 mod 5 \<le> 11" "unat x4 mod 4 \<le> 3"
    "unat x5 mod 51 < 51"
    using lim by linarith+
  ultimately have "case_drawn site ?p ?b ?c"
    using fields by (simp add: case_drawn_def)
  then show ?thesis by blast
qed

lemma draw_case_results: "cr_child_exit (draw_case m random site i) = - 1"
  by (simp add: draw_case_def draw_def Let_def split: prod.splits)

text \<open>The whole case on a system that does not fail.\<close>

lemma run_case_passes:
  fixes m :: "'g machine"
  assumes s: "os_script s = []" and site: "site \<in> set kSites"
    and new: "os_files s (case_log work_dir i) = None" "os_files s (journal_path_for_log (case_log work_dir i)) = None"
    and crc: "compute_checkpoint_crc (make_slot 2 (os_now s) 24 0 0) \<noteq> 0"
    and drawn: "case_drawn site p b (draw_case m random site i)"
    and tear: "si_mode site = CrashDuringCheckpointWrite \<Longrightarrow>
      tear_shows (os_now s) p b (cr_partial_cut (draw_case m random site i))"
  shows "\<exists>r s'. run_case m random work_dir site i s = (Returns r, s') \<and> cr_passed r \<and> os_script s' = [] \<and>
    os_now s' = os_now s \<and> (\<forall>q. q \<notin> case_names work_dir i \<longrightarrow> os_files s' q = os_files s q)"
proof -
  let ?c = "draw_case m random site i" and ?log = "case_log work_dir i" and ?ack = "case_ack work_dir i"
  let ?h = "new_file_header (os_now s)" and ?fs = "batch_frames (make_records m 1 p)"
  let ?n = "if si_acknowledges_new_batch site then p + b else p"
  from drawn have p: "0 < p" "p < 2 ^ 32" and c: "cr_preexisting_sequence ?c = word_of_nat p" "cr_expected_sequence ?c = word_of_nat ?n"
    and n: "?n < 2 ^ 32" by (auto simp: case_drawn_def)
  have path: "?log \<noteq> []" by (simp add: case_log_def)
  from initialize_exact [OF s new path p crc, of m] obtain w s1 where
    init: "initialize_committed_log m ?log (cr_preexisting_sequence ?c) s = (Returns True, s1)"
      "calm_to s ((os_files s)(?log \<mapsto> enc_file_header ?h @ enc_frames ?fs, journal_path_for_log ?log \<mapsto>
        enc_checkpoint_slot (first_slot (os_now s)) @ enc_checkpoint_slot (commit_slot ?h 2 ?fs))) s1"
      "writer_disk w (os_files s1) ?h ?fs (length ?fs)" "w_path w = ?log" "w_checkpoint_generation w = 2"
      "w_active_checkpoint_slot w = 1"
    unfolding c by blast
  let ?s2 = "s1\<lparr>os_files := (os_files s1)(?ack \<mapsto> le 8 (word_of_nat p :: u64)),
      os_synced := (os_synced s1)(?ack \<mapsto> le 8 (word_of_nat p :: u64))\<rparr>"
  have s1: "os_script s1 = []" "os_now s1 = os_now s" using init(2) by (simp_all add: calm_to_def)
  have ackd: "start_acknowledgement ?ack (cr_preexisting_sequence ?c) s1 = (True, ?s2)"
    using s1 by (simp add: start_acknowledgement_def os_simps c set_file_def file_bytes_def overwrite_start)
  have jp: "w_journal_path w = journal_path_for_log ?log" using init(3,4) by (simp add: writer_disk_def writer_at_def)
  have "writer_disk w (os_files ?s2) ?h ?fs (length ?fs)"
    using init(3,4) jp case_ack_apart [of work_dir i] by (simp add: writer_disk_def)
  then have files: "case_files m p ?log ?ack ?s2"
    using s1 init path case_ack_apart [of work_dir i] by (auto simp: case_files_def calm_to_def Let_def)
  from child_at_site [OF files drawn site] tear s1 obtain code s3 where
    ch: "crash_child m site ?c ?log ?ack ?s2 = (code, s3)" "int code = si_expected_exit site"
      "child_leaves m site ?n ?log ?ack ?s2 s3" by auto
  have run: "run_child m site ?c ?log ?ack ?s2 = (si_expected_exit site, s3)"
    using s1 ch(1,2) by (simp add: run_child_def os_simps)
  have s3: "os_script s3 = []" "os_now s3 = os_now s" "os_files s3 ?ack = Some (le 8 (word_of_nat ?n :: u64))"
    and other: "\<And>q. q \<notin> case_names work_dir i \<Longrightarrow> os_files s3 q = os_files s q"
    and rest: "restores ?log s3 ?h (batch_frames (make_records m 1 ?n))"
    using ch(3) s1 init(2) unfolding child_leaves_def by (auto simp: case_names_def calm_to_def)
  have rd: "read_acknowledgement ?ack s3 = (word_of_nat ?n, s3)"
    using s3 by (simp add: read_acknowledgement_def os_simps file_bytes_some un_le_le_full)
  from fresh_process_restored [OF s3(1) rest refl n new_file_header_ok] obtain v where
    v: "recover_in_fresh_process ?log s3 = (v, set_file ?log (enc_file_header ?h @ enc_frames (batch_frames (make_records m 1 ?n))) s3)"
      "rv_recovered_sequence v = word_of_nat ?n" "rv_recovered_records v = ?n" "rv_first_healthy v" "rv_second_healthy v"
      "rv_contiguous v" "rv_exact_size v" "rv_idempotent v" by blast
  let ?r = "?c\<lparr>cr_child_exit := si_expected_exit site, cr_acknowledged_sequence := word_of_nat ?n, cr_recovery := v\<rparr>"
  have "unat (word_of_nat ?n :: u64) = ?n" by (rule unat_of_nat_len) (use n in simp)
  then have "case_passed site ?r" using v c by (simp add: case_passed_def)
  moreover have "run_case m random work_dir site i s = (Returns (?r\<lparr>cr_passed := case_passed site ?r\<rparr>),
      set_file ?log (enc_file_header ?h @ enc_frames (batch_frames (make_records m 1 ?n))) s3)"
    unfolding run_case_def Let_def case_log_def [symmetric] case_ack_def [symmetric] init(1) prod.case call.case
    using ackd run rd v(1) by simp
  ultimately show ?thesis using s3 other by (auto simp: case_names_def)
qed

text \<open>The files a list of cases needs to be absent, and the draws it needs to show a torn slot.\<close>

definition cases_ready :: "'g machine \<Rightarrow> ('g \<Rightarrow> u32 \<times> 'g) \<Rightarrow> string \<Rightarrow> (nat \<times> crash_site) list \<Rightarrow> os \<Rightarrow> bool" where
  "cases_ready m random work_dir cs s \<longleftrightarrow> (\<forall>(i, site) \<in> set cs. site \<in> set kSites \<and>
     os_files s (case_log work_dir i) = None \<and> os_files s (journal_path_for_log (case_log work_dir i)) = None \<and>
     (si_mode site = CrashDuringCheckpointWrite \<longrightarrow>
       (let c = draw_case m random site i in
        tear_shows (os_now s) (unat (cr_preexisting_sequence c)) (cr_batch_size c) (cr_partial_cut c))))"

lemma run_cases_pass:
  fixes m :: "'g machine"
  assumes "os_script s = []" and "compute_checkpoint_crc (make_slot 2 (os_now s) 24 0 0) \<noteq> 0"
    and "cases_ready m random work_dir cs s" and "distinct (map fst cs)"
  shows "\<exists>rs s'. run_cases m random work_dir cs s = (Returns rs, s') \<and> length rs = length cs \<and>
    (\<forall>r \<in> set rs. cr_passed r) \<and> os_script s' = []"
  using assms
proof (induction cs arbitrary: s)
  case (Cons x cs)
  obtain i site where x: "x = (i, site)" by force
  let ?c = "draw_case m random site i"
  from Cons.prems(3) have site: "site \<in> set kSites"
    and new: "os_files s (case_log work_dir i) = None" "os_files s (journal_path_for_log (case_log work_dir i)) = None"
    and tear: "si_mode site = CrashDuringCheckpointWrite \<Longrightarrow>
      tear_shows (os_now s) (unat (cr_preexisting_sequence ?c)) (cr_batch_size ?c) (cr_partial_cut ?c)"
    and rest: "cases_ready m random work_dir cs s"
    by (auto simp: cases_ready_def x Let_def)
  from draw_case_drawn [OF site] obtain p b where drawn: "case_drawn site p b ?c" by blast
  then have "unat (cr_preexisting_sequence ?c) = p" "cr_batch_size ?c = b"
    using unat_of_nat_len [of p] by (auto simp: case_drawn_def)
  with tear have "si_mode site = CrashDuringCheckpointWrite \<Longrightarrow> tear_shows (os_now s) p b (cr_partial_cut ?c)" by simp
  from run_case_passes [OF Cons.prems(1) site new Cons.prems(2) drawn this] obtain r s1 where
    one: "run_case m random work_dir site i s = (Returns r, s1)" "cr_passed r" "os_script s1 = []" "os_now s1 = os_now s"
      "\<And>q. q \<notin> case_names work_dir i \<Longrightarrow> os_files s1 q = os_files s q" by metis
  have "os_files s1 q = os_files s q" if "q \<in> case_names work_dir k" "(k, t) \<in> set cs" for q k t
  proof -
    have "i \<noteq> k" using Cons.prems(4) that(2) x by force
    then show ?thesis using case_names_apart [of i k work_dir] that(1) one(5) by blast
  qed
  then have "cases_ready m random work_dir cs s1"
    using rest one(4) by (fastforce simp: cases_ready_def case_names_def)
  from Cons.IH [OF one(3) _ this] Cons.prems(2,4) one(4) obtain rs s2 where
    "run_cases m random work_dir cs s1 = (Returns rs, s2)" "length rs = length cs" "\<forall>r \<in> set rs. cr_passed r" "os_script s2 = []"
    by auto
  then show ?case using one(1,2) by (auto simp: x)
qed simp

lemma matrix_cases_simps: "length matrix_cases = 180" "distinct (map fst matrix_cases)"
  "(i, site) \<in> set matrix_cases \<Longrightarrow> site \<in> set kSites"
proof -
  show "length matrix_cases = 180" by (simp add: matrix_cases_def kSites_def)
  show "distinct (map fst matrix_cases)" by (simp add: matrix_cases_def)
  show "site \<in> set kSites" if "(i, site) \<in> set matrix_cases"
  proof -
    have "site \<in> set (concat (map (replicate 30) kSites))"
      using that unfolding matrix_cases_def enumerate_eq_zip by (rule set_zip_rightD)
    then show ?thesis by auto
  qed
qed

text \<open>A tear before the last sequence number of the slot always shows, as that number differs.\<close>

lemma early_tear_shows:
  assumes "0 < p + b" and "p + b < 2 ^ 32" and "k \<le> 40"
  shows "tear_shows t p b k"
proof -
  let ?N = "enc_checkpoint_slot (make_slot 3 t (word_of_nat (24 + 84 * (p + b))) (word_of_nat (p + b)) (word_of_nat (p + b)))"
  have field: "(un_le (take 8 (drop 40 (enc_checkpoint_slot x))) :: u64) = ck_last_sequence x" for x
    using slot_fields(5) [of "enc_checkpoint_slot x"] unfolding ckc.dec_enc field_def by (rule sym)
  have u: "(word_of_nat (p + b) :: u64) \<noteq> 0"
  proof
    assume "(word_of_nat (p + b) :: u64) = 0"
    then have "unat (word_of_nat (p + b) :: u64) = 0" by simp
    moreover have "unat (word_of_nat (p + b) :: u64) = p + b" by (rule unat_of_nat_len) (use assms in simp)
    ultimately show False using assms(1) by simp
  qed
  have "drop 40 ?N \<noteq> drop 40 (enc_checkpoint_slot (first_slot t))"
  proof
    assume "drop 40 ?N = drop 40 (enc_checkpoint_slot (first_slot t))"
    then have "(un_le (take 8 (drop 40 ?N)) :: u64) = un_le (take 8 (drop 40 (enc_checkpoint_slot (first_slot t))))" by simp
    then show False using u unfolding field by (simp add: first_slot_def make_slot_fields)
  qed
  moreover have "drop 40 xs = drop (40 - k) (drop k xs)" for xs :: bytes using assms(3) by simp
  ultimately show ?thesis unfolding tear_shows_def by metis
qed

section \<open>Properties\<close>



text \<open>
  The expectation of the matrix for a torn checkpoint can fail although nothing is wrong: when the
  bytes after the tear are those of the old slot, the slot is complete and recovery rightly restores
  the new batch, which the case counts as a failure.
\<close>

lemma unseen_tear_is_whole:
  assumes "\<not> tear_shows t p b k" and "k \<le> 52"
  shows "torn k (enc_checkpoint_slot (make_slot 3 t (word_of_nat (24 + 84 * (p + b))) (word_of_nat (p + b)) (word_of_nat (p + b))))
    (enc_checkpoint_slot (first_slot t)) =
    enc_checkpoint_slot (make_slot 3 t (word_of_nat (24 + 84 * (p + b))) (word_of_nat (p + b)) (word_of_nat (p + b)))"
  using assms(1) append_take_drop_id unfolding tear_shows_def torn_def by metis

end
