(* ===== verification/Queue_Benchmark.thy ===== *)
theory Queue_Benchmark
  imports Ring_Concurrent Platform_Info
begin

text \<open>
  The queue benchmark, \<open>queue_benchmark.cpp\<close>: a producer thread that pushes numbered records and
  then closes the queue, and a consumer that counts them and checks their order. Both run on the
  interleaved queue of \<open>Ring_Concurrent\<close>, so a call is entered, goes on access by access, and
  returns. What the clock measures is a parameter.
\<close>

section \<open>The command line\<close>

record queue_options =
  qo_total_records :: u64
  qo_capacity :: u64
  qo_batch_size :: u64

definition queue_argument :: "nat \<Rightarrow> u64 \<Rightarrow> string list \<Rightarrow> u64 option" where
  "queue_argument n d args = (if n < length args then stoull (args ! n) else Some d)"

definition parse_queue_options :: "string list \<Rightarrow> queue_options option" where
  "parse_queue_options args =
    (case queue_argument 0 5000000 args of None \<Rightarrow> None
     | Some total_records \<Rightarrow> (case queue_argument 1 65536 args of None \<Rightarrow> None
     | Some capacity \<Rightarrow> (case queue_argument 2 256 args of None \<Rightarrow> None
     | Some batch_size \<Rightarrow>
         if total_records = 0 \<or> capacity = 0 \<or> batch_size = 0 then None
         else Some \<lparr>qo_total_records = total_records, qo_capacity = capacity, qo_batch_size = batch_size\<rparr>)))"

definition queue_usage :: tool_run where
  "queue_usage = \<lparr>tr_code = 1, tr_stdout = [],
     tr_stderr = ''Usage: queue_benchmark [records>0] [capacity>0] [batch_size>0]'' @ newline\<rparr>"

section \<open>The two threads\<close>

datatype bench_producer = BP_Next | BP_Pushing | BP_Close | BP_Closing | BP_Ended

datatype bench_consumer = BC_Pop | BC_Popping | BC_Batch | BC_Batching | BC_Ended

text \<open>\<open>qb_index\<close> and \<open>qb_consumed\<close> count without bound; the code's 64-bit variables are their values
  modulo \<open>2\<^sup>6\<^sup>4\<close>.\<close>

record queue_bench =
  qb_queue :: conc
  qb_producer :: bench_producer
  qb_index :: nat
  qb_consumer :: bench_consumer
  qb_consumed :: nat
  qb_ordered :: bool

definition start_queue_bench :: "queue_options \<Rightarrow> queue_bench" where
  "start_queue_bench opt = \<lparr>qb_queue = start_state (qo_capacity opt), qb_producer = BP_Next, qb_index = 1,
     qb_consumer = BC_Pop, qb_consumed = 0, qb_ordered = True\<rparr>"

definition bench_record :: "nat \<Rightarrow> flight_record" where
  "bench_record index = default_flight_record\<lparr>timestamp_us := word_of_nat index\<rparr>"

text \<open>The counting of one record, and of all a call delivered.\<close>

definition count_record :: "flight_record \<Rightarrow> queue_bench \<Rightarrow> queue_bench" where
  "count_record x s = s\<lparr>qb_ordered := qb_ordered s \<and> timestamp_us x = word_of_nat (qb_consumed s + 1),
     qb_consumed := qb_consumed s + 1\<rparr>"

definition first_out :: "conc \<Rightarrow> flight_record" where
  "first_out q = (case cs_out q of [] \<Rightarrow> default_flight_record | x # _ \<Rightarrow> x)"

inductive queue_bench_step :: "queue_options \<Rightarrow> queue_bench \<Rightarrow> queue_bench \<Rightarrow> bool" for opt where
  qb_push: "qb_producer s = BP_Next \<Longrightarrow> (word_of_nat (qb_index s) :: u64) \<le> qo_total_records opt \<Longrightarrow> cs_producer (qb_queue s) = P_Idle \<Longrightarrow>
    queue_bench_step opt s (s\<lparr>qb_producer := BP_Pushing, qb_queue := (qb_queue s)
      \<lparr>cs_producer := P_Closed (bench_record (qb_index s)), cs_producer_wait := Wait_Blocking, cs_push_result := None\<rparr>\<rparr>)"
| qb_push_step: "qb_producer s = BP_Pushing \<Longrightarrow> cs_producer (qb_queue s) \<noteq> P_Idle \<Longrightarrow> producer_step (qb_queue s) q \<Longrightarrow>
    queue_bench_step opt s (s\<lparr>qb_queue := q\<rparr>)"
| qb_pushed: "qb_producer s = BP_Pushing \<Longrightarrow> cs_producer (qb_queue s) = P_Idle \<Longrightarrow>
    cs_push_result (qb_queue s) = Some Pushed \<Longrightarrow>
    queue_bench_step opt s (s\<lparr>qb_producer := BP_Next, qb_index := qb_index s + 1\<rparr>)"
| qb_refused: "qb_producer s = BP_Pushing \<Longrightarrow> cs_producer (qb_queue s) = P_Idle \<Longrightarrow>
    cs_push_result (qb_queue s) \<noteq> Some Pushed \<Longrightarrow> queue_bench_step opt s (s\<lparr>qb_producer := BP_Close\<rparr>)"
| qb_all_pushed: "qb_producer s = BP_Next \<Longrightarrow> \<not> (word_of_nat (qb_index s) :: u64) \<le> qo_total_records opt \<Longrightarrow>
    queue_bench_step opt s (s\<lparr>qb_producer := BP_Close\<rparr>)"
| qb_close: "qb_producer s = BP_Close \<Longrightarrow> cs_closer (qb_queue s) = K_Idle \<Longrightarrow>
    queue_bench_step opt s (s\<lparr>qb_producer := BP_Closing, qb_queue := (qb_queue s)\<lparr>cs_closer := K_Lock\<rparr>\<rparr>)"
| qb_close_step: "qb_producer s = BP_Closing \<Longrightarrow> cs_closer (qb_queue s) \<noteq> K_Idle \<Longrightarrow> closer_step (qb_queue s) q \<Longrightarrow>
    queue_bench_step opt s (s\<lparr>qb_queue := q\<rparr>)"
| qb_closed: "qb_producer s = BP_Closing \<Longrightarrow> cs_closer (qb_queue s) = K_Idle \<Longrightarrow>
    queue_bench_step opt s (s\<lparr>qb_producer := BP_Ended\<rparr>)"
| qb_pop: "qb_consumer s = BC_Pop \<Longrightarrow> cs_consumer (qb_queue s) = C_Idle \<Longrightarrow>
    queue_bench_step opt s (s\<lparr>qb_consumer := BC_Popping, qb_queue := (qb_queue s)
      \<lparr>cs_consumer := C_Head, cs_consumer_wait := Wait_Blocking, cs_out := [], cs_pop_result := None\<rparr>\<rparr>)"
| qb_pop_step: "qb_consumer s = BC_Popping \<Longrightarrow> cs_consumer (qb_queue s) \<noteq> C_Idle \<Longrightarrow> consumer_step (qb_queue s) q \<Longrightarrow>
    queue_bench_step opt s (s\<lparr>qb_queue := q\<rparr>)"
| qb_popped: "qb_consumer s = BC_Popping \<Longrightarrow> cs_consumer (qb_queue s) = C_Idle \<Longrightarrow>
    cs_pop_result (qb_queue s) \<noteq> Some Pop_Closed \<Longrightarrow>
    queue_bench_step opt s ((count_record (first_out (qb_queue s)) s)\<lparr>qb_consumer := BC_Batch\<rparr>)"
| qb_end: "qb_consumer s = BC_Popping \<Longrightarrow> cs_consumer (qb_queue s) = C_Idle \<Longrightarrow>
    cs_pop_result (qb_queue s) = Some Pop_Closed \<Longrightarrow> queue_bench_step opt s (s\<lparr>qb_consumer := BC_Ended\<rparr>)"
| qb_batch: "qb_consumer s = BC_Batch \<Longrightarrow> cs_consumer (qb_queue s) = C_Idle \<Longrightarrow> qo_batch_size opt \<noteq> 0 \<Longrightarrow>
    queue_bench_step opt s (s\<lparr>qb_consumer := BC_Batching, qb_queue := (qb_queue s)
      \<lparr>cs_consumer := C_Batch_Head (qo_batch_size opt), cs_out := [], cs_pop_result := None\<rparr>\<rparr>)"
| qb_batch_step: "qb_consumer s = BC_Batching \<Longrightarrow> cs_consumer (qb_queue s) \<noteq> C_Idle \<Longrightarrow> consumer_step (qb_queue s) q \<Longrightarrow>
    queue_bench_step opt s (s\<lparr>qb_queue := q\<rparr>)"
| qb_batched: "qb_consumer s = BC_Batching \<Longrightarrow> cs_consumer (qb_queue s) = C_Idle \<Longrightarrow>
    queue_bench_step opt s ((fold count_record (cs_out (qb_queue s)) s)\<lparr>qb_consumer := BC_Pop\<rparr>)"

inductive queue_bench_run :: "queue_options \<Rightarrow> queue_bench \<Rightarrow> bool" for opt where
  qr_start: "queue_bench_run opt (start_queue_bench opt)"
| qr_step: "queue_bench_run opt s \<Longrightarrow> queue_bench_step opt s s' \<Longrightarrow> queue_bench_run opt s'"

text \<open>After both threads have ended. \<open>elapsed\<close> and \<open>rate\<close> are the printed duration and records per second.\<close>

definition queue_bench_report :: "host \<Rightarrow> string \<Rightarrow> string \<Rightarrow> queue_options \<Rightarrow> queue_bench \<Rightarrow> tool_run" where
  "queue_bench_report h elapsed rate opt s =
    (let stats = ring_statistics (cs_ring (qb_queue s)) in
     \<lparr>tr_code = (if word_of_nat (qb_consumed s) = qo_total_records opt \<and> qb_ordered s \<and> rs_dropped_records stats = 0 then 0 else 2),
       tr_stdout = ''{'' @ quote @ ''benchmark_kind'' @ quote @ '':'' @ quote @ ''queue_only_diagnostic'' @ quote @ '','' @
         quote @ ''records'' @ quote @ '':'' @ show_word (word_of_nat (qb_consumed s) :: u64) @ '','' @
         quote @ ''elapsed_seconds'' @ quote @ '':'' @ elapsed @ '','' @
         quote @ ''records_per_second'' @ quote @ '':'' @ rate @ '','' @
         quote @ ''capacity'' @ quote @ '':'' @ show_word (qo_capacity opt) @ '','' @
         quote @ ''batch_size'' @ quote @ '':'' @ show_word (qo_batch_size opt) @ '','' @
         quote @ ''dropped_records'' @ quote @ '':'' @ show_word (rs_dropped_records stats) @ '','' @
         quote @ ''ordered'' @ quote @ '':'' @ show_bool (qb_ordered s) @ '','' @
         quote @ ''platform'' @ quote @ '':'' @ platform_info_json (collect_platform_info h ''.'') @ ''}'' @ newline,
       tr_stderr = []\<rparr>)"

section \<open>The order of what is consumed\<close>

lemma run_reachable: "queue_bench_run opt s \<Longrightarrow> reachable (qo_capacity opt) (qb_queue s)"
proof (induction rule: queue_bench_run.induct)
  case qr_start
  show ?case unfolding start_queue_bench_def by (simp add: reach_start)
next
  case (qr_step s s')
  have keep: "qb_queue (fold count_record xs s) = qb_queue s" for xs s
    by (induction xs arbitrary: s) (simp_all add: count_record_def)
  have one: "qb_queue (count_record x s) = qb_queue s" for x s by (simp add: count_record_def)
  from qr_step(2,3) show ?case
    by cases (auto simp: keep one intro: reach_producer reach_consumer reach_closer p_call k_call c_call c_batch_call)
qed

text \<open>The records published are numbered from one; the call under way pushes the next.\<close>

definition pushes :: "flight_record \<Rightarrow> producer_pc \<Rightarrow> bool" where
  "pushes x pc \<longleftrightarrow> (case pc of P_Closed y \<Rightarrow> y = x | P_Tail y \<Rightarrow> y = x | P_Head y _ \<Rightarrow> y = x | P_Slot y _ _ \<Rightarrow> y = x
     | P_Lock y _ _ \<Rightarrow> y = x | P_Publish y _ _ \<Rightarrow> y = x | P_Want y \<Rightarrow> y = x | P_Check y \<Rightarrow> y = x | P_Asleep y \<Rightarrow> y = x
     | _ \<Rightarrow> False)"

definition has_pushed :: "conc \<Rightarrow> bool" where
  "has_pushed q \<longleftrightarrow> (case cs_producer q of P_Unlock _ _ \<Rightarrow> True | P_Mark _ \<Rightarrow> True | P_Exchange _ _ \<Rightarrow> True | P_Notify \<Rightarrow> True
     | P_Idle \<Rightarrow> cs_push_result q = Some Pushed | _ \<Rightarrow> False)"

definition numbered :: "nat \<Rightarrow> flight_record list" where
  "numbered n = map bench_record [1..<n]"

definition producing_at :: "nat \<Rightarrow> nat \<Rightarrow> bool \<Rightarrow> conc \<Rightarrow> bool" where
  "producing_at n i pushing q \<longleftrightarrow> 0 < i \<and> i \<le> n + 1 \<and> rb_dropped_records (cs_ring q) = 0 \<and>
     (pushing \<longrightarrow> i \<le> n \<and> cs_producer_wait q = Wait_Blocking \<and>
        (has_pushed q \<longrightarrow> cs_sent q = numbered (i + 1)) \<and>
        (\<not> has_pushed q \<longrightarrow> cs_sent q = numbered i \<and> (cs_producer q = P_Idle \<or> pushes (bench_record i) (cs_producer q)))) \<and>
     (\<not> pushing \<longrightarrow> cs_producer q = P_Idle \<and> cs_sent q = numbered i)"

definition producing :: "queue_options \<Rightarrow> queue_bench \<Rightarrow> bool" where
  "producing opt s = producing_at (unat (qo_total_records opt)) (qb_index s) (qb_producer s = BP_Pushing) (qb_queue s)"

lemma numbered_Suc: "0 < n \<Longrightarrow> numbered (Suc n) = numbered n @ [bench_record n]"
  by (cases n) (simp_all add: numbered_def)

text \<open>What the other thread and a close do leaves the producer's part alone.\<close>

definition same_producer :: "conc \<Rightarrow> conc \<Rightarrow> bool" where
  "same_producer q q' \<longleftrightarrow> cs_sent q' = cs_sent q \<and> cs_producer_wait q' = cs_producer_wait q \<and>
     cs_push_result q' = cs_push_result q \<and> rb_dropped_records (cs_ring q') = rb_dropped_records (cs_ring q) \<and>
     (cs_producer q' = cs_producer q \<or> (\<exists>x. cs_producer q = P_Asleep x \<and> cs_producer q' = P_Want x))"

lemma notify_space_producer: "same_producer q (notify_space q)"
  by (simp add: same_producer_def notify_space_def split: producer_pc.split)

lemma consumer_step_same: "consumer_step q q' \<Longrightarrow> same_producer q q'"
proof (induction rule: consumer_step.induct)
  case (c_notify s)
  show ?case using notify_space_producer [of s] by (simp add: same_producer_def)
qed (simp_all add: same_producer_def)

lemma closer_step_same: "closer_step q q' \<Longrightarrow> same_producer q q'"
proof (induction rule: closer_step.induct)
  case (k_space s)
  show ?case using notify_space_producer [of s] by (simp add: same_producer_def)
qed (simp_all add: same_producer_def notify_data_def)

lemma same_producer_at: "producing_at n i pushing q \<Longrightarrow> same_producer q q' \<Longrightarrow> producing_at n i pushing q'"
  by (auto simp: producing_at_def same_producer_def has_pushed_def pushes_def split: producer_pc.splits)

lemma push_step_before:
  assumes "producer_step q q'" and "cs_producer_wait q = Wait_Blocking" and "\<not> has_pushed q" and "pushes x (cs_producer q)"
  shows "cs_producer_wait q' = Wait_Blocking \<and> rb_dropped_records (cs_ring q') = rb_dropped_records (cs_ring q) \<and>
    (if has_pushed q' then cs_sent q' = cs_sent q @ [x]
     else cs_sent q' = cs_sent q \<and> (cs_producer q' = P_Idle \<or> pushes x (cs_producer q')))"
  using assms by cases (simp_all add: has_pushed_def pushes_def)

lemma push_step_after:
  assumes "producer_step q q'" and "cs_producer_wait q = Wait_Blocking" and "has_pushed q" and "cs_producer q \<noteq> P_Idle"
  shows "cs_producer_wait q' = Wait_Blocking \<and> rb_dropped_records (cs_ring q') = rb_dropped_records (cs_ring q) \<and>
    has_pushed q' \<and> cs_sent q' = cs_sent q"
  using assms by cases (simp_all add: has_pushed_def)

lemma count_record_simps [simp]:
  "qb_queue (count_record x s) = qb_queue s" "qb_producer (count_record x s) = qb_producer s"
  "qb_index (count_record x s) = qb_index s" "qb_consumer (count_record x s) = qb_consumer s"
  by (simp_all add: count_record_def)

lemma fold_count_simps [simp]:
  "qb_queue (fold count_record xs s) = qb_queue s" "qb_producer (fold count_record xs s) = qb_producer s"
  "qb_index (fold count_record xs s) = qb_index s" "qb_consumer (fold count_record xs s) = qb_consumer s"
  by (induction xs arbitrary: s) simp_all

lemma push_step_at:
  assumes "producing_at n i True q" and "cs_producer q \<noteq> P_Idle" and "producer_step q q'"
  shows "producing_at n i True q'"
proof -
  have w: "cs_producer_wait q = Wait_Blocking" using assms(1) by (simp add: producing_at_def)
  show ?thesis
  proof (cases "has_pushed q")
    case True
    from push_step_after [OF assms(3) w True assms(2)] assms(1) True show ?thesis by (simp add: producing_at_def)
  next
    case False
    then have "pushes (bench_record i) (cs_producer q)" using assms(1,2) by (simp add: producing_at_def)
    from push_step_before [OF assms(3) w False this] assms(1) False show ?thesis
      by (auto simp: producing_at_def numbered_Suc split: if_splits)
  qed
qed

text \<open>The loop over \<open>index\<close> ends unless as many records are asked for as a 64-bit word can count.\<close>

abbreviation ends :: "queue_options \<Rightarrow> bool" where
  "ends opt \<equiv> unat (qo_total_records opt) + 1 < 2 ^ 64"

lemma index_in_range:
  assumes "ends opt" and "i \<le> unat (qo_total_records opt) + 1"
  shows "(word_of_nat i :: u64) \<le> qo_total_records opt \<longleftrightarrow> i \<le> unat (qo_total_records opt)"
proof -
  have "unat (word_of_nat i :: u64) = i" using assms by (simp add: unat_of_nat take_bit_nat_eq_self)
  then show ?thesis by (simp add: word_le_nat_alt)
qed

lemma producing_step:
  assumes "queue_bench_step opt s s'" and "producing opt s" and "ends opt"
  shows "producing opt s'"
  using assms(1)
proof cases
  case qb_push
  with assms(2) index_in_range [OF assms(3), of "qb_index s"] show ?thesis
    by (simp add: producing_def producing_at_def has_pushed_def pushes_def)
next
  case (qb_push_step q)
  with assms(2) push_step_at show ?thesis by (simp add: producing_def)
next
  case (qb_close_step q)
  with assms(2) same_producer_at [OF _ closer_step_same [of "qb_queue s" q]] show ?thesis by (simp add: producing_def)
next
  case (qb_pop_step q)
  with assms(2) same_producer_at [OF _ consumer_step_same [of "qb_queue s" q]] show ?thesis by (simp add: producing_def)
next
  case (qb_batch_step q)
  with assms(2) same_producer_at [OF _ consumer_step_same [of "qb_queue s" q]] show ?thesis by (simp add: producing_def)
next
  case qb_pop
  with assms(2) show ?thesis unfolding producing_def by simp (erule same_producer_at, simp add: same_producer_def)
next
  case qb_batch
  with assms(2) show ?thesis unfolding producing_def by simp (erule same_producer_at, simp add: same_producer_def)
next
  case qb_close
  with assms(2) show ?thesis unfolding producing_def by simp (erule same_producer_at, simp add: same_producer_def)
qed (use assms(2) in \<open>simp_all add: producing_def producing_at_def has_pushed_def pushes_def\<close>)

lemma run_producing: "queue_bench_run opt s \<Longrightarrow> ends opt \<Longrightarrow> producing opt s"
proof (induction rule: queue_bench_run.induct)
  case qr_start
  show ?case by (simp add: producing_def producing_at_def start_queue_bench_def start_state_def make_ring_def numbered_def)
qed (rule producing_step)

text \<open>What the call under way has taken and the consumer has not counted yet.\<close>

definition uncounted :: "bench_consumer \<Rightarrow> conc \<Rightarrow> flight_record list" where
  "uncounted c q = (if c \<in> {BC_Popping, BC_Batching} \<and> cs_consumer q \<in> {C_Unlock, C_Notify, C_Idle} then cs_out q else [])"

definition popping_ok :: "conc \<Rightarrow> bool" where
  "popping_ok q \<longleftrightarrow> cs_consumer_wait q = Wait_Blocking \<and> (case cs_consumer q of
       C_Idle \<Rightarrow> (cs_pop_result q = Some Pop_Closed \<longrightarrow> cs_out q = []) \<and>
         (cs_pop_result q \<noteq> Some Pop_Closed \<longrightarrow> length (cs_out q) = 1)
     | C_Lock _ _ \<Rightarrow> length (cs_out q) = 1 | C_Publish _ _ \<Rightarrow> length (cs_out q) = 1 | C_Unlock \<Rightarrow> length (cs_out q) = 1
     | C_Notify \<Rightarrow> length (cs_out q) = 1
     | C_Batch_Head _ \<Rightarrow> False | C_Batch_Tail _ _ \<Rightarrow> False | C_Batch_Read _ _ _ \<Rightarrow> False
     | _ \<Rightarrow> cs_out q = [])"

definition batching_ok :: "conc \<Rightarrow> bool" where
  "batching_ok q \<longleftrightarrow> (case cs_consumer q of
       C_Batch_Head _ \<Rightarrow> cs_out q = [] | C_Batch_Tail _ _ \<Rightarrow> cs_out q = []
     | C_Batch_Read _ count index \<Rightarrow> index \<le> count \<and> (cs_out q = [] \<or> index \<noteq> 0)
     | C_Idle \<Rightarrow> True | C_Lock _ _ \<Rightarrow> True | C_Publish _ _ \<Rightarrow> True | C_Unlock \<Rightarrow> True | C_Notify \<Rightarrow> True
     | _ \<Rightarrow> False)"

definition consuming_at :: "bench_consumer \<Rightarrow> nat \<Rightarrow> conc \<Rightarrow> bool" where
  "consuming_at c n q \<longleftrightarrow> (\<exists>counted. cs_received q = counted @ uncounted c q \<and> length counted = n) \<and>
     (case c of BC_Popping \<Rightarrow> popping_ok q | BC_Batching \<Rightarrow> batching_ok q | _ \<Rightarrow> cs_consumer q = C_Idle)"

definition consuming :: "queue_bench \<Rightarrow> bool" where
  "consuming s = consuming_at (qb_consumer s) (qb_consumed s) (qb_queue s)"

definition same_consumer :: "conc \<Rightarrow> conc \<Rightarrow> bool" where
  "same_consumer q q' \<longleftrightarrow> cs_received q' = cs_received q \<and> cs_consumer_wait q' = cs_consumer_wait q \<and> cs_out q' = cs_out q \<and>
     cs_pop_result q' = cs_pop_result q \<and>
     (cs_consumer q' = cs_consumer q \<or> cs_consumer q = C_Asleep \<and> cs_consumer q' = C_Want)"

lemma notify_data_consumer: "same_consumer q (notify_data q)"
  by (simp add: same_consumer_def notify_data_def)

lemma producer_step_same: "producer_step q q' \<Longrightarrow> same_consumer q q'"
proof (induction rule: producer_step.induct)
  case (p_notify s)
  show ?case using notify_data_consumer [of s] by (simp add: same_consumer_def)
qed (simp_all add: same_consumer_def)

lemma closer_step_consumer: "closer_step q q' \<Longrightarrow> same_consumer q q'"
proof (induction rule: closer_step.induct)
  case (k_data s)
  show ?case using notify_data_consumer [of s] by (simp add: same_consumer_def)
qed (simp_all add: same_consumer_def notify_space_def split: producer_pc.split)

lemma same_consumer_at: "consuming_at c n q \<Longrightarrow> same_consumer q q' \<Longrightarrow> consuming_at c n q'"
  by (auto simp: consuming_at_def same_consumer_def uncounted_def popping_ok_def batching_ok_def
      split: bench_consumer.splits consumer_pc.splits)

lemma notify_space_wait [simp]: "cs_consumer_wait (notify_space q) = cs_consumer_wait q"
  by (simp add: notify_space_def split: producer_pc.split)

lemma index_below: "index < count \<Longrightarrow> index + 1 \<le> (count :: u64) \<and> index + 1 \<noteq> 0"
proof -
  assume less: "index < count"
  have "unat count < 2 ^ LENGTH(64)" by (rule unsigned_less)
  with less have u: "unat (index + 1) = unat index + 1" by (intro unat_succ) (simp add: word_less_nat_alt)
  then have "index + 1 \<noteq> 0" by auto
  with less u show ?thesis by (simp add: word_less_nat_alt word_le_nat_alt)
qed

lemma pop_step_at:
  assumes "consuming_at BC_Popping n q" and "cs_consumer q \<noteq> C_Idle" and "consumer_step q q'"
  shows "consuming_at BC_Popping n q'"
  using assms(3,1,2) by cases (auto simp: consuming_at_def uncounted_def popping_ok_def)

lemma batch_step_at:
  assumes "consuming_at BC_Batching n q" and "cs_consumer q \<noteq> C_Idle" and "consumer_step q q'"
  shows "consuming_at BC_Batching n q'"
  using assms(3)
proof cases
  case (c_batch_read head count index)
  from index_below [OF this(3)] c_batch_read assms(1) show ?thesis by (auto simp: consuming_at_def uncounted_def batching_ok_def)
qed (use assms(1,2) in \<open>auto simp: consuming_at_def uncounted_def batching_ok_def word_le_nat_alt unat_eq_zero\<close>)

lemma fold_count_consumed [simp]: "qb_consumed (fold count_record xs s) = qb_consumed s + length xs"
  by (induction xs arbitrary: s) (simp_all add: count_record_def)

lemma first_out_one: "length (cs_out q) = 1 \<Longrightarrow> cs_out q = [first_out q]"
  by (auto simp: first_out_def length_Suc_conv)

lemma consuming_step:
  assumes "queue_bench_step opt s s'" and "consuming s"
  shows "consuming s'"
  using assms
proof cases
  case qb_push
  with assms(2) show ?thesis unfolding consuming_def by simp (erule same_consumer_at, simp add: same_consumer_def)
next
  case (qb_push_step q)
  with assms(2) same_consumer_at [OF _ producer_step_same [of "qb_queue s" q]] show ?thesis by (simp add: consuming_def)
next
  case qb_close
  with assms(2) show ?thesis unfolding consuming_def by simp (erule same_consumer_at, simp add: same_consumer_def)
next
  case (qb_close_step q)
  with assms(2) same_consumer_at [OF _ closer_step_consumer [of "qb_queue s" q]] show ?thesis by (simp add: consuming_def)
next
  case (qb_pop_step q)
  with assms(2) pop_step_at show ?thesis by (simp add: consuming_def)
next
  case (qb_batch_step q)
  with assms(2) batch_step_at show ?thesis by (simp add: consuming_def)
next
  case qb_popped
  with assms(2) show ?thesis
    by (auto simp: consuming_def consuming_at_def uncounted_def popping_ok_def count_record_def)
next
  case qb_batched
  with assms(2) show ?thesis by (auto simp: consuming_def consuming_at_def uncounted_def batching_ok_def)
qed (auto simp: consuming_def consuming_at_def uncounted_def popping_ok_def batching_ok_def)

lemma run_consuming: "queue_bench_run opt s \<Longrightarrow> consuming s"
proof (induction rule: queue_bench_run.induct)
  case qr_start
  show ?case by (simp add: consuming_def consuming_at_def uncounted_def start_queue_bench_def start_state_def)
qed (rule consuming_step)

text \<open>So what is counted is the records from one on, in order.\<close>

lemma run_core:
  assumes "queue_bench_run opt s" and "ends opt"
  shows "core_inv (qo_capacity opt) (qb_queue s)" and "length (cs_sent (qb_queue s)) \<le> unat (qo_total_records opt)"
proof -
  have "producing opt s" by (rule run_producing [OF assms])
  then show len: "length (cs_sent (qb_queue s)) \<le> unat (qo_total_records opt)"
    by (cases "qb_producer s = BP_Pushing"; cases "has_pushed (qb_queue s)")
      (auto simp: producing_def producing_at_def numbered_def)
  have "unat (qo_total_records opt) < 2 ^ LENGTH(64)" by (rule unsigned_less)
  with len show "core_inv (qo_capacity opt) (qb_queue s)"
    by (intro reachable_core [OF run_reachable [OF assms(1)]]) simp
qed

lemma run_received:
  assumes "queue_bench_run opt s" and "ends opt"
  shows "cs_received (qb_queue s) = numbered (length (cs_received (qb_queue s)) + 1)"
    and "length (cs_received (qb_queue s)) \<le> unat (qo_total_records opt)"
proof -
  let ?q = "qb_queue s" and ?n = "length (cs_received (qb_queue s))"
  have le: "?n \<le> length (cs_sent ?q)" and pre: "take ?n (cs_sent ?q) = cs_received ?q"
    using run_core(1) [OF assms] by (auto simp: core_simps)
  have "\<exists>k>0. cs_sent ?q = numbered k"
    using run_producing [OF assms] by (cases "qb_producer s = BP_Pushing"; cases "has_pushed ?q")
      (auto simp: producing_def producing_at_def)
  then obtain k where k: "0 < k" "cs_sent ?q = numbered k" by blast
  have "take ?n (numbered k) = numbered (?n + 1)"
    using le k by (simp add: numbered_def take_map)
  with pre k show "cs_received ?q = numbered (?n + 1)" by simp
  show "?n \<le> unat (qo_total_records opt)" using le run_core(2) [OF assms] by simp
qed

lemma fold_count_ordered:
  "qb_ordered s \<Longrightarrow> \<forall>i<length xs. timestamp_us (xs ! i) = word_of_nat (qb_consumed s + i + 1) \<Longrightarrow>
    qb_ordered (fold count_record xs s)"
proof (induction xs arbitrary: s)
  case (Cons x xs)
  have "timestamp_us x = word_of_nat (qb_consumed s + 1)" using Cons.prems(2) by force
  moreover have "\<forall>i<length xs. timestamp_us (xs ! i) = word_of_nat (qb_consumed (count_record x s) + i + 1)"
  proof (intro allI impI)
    fix i
    assume "i < length xs"
    with Cons.prems(2) [rule_format, of "Suc i"]
    show "timestamp_us (xs ! i) = word_of_nat (qb_consumed (count_record x s) + i + 1)"
      by (simp add: count_record_def algebra_simps)
  qed
  ultimately show ?case using Cons.IH [of "count_record x s"] Cons.prems(1) by (simp add: count_record_def)
qed simp

text \<open>What is about to be counted follows in number what was counted before.\<close>

lemma numbered_nth: "k + 1 < n \<Longrightarrow> numbered n ! k = bench_record (k + 1)"
  by (simp add: numbered_def)

lemma uncounted_numbers:
  assumes "queue_bench_run opt s" and "ends opt" and "i < length (uncounted (qb_consumer s) (qb_queue s))"
  shows "timestamp_us (uncounted (qb_consumer s) (qb_queue s) ! i) = word_of_nat (qb_consumed s + i + 1)"
proof -
  let ?u = "uncounted (qb_consumer s) (qb_queue s)" and ?r = "cs_received (qb_queue s)"
  from run_consuming [OF assms(1)] obtain counted where r: "?r = counted @ ?u" "length counted = qb_consumed s"
    by (auto simp: consuming_def consuming_at_def)
  have "?u ! i = ?r ! (qb_consumed s + i)" using r by (metis nth_append_length_plus)
  also have "\<dots> = numbered (length ?r + 1) ! (qb_consumed s + i)" using run_received(1) [OF assms(1,2)] by simp
  also have "\<dots> = bench_record (qb_consumed s + i + 1)"
    using assms(3) arg_cong [OF r(1), of length] r(2) by (intro numbered_nth) simp
  finally show ?thesis by (simp add: bench_record_def)
qed

lemma run_ordered: "queue_bench_run opt s \<Longrightarrow> ends opt \<Longrightarrow> qb_ordered s"
proof (induction rule: queue_bench_run.induct)
  case qr_start
  show ?case by (simp add: start_queue_bench_def)
next
  case (qr_step s s')
  note numbers = uncounted_numbers [OF qr_step(1,4)]
  have ord: "qb_ordered s" by (rule qr_step(3) [OF qr_step(4)])
  from qr_step(2) show ?case
  proof cases
    case qb_popped
    with run_consuming [OF qr_step(1)] have one: "cs_out (qb_queue s) = [first_out (qb_queue s)]"
      by (intro first_out_one) (simp add: consuming_def consuming_at_def popping_ok_def)
    have "uncounted (qb_consumer s) (qb_queue s) = cs_out (qb_queue s)" using qb_popped by (simp add: uncounted_def)
    with numbers [of 0] one have "timestamp_us (first_out (qb_queue s)) = word_of_nat (qb_consumed s + 1)" by auto
    with qb_popped ord show ?thesis by (simp add: count_record_def)
  next
    case qb_batched
    then have "uncounted (qb_consumer s) (qb_queue s) = cs_out (qb_queue s)" by (simp add: uncounted_def)
    with numbers have "\<forall>i<length (cs_out (qb_queue s)). timestamp_us (cs_out (qb_queue s) ! i) = word_of_nat (qb_consumed s + i + 1)"
      by simp
    from fold_count_ordered [OF ord this] qb_batched show ?thesis by simp
  qed (use ord in simp_all)
qed

text \<open>Nothing is closed before the last push, so no push is refused and all the records are pushed.\<close>

definition closing_at :: "nat \<Rightarrow> nat \<Rightarrow> bench_producer \<Rightarrow> conc \<Rightarrow> bool" where
  "closing_at n i pp q \<longleftrightarrow>
     (pp \<in> {BP_Next, BP_Pushing, BP_Close} \<longrightarrow> cs_closer q = K_Idle \<and> \<not> rb_closed (cs_ring q)) \<and>
     (pp = BP_Pushing \<and> cs_producer q = P_Idle \<longrightarrow> cs_push_result q = Some Pushed) \<and>
     (pp \<in> {BP_Close, BP_Closing, BP_Ended} \<longrightarrow> i = n + 1)"

definition closing :: "queue_options \<Rightarrow> queue_bench \<Rightarrow> bool" where
  "closing opt s = closing_at (unat (qo_total_records opt)) (qb_index s) (qb_producer s) (qb_queue s)"

lemma consumer_step_open:
  "consumer_step q q' \<Longrightarrow> rb_closed (cs_ring q') = rb_closed (cs_ring q) \<and> cs_closer q' = cs_closer q"
  by (induction rule: consumer_step.induct) simp_all

lemma consumer_step_closing: "consumer_step q q' \<Longrightarrow> closing_at n i pp q \<Longrightarrow> closing_at n i pp q'"
  using consumer_step_open [of q q'] consumer_step_same [of q q'] by (auto simp: closing_at_def same_producer_def)

lemma push_step_open:
  assumes "producer_step q q'" and "cs_producer q \<noteq> P_Idle" and "cs_producer_wait q = Wait_Blocking"
    and "\<not> rb_closed (cs_ring q)"
  shows "\<not> rb_closed (cs_ring q') \<and> cs_closer q' = cs_closer q \<and>
    (cs_producer q' = P_Idle \<longrightarrow> cs_push_result q' = Some Pushed)"
  using assms by cases simp_all

lemma closing_step:
  assumes "queue_bench_step opt s s'" and "closing opt s" and "producing opt s" and "ends opt"
  shows "closing opt s'"
  using assms(1)
proof cases
  case (qb_push_step q)
  with assms(2,3) push_step_open [of "qb_queue s" q] show ?thesis
    by (auto simp: closing_def closing_at_def producing_def producing_at_def)
next
  case qb_all_pushed
  with assms(2,3) index_in_range [OF assms(4), of "qb_index s"] show ?thesis
    by (auto simp: closing_def closing_at_def producing_def producing_at_def)
next
  case (qb_pop_step q)
  with assms(2) consumer_step_closing show ?thesis by (simp add: closing_def)
next
  case (qb_batch_step q)
  with assms(2) consumer_step_closing show ?thesis by (simp add: closing_def)
qed (use assms(2) in \<open>simp_all add: closing_def closing_at_def\<close>)

lemma run_closing: "queue_bench_run opt s \<Longrightarrow> ends opt \<Longrightarrow> closing opt s"
proof (induction rule: queue_bench_run.induct)
  case qr_start
  show ?case by (simp add: closing_def closing_at_def start_queue_bench_def start_state_def make_ring_def)
next
  case (qr_step s s')
  from closing_step [OF qr_step(2) qr_step(3) [OF qr_step(4)] run_producing [OF qr_step(1,4)] qr_step(4)]
  show ?case .
qed

text \<open>What there is when both threads have ended.\<close>

lemma run_ended:
  assumes "queue_bench_run opt s" and "ends opt" and "qb_producer s = BP_Ended" and "qb_consumer s = BC_Ended"
  shows "map bench_record [qb_consumed s + 1..<unat (qo_total_records opt) + 1] = ring_items (cs_ring (qb_queue s))"
proof -
  let ?q = "qb_queue s" and ?n = "unat (qo_total_records opt)"
  have "qb_index s = ?n + 1"
    using run_closing [OF assms(1,2)] assms(3) by (simp add: closing_def closing_at_def)
  then have sent: "cs_sent ?q = numbered (?n + 1)"
    using run_producing [OF assms(1,2)] assms(3) by (simp add: producing_def producing_at_def)
  have "length (cs_received ?q) = qb_consumed s"
    using run_consuming [OF assms(1)] assms(4) by (auto simp: consuming_def consuming_at_def uncounted_def)
  with core_ring_items(1) [OF run_core(1) [OF assms(1,2)]] sent
  have "ring_items (cs_ring ?q) = drop (qb_consumed s) (numbered (?n + 1))" by (metis append_eq_conv_conj)
  then show ?thesis by (simp add: numbered_def drop_map)
qed

text \<open>The exit code.\<close>

lemma report_code:
  assumes "queue_bench_run opt s" and "ends opt" and "qb_consumed s \<le> unat (qo_total_records opt)" and "qb_ordered s"
  shows "tr_code (queue_bench_report h elapsed rate opt s) = (if qb_consumed s = unat (qo_total_records opt) then 0 else 2)"
proof -
  have "unat (word_of_nat (qb_consumed s) :: u64) = qb_consumed s"
    using assms(2,3) by (simp add: unat_of_nat take_bit_nat_eq_self)
  then have "word_of_nat (qb_consumed s) = qo_total_records opt \<longleftrightarrow> qb_consumed s = unat (qo_total_records opt)" by auto
  moreover have "rb_dropped_records (cs_ring (qb_queue s)) = 0"
    using run_producing [OF assms(1,2)] by (simp add: producing_def producing_at_def)
  ultimately show ?thesis
    using assms(4) by (simp add: queue_bench_report_def Let_def ring_statistics_def)
qed

section \<open>A record too few\<close>

text \<open>Steps within a call.\<close>

lemmas push_on = qr_step [OF _ qb_push_step]
lemmas pop_on = qr_step [OF _ qb_pop_step]
lemmas close_on = qr_step [OF _ qb_close_step]

text \<open>
  The consumer finds the queue empty, the producer pushes its last record and closes the queue, and
  the consumer then sees the closed flag: it ends with a record in the queue, and the benchmark,
  which reports the consumed records as wrong, fails although no thread did anything wrong.
\<close>

lemma benchmark_can_miss_last_record:
  "\<exists>s. queue_bench_run \<lparr>qo_total_records = 1, qo_capacity = 1, qo_batch_size = 1\<rparr> s \<and>
    qb_producer s = BP_Ended \<and> qb_consumer s = BC_Ended \<and> qb_consumed s = 0 \<and>
    cs_sent (qb_queue s) = [bench_record 1]"
proof -
  let ?o = "\<lparr>qo_total_records = 1, qo_capacity = 1, qo_batch_size = 1\<rparr> :: queue_options"
  have ring: "rb_tail (make_ring 1) = 0" "rb_head (make_ring 1) = 0" "rb_capacity (make_ring 1) = 1"
    "rb_high_watermark (make_ring 1) = 0" "rb_closed (make_ring 1) = False"
    by (simp_all add: make_ring_def)
  note r0 = qr_start [of ?o, unfolded start_queue_bench_def start_state_def, simplified]
  note c1 = qr_step [OF r0 qb_pop, simplified]
  note c2 = pop_on [OF c1 _ _ c_head, simplified, unfolded ring]
  note c3 = pop_on [OF c2 _ _ c_none [of _ 0 0], simplified, unfolded ring, simplified]
  note p1 = qr_step [OF c3 qb_push, simplified]
  note p2 = push_on [OF p1 _ _ p_open [of _ "bench_record 1"], simplified]
  note p3 = push_on [OF p2 _ _ p_tail [of _ "bench_record 1"], simplified, unfolded ring]
  note p4 = push_on [OF p3 _ _ p_room [of _ "bench_record 1" 0 0], simplified, unfolded ring, simplified]
  note p5 = push_on [OF p4 _ _ p_slot [of _ "bench_record 1" 0 0], simplified]
  note p6 = push_on [OF p5 _ _ p_lock [of _ "bench_record 1" 0 0], simplified]
  note p7 = push_on [OF p6 _ _ p_publish [of _ "bench_record 1" 0 0], simplified]
  note p8 = push_on [OF p7 _ _ p_unlock [of _ 0 0], simplified]
  note p9 = push_on [OF p8 _ _ p_mark [of _ 1], simplified, unfolded ring]
  note p10 = push_on [OF p9 _ _ p_exchange [of _ 1 0], simplified, unfolded ring, simplified]
  note p11 = push_on [OF p10 _ _ p_notify, simplified, unfolded notify_data_def, simplified]
  note p12 = qr_step [OF p11 qb_pushed, simplified]
  have two: "\<not> (2 :: u64) \<le> 1" by (simp add: word_le_nat_alt)
  note p13 = qr_step [OF p12 qb_all_pushed, simplified, OF two]
  note k1 = qr_step [OF p13 qb_close, simplified]
  note k2 = close_on [OF k1 _ _ k_lock, simplified]
  note k3 = close_on [OF k2 _ _ k_store, simplified]
  note k4 = close_on [OF k3 _ _ k_unlock, simplified]
  note k5 = close_on [OF k4 _ _ k_data, simplified, unfolded notify_data_def, simplified]
  note k6 = close_on [OF k5 _ _ k_space, simplified, unfolded notify_space_def, simplified]
  note k7 = qr_step [OF k6 qb_closed, simplified]
  note e1 = pop_on [OF k7 _ _ c_closed, simplified]
  note e2 = qr_step [OF e1 qb_end, simplified]
  show ?thesis by (rule exI, rule conjI, rule e2) simp
qed

section \<open>Properties\<close>

text \<open>C39. However the threads of the queue benchmark are interleaved, the consumer sees the records in
  order and never more than were asked for; when both have ended, what it has not seen is in the
  queue, and the exit code is zero exactly when it has seen all of them. The bound on the number of
  records is the one below which the producer's loop ends.\<close>

theorem queue_benchmark_in_order:
  assumes "queue_bench_run opt s" and "unat (qo_total_records opt) + 1 < 2 ^ 64"
  shows "qb_ordered s \<and> qb_consumed s \<le> unat (qo_total_records opt) \<and>
    (qb_producer s = BP_Ended \<and> qb_consumer s = BC_Ended \<longrightarrow>
      ring_items (cs_ring (qb_queue s)) = map bench_record [qb_consumed s + 1..<unat (qo_total_records opt) + 1] \<and>
      tr_code (queue_bench_report h elapsed rate opt s) = (if qb_consumed s = unat (qo_total_records opt) then 0 else 2))"
proof -
  have "qb_consumed s \<le> length (cs_received (qb_queue s))"
    using run_consuming [OF assms(1)] by (auto simp: consuming_def consuming_at_def)
  with run_received(2) [OF assms] have "qb_consumed s \<le> unat (qo_total_records opt)" by simp
  with run_ordered [OF assms] run_ended [OF assms] report_code [OF assms] show ?thesis by simp
qed

theorem queue_benchmark_in_order_witness:
  "\<exists>s. queue_bench_run \<lparr>qo_total_records = 1, qo_capacity = 1, qo_batch_size = 1\<rparr> s \<and>
    qb_producer s = BP_Ended \<and> qb_consumer s = BC_Ended \<and> qb_ordered s \<and>
    ring_items (cs_ring (qb_queue s)) = [bench_record 1] \<and>
    (\<forall>h elapsed rate. tr_code (queue_bench_report h elapsed rate
      \<lparr>qo_total_records = 1, qo_capacity = 1, qo_batch_size = 1\<rparr> s) = 2)"
proof -
  let ?o = "\<lparr>qo_total_records = 1, qo_capacity = 1, qo_batch_size = 1\<rparr> :: queue_options"
  from benchmark_can_miss_last_record obtain s where
    run: "queue_bench_run ?o s" "qb_producer s = BP_Ended" "qb_consumer s = BC_Ended" "qb_consumed s = 0" by blast
  have "qb_ordered s \<and> ring_items (cs_ring (qb_queue s)) = [bench_record 1] \<and>
      tr_code (queue_bench_report h elapsed rate ?o s) = 2" for h elapsed rate
    using queue_benchmark_in_order [OF run(1), of h elapsed rate] run(2-4) by simp
  with run(1-3) show ?thesis by blast
qed

end
