(* ===== verification/Recorder_Benchmark.thy ===== *)
theory Recorder_Benchmark
  imports Cli Platform_Info
begin

text \<open>
  The end-to-end benchmark, \<open>recorder_benchmark.cpp\<close>: a recorder that warms up and a second one that
  is measured, each stopped and its log validated, and the artifact that reports the counters. The
  recorders run by the steps of theory \<open>Recorder\<close> between the stages \<open>benchmark_start\<close>,
  \<open>benchmark_measure\<close> and \<open>benchmark_finish\<close>. What is computed in floating point is a parameter.
\<close>

section \<open>Command line\<close>

record bench_options =
  bo_output_path :: string
  bo_artifact_path :: string
  bo_warmup_seconds :: u32
  bo_duration_seconds :: u32
  bo_buffer_size :: u64
  bo_batch_size :: u64
  bo_sync_every_batches :: u64
  bo_preallocation_bytes :: u64
  bo_alignment :: u64
  bo_seed :: u32

definition default_bench_options :: bench_options where
  "default_bench_options = \<lparr>bo_output_path = [], bo_artifact_path = [], bo_warmup_seconds = 2,
     bo_duration_seconds = 30, bo_buffer_size = 262144, bo_batch_size = 1024, bo_sync_every_batches = 64,
     bo_preallocation_bytes = 256 * 1024 * 1024, bo_alignment = 4096, bo_seed = 42\<rparr>"

text \<open>An option and its value; a number that cannot be read refuses the command line. An assignment to
  a narrower member keeps the low bits.\<close>

definition bench_number :: "string \<Rightarrow> (u64 \<Rightarrow> bench_options \<Rightarrow> bench_options) \<Rightarrow> bench_options \<Rightarrow> bench_options option" where
  "bench_number v set_member opt = (case stoull v of None \<Rightarrow> None | Some parsed \<Rightarrow> Some (set_member parsed opt))"

definition bench_option :: "string \<Rightarrow> string \<Rightarrow> bench_options \<Rightarrow> bench_options option" where
  "bench_option arg v opt =
    (if arg = ''--output'' then Some (opt\<lparr>bo_output_path := v\<rparr>)
     else if arg = ''--artifact'' then Some (opt\<lparr>bo_artifact_path := v\<rparr>)
     else if arg = ''--warmup-seconds'' then bench_number v (\<lambda>n o1. o1\<lparr>bo_warmup_seconds := ucast n\<rparr>) opt
     else if arg = ''--duration-seconds'' then bench_number v (\<lambda>n o1. o1\<lparr>bo_duration_seconds := ucast n\<rparr>) opt
     else if arg = ''--buffer-size'' then bench_number v (\<lambda>n o1. o1\<lparr>bo_buffer_size := n\<rparr>) opt
     else if arg = ''--batch-size'' then bench_number v (\<lambda>n o1. o1\<lparr>bo_batch_size := n\<rparr>) opt
     else if arg = ''--sync-every-batches'' then bench_number v (\<lambda>n o1. o1\<lparr>bo_sync_every_batches := n\<rparr>) opt
     else if arg = ''--preallocation-bytes'' then bench_number v (\<lambda>n o1. o1\<lparr>bo_preallocation_bytes := n\<rparr>) opt
     else if arg = ''--alignment'' then bench_number v (\<lambda>n o1. o1\<lparr>bo_alignment := n\<rparr>) opt
     else if arg = ''--seed'' then bench_number v (\<lambda>n o1. o1\<lparr>bo_seed := ucast n\<rparr>) opt
     else None)"

definition bench_options_ok :: "bench_options \<Rightarrow> bool" where
  "bench_options_ok opt \<longleftrightarrow> bo_output_path opt \<noteq> [] \<and> bo_artifact_path opt \<noteq> [] \<and>
     0 < bo_warmup_seconds opt \<and> 0 < bo_duration_seconds opt \<and> 0 < bo_buffer_size opt \<and> 0 < bo_batch_size opt \<and>
     0 < bo_sync_every_batches opt \<and> 8 \<le> bo_alignment opt"

text \<open>The arguments after the program's name.\<close>

fun bench_parse :: "string list \<Rightarrow> bench_options \<Rightarrow> bench_options option" where
  "bench_parse [] opt = (if bench_options_ok opt then Some opt else None)"
| "bench_parse [arg] opt = None"
| "bench_parse (arg # v # rest) opt =
    (case bench_option arg v opt of None \<Rightarrow> None | Some opt' \<Rightarrow> bench_parse rest opt')"

definition bench_config :: "bench_options \<Rightarrow> string \<Rightarrow> recorder_config" where
  "bench_config opt path = default_recorder_config\<lparr>cf_output_path := path, cf_buffer_size := bo_buffer_size opt,
     cf_batch_size := bo_batch_size opt, cf_sync_every_batches := bo_sync_every_batches opt,
     cf_preallocation_chunk_bytes := bo_preallocation_bytes opt,
     cf_serialization_buffer_alignment := bo_alignment opt, cf_sample_rate_hz := 1,
     cf_unpaced_producer := True, cf_simulator_seed := bo_seed opt\<rparr>"

definition bench_usage :: string where
  "bench_usage = ''Usage: recorder_benchmark --output PATH --artifact PATH '' @
     ''[--warmup-seconds N] [--duration-seconds N] [--buffer-size N] '' @
     ''[--batch-size N] [--sync-every-batches N] '' @
     ''[--preallocation-bytes N] [--alignment N] [--seed N]'' @ newline"

section \<open>Stages\<close>

text \<open>\<open>Bench_Exits\<close> is a return from \<open>main\<close>, \<open>Bench_Ends\<close> an \<open>_exit\<close> below it.\<close>

datatype ('g, 'a) bench_stage =
    Bench_Exits tool_run os
  | Bench_Ends nat "'g recorder"
  | Bench_Goes_On 'a

definition bench_fails :: "nat \<Rightarrow> string \<Rightarrow> os \<Rightarrow> ('g, 'a) bench_stage" where
  "bench_fails code message s = Bench_Exits \<lparr>tr_code = code, tr_stdout = [], tr_stderr = message @ newline\<rparr> s"

text \<open>The directory part of a path: nothing without a slash, the root when only slashes precede.\<close>

definition parent_path :: "string \<Rightarrow> string" where
  "parent_path path =
    (let dir = rev (dropWhile (\<lambda>c. c \<noteq> CHR ''/'') (rev path));
         stripped = rev (dropWhile (\<lambda>c. c = CHR ''/'') (rev dir)) in
     if dir \<noteq> [] \<and> stripped = [] then ''/'' else stripped)"

definition create_directories :: "string \<Rightarrow> os \<Rightarrow> bool \<times> os" where
  "create_directories dir s = (if dir = [] then (True, s) else succeeds s)"

definition warmup_path :: "bench_options \<Rightarrow> string" where
  "warmup_path opt = bo_output_path opt @ ''.warmup''"

definition bench_paths :: "bench_options \<Rightarrow> string list" where
  "bench_paths opt = [bo_output_path opt, bo_output_path opt @ ''.journal'', warmup_path opt, warmup_path opt @ ''.journal'']"

text \<open>Up to the running warm-up recorder. \<open>message\<close> is the text of an error of the system.\<close>

definition benchmark_start :: "'g machine \<Rightarrow> host \<Rightarrow> string \<Rightarrow> string list \<Rightarrow> os \<Rightarrow>
    ('g, bench_options \<times> platform_info \<times> 'g recorder) bench_stage" where
  "benchmark_start m h message args s = (case bench_parse args default_bench_options of
     None \<Rightarrow> Bench_Exits \<lparr>tr_code = 1, tr_stdout = [], tr_stderr = bench_usage\<rparr> s
   | Some opt \<Rightarrow>
     let output_parent = parent_path (bo_output_path opt) in
     (case create_directories output_parent s of (output_made, s1) \<Rightarrow>
      case (if output_made then create_directories (parent_path (bo_artifact_path opt)) s1 else (False, s1)) of
        (made, s2) \<Rightarrow>
     if \<not> made then bench_fails 1 (''failed to create benchmark directory: '' @ message) s2
     else let platform = collect_platform_info h (if output_parent = [] then ''.'' else output_parent) in
     if pi_build_type platform \<noteq> ''Release'' then bench_fails 1 ''recorder_benchmark requires a Release build'' s2
     else if \<exists>path\<in>set (bench_paths opt). path_exists path s2 then
       bench_fails 1 ''benchmark output paths must not already exist'' s2
     else case start_recorder (make_recorder m (bench_config opt (warmup_path opt)) s2) of (ok, r) \<Rightarrow>
     (case rc_exit r of
        Some code \<Rightarrow> Bench_Ends code r
      | None \<Rightarrow> if \<not> ok then bench_fails 2 ''failed to start warmup recorder'' (rc_os r)
         else Bench_Goes_On (opt, platform, r))))"

definition warmup_ok :: "recorder_stats \<Rightarrow> recovery_report \<Rightarrow> bool" where
  "warmup_ok stats replay \<longleftrightarrow> rr_healthy replay \<and> \<not> st_writer_error stats \<and> st_dropped_records stats = 0 \<and>
     st_total_records_written stats = st_total_records_committed stats"

text \<open>From the warm-up recorder after \<open>stop\<close> to the running measured one.\<close>

definition benchmark_measure :: "'g machine \<Rightarrow> bench_options \<Rightarrow> 'g recorder \<Rightarrow>
    ('g, recorder_stats \<times> recovery_report \<times> 'g recorder) bench_stage" where
  "benchmark_measure m opt warmup =
    (let stats = recorder_statistics warmup in
     case validate (warmup_path opt) (rc_os warmup) of (replay, s) \<Rightarrow>
     if \<not> warmup_ok stats replay then bench_fails 2 ''warmup correctness validation failed'' s
     else case start_recorder (make_recorder m (bench_config opt (bo_output_path opt)) s) of (ok, r) \<Rightarrow>
     (case rc_exit r of
        Some code \<Rightarrow> Bench_Ends code r
      | None \<Rightarrow> if \<not> ok then bench_fails 2 ''failed to start measured recorder'' (rc_os r)
         else Bench_Goes_On (stats, replay, r)))"

text \<open>The windows of the measurement: at each second the clock, in nanoseconds, and the records written.
  \<open>rate\<close> divides records by a duration.\<close>

fun window_rates :: "(u64 \<Rightarrow> nat \<Rightarrow> u64) \<Rightarrow> nat \<Rightarrow> u64 \<Rightarrow> (nat \<times> u64) list \<Rightarrow> u64 list" where
  "window_rates rate prior_time prior_written [] = []"
| "window_rates rate prior_time prior_written ((now, written) # windows) =
    rate (written - prior_written) (now - prior_time) # window_rates rate now written windows"

fun min_window :: "u64 list \<Rightarrow> u64" where
  "min_window [] = 0"
| "min_window (w # ws) = fold min ws w"

text \<open>The checks after the measurement: the size of the file, and the run as a whole.\<close>

definition exact_size :: "string \<Rightarrow> recorder_stats \<Rightarrow> os \<Rightarrow> bool" where
  "exact_size path stats s \<longleftrightarrow> path_exists path s \<and>
     word_of_nat (stat_size path s) = (24 :: u64) + st_total_records_written stats * 84"

definition valid_run :: "recorder_stats \<Rightarrow> writer_stats \<Rightarrow> recovery_report \<Rightarrow> bool \<Rightarrow> bool" where
  "valid_run stats ws replay size_ok \<longleftrightarrow> rr_healthy replay \<and> size_ok \<and> \<not> st_writer_error stats \<and>
     st_dropped_records stats = 0 \<and> st_total_records_generated stats = st_total_records_written stats \<and>
     st_total_records_written stats = st_total_records_committed stats \<and>
     rr_valid_records replay = unat (st_total_records_written stats) \<and> ws_failures ws = 0"

section \<open>The artifact\<close>

fun joined :: "string list \<Rightarrow> string" where
  "joined [] = []"
| "joined [x] = x"
| "joined (x # xs) = x @ '','' @ joined xs"

definition json_object :: "(string \<times> string) list \<Rightarrow> string" where
  "json_object members = ''{'' @ joined (map (\<lambda>(name, v). quote @ name @ quote @ '':'' @ v) members) @ ''}''"

definition artifact_member :: "string \<Rightarrow> string \<Rightarrow> string" where
  "artifact_member name v = ''  '' @ quote @ name @ quote @ '': '' @ v"

definition latency_json :: "latency_summary \<Rightarrow> string" where
  "latency_json latency = json_object [(''samples'', show_nat (ls_samples latency)), (''p50_ns'', show_nat (ls_p50_ns latency)),
     (''p95_ns'', show_nat (ls_p95_ns latency)), (''p99_ns'', show_nat (ls_p99_ns latency)),
     (''max_ns'', show_nat (ls_max_ns latency))]"

definition configuration_json :: "bench_options \<Rightarrow> string" where
  "configuration_json opt = json_object [(''warmup_seconds'', show_word (bo_warmup_seconds opt)),
     (''duration_seconds'', show_word (bo_duration_seconds opt)), (''buffer_size'', show_word (bo_buffer_size opt)),
     (''batch_size'', show_word (bo_batch_size opt)), (''sync_every_batches'', show_word (bo_sync_every_batches opt)),
     (''preallocation_bytes'', show_word (bo_preallocation_bytes opt)), (''alignment'', show_word (bo_alignment opt)),
     (''seed'', show_word (bo_seed opt))]"

definition writer_counters_json :: "writer_stats \<Rightarrow> string" where
  "writer_counters_json ws = json_object [(''records'', show_nat (ws_records_written ws)),
     (''batches'', show_nat (ws_batches_written ws)), (''bytes'', show_nat (ws_bytes_written ws)),
     (''write_calls'', show_nat (ws_write_calls ws)), (''sync_calls'', show_nat (ws_sync_calls ws)),
     (''checkpoint_writes'', show_nat (ws_checkpoint_writes ws)),
     (''journal_sync_calls'', show_nat (ws_journal_sync_calls ws)),
     (''preallocation_calls'', show_nat (ws_preallocation_calls ws)), (''failures'', show_nat (ws_failures ws))]"

definition metric_contract :: string where
  "metric_contract = json_object
     [(''throughput'', quote @ ''produced_consumed_serialized_written_per_steady_second'' @ quote),
      (''write_latency'', quote @ ''steady_clock_around_each_real_main_pwrite_syscall'' @ quote),
      (''sync_latency'', quote @ ''steady_clock_around_each_main_data_sync'' @ quote)]"

text \<open>What has been measured; the elapsed time is in nanoseconds.\<close>

record bench_result =
  br_warmup_stats :: recorder_stats
  br_warmup_healthy :: bool
  br_elapsed :: nat
  br_windows :: "u64 list"
  br_throughput :: u64
  br_stats :: recorder_stats
  br_writer_stats :: writer_stats
  br_replay :: recovery_report
  br_exact_size :: bool
  br_valid :: bool

definition benchmark_artifact :: "(nat \<Rightarrow> string) \<Rightarrow> bench_options \<Rightarrow> platform_info \<Rightarrow> bench_result \<Rightarrow> string" where
  "benchmark_artifact show_seconds opt platform b =
    (let warmup = br_warmup_stats b; stats = br_stats b; ws = br_writer_stats b; replay = br_replay b; comma = '','' @ newline in
     ''{'' @ newline @
     artifact_member ''benchmark_kind'' (quote @ ''end_to_end_recorder'' @ quote) @ comma @
     artifact_member ''metric_contract'' metric_contract @ comma @
     artifact_member ''platform'' (platform_info_json platform) @ comma @
     artifact_member ''configuration'' (configuration_json opt) @ comma @
     artifact_member ''warmup'' (json_object [(''written'', show_word (st_total_records_written warmup)),
       (''committed'', show_word (st_total_records_committed warmup)), (''dropped'', show_word (st_dropped_records warmup)),
       (''replay_valid'', show_bool (br_warmup_healthy b))]) @ comma @
     artifact_member ''elapsed_seconds'' (show_seconds (br_elapsed b)) @ comma @
     artifact_member ''records_generated'' (show_word (st_total_records_generated stats)) @ comma @
     artifact_member ''records_written'' (show_word (st_total_records_written stats)) @ comma @
     artifact_member ''records_committed'' (show_word (st_total_records_committed stats)) @ comma @
     artifact_member ''dropped_records'' (show_word (st_dropped_records stats)) @ comma @
     artifact_member ''writer_error'' (show_bool (st_writer_error stats)) @ comma @
     artifact_member ''records_per_second'' (show_word (br_throughput b)) @ comma @
     artifact_member ''one_second_window_min_records_per_second'' (show_word (min_window (br_windows b))) @ comma @
     artifact_member ''one_second_window_records_per_second'' (''['' @ joined (map show_word (br_windows b)) @ '']'') @ comma @
     artifact_member ''writer_counters'' (writer_counters_json ws) @ comma @
     artifact_member ''batch_write_latency'' (latency_json (summarize_histogram (ws_write_latency ws))) @ comma @
     artifact_member ''main_sync_latency'' (latency_json (summarize_histogram (ws_sync_latency ws))) @ comma @
     artifact_member ''replay'' (json_object [(''valid'', show_bool (rr_healthy replay)),
       (''records'', show_nat (rr_valid_records replay)), (''checksum_failures'', show_nat (rr_checksum_failures replay)),
       (''valid_bytes'', show_nat (rr_valid_bytes replay)), (''exact_file_size'', show_bool (br_exact_size b))]) @ comma @
     artifact_member ''valid_run'' (show_bool (br_valid b)) @ newline @ ''}'' @ newline)"

definition benchmark_line :: "(nat \<Rightarrow> string) \<Rightarrow> bench_options \<Rightarrow> bench_result \<Rightarrow> string" where
  "benchmark_line show_seconds opt b =
    ''benchmark_complete records='' @ show_word (st_total_records_written (br_stats b)) @
     '' elapsed_seconds='' @ show_seconds (br_elapsed b) @ '' records_per_second='' @ show_word (br_throughput b) @
     '' one_second_min='' @ show_word (min_window (br_windows b)) @
     '' dropped='' @ show_word (st_dropped_records (br_stats b)) @
     '' replay_valid='' @ show_bool (rr_healthy (br_replay b)) @
     '' write_p99_ns='' @ show_nat (ls_p99_ns (summarize_histogram (ws_write_latency (br_writer_stats b)))) @
     '' sync_p99_ns='' @ show_nat (ls_p99_ns (summarize_histogram (ws_sync_latency (br_writer_stats b)))) @
     '' artifact='' @ bo_artifact_path opt @ newline"

text \<open>After the measured recorder's \<open>stop\<close>. The log is validated first, then its size is asked for.\<close>

definition benchmark_result :: "(u64 \<Rightarrow> nat \<Rightarrow> u64) \<Rightarrow> bench_options \<Rightarrow> recorder_stats \<times> recovery_report \<Rightarrow> nat \<Rightarrow>
    (nat \<times> u64) list \<Rightarrow> nat \<Rightarrow> 'g recorder \<Rightarrow> bench_result \<times> os" where
  "benchmark_result rate opt warmup begun windows ended r =
    (let stats = recorder_statistics r; ws = w_stats (rc_writer r); path = bo_output_path opt in
     case validate path (rc_os r) of (replay, s) \<Rightarrow>
     let size_ok = exact_size path stats s in
     (\<lparr>br_warmup_stats = fst warmup, br_warmup_healthy = rr_healthy (snd warmup), br_elapsed = ended - begun,
       br_windows = window_rates rate begun 0 windows,
       br_throughput = rate (st_total_records_written stats) (ended - begun),
       br_stats = stats, br_writer_stats = ws, br_replay = replay, br_exact_size = size_ok,
       br_valid = valid_run stats ws replay size_ok\<rparr>, s))"

definition benchmark_finish :: "(u64 \<Rightarrow> nat \<Rightarrow> u64) \<Rightarrow> (nat \<Rightarrow> string) \<Rightarrow> bench_options \<Rightarrow> platform_info \<Rightarrow>
    recorder_stats \<times> recovery_report \<Rightarrow> nat \<Rightarrow> (nat \<times> u64) list \<Rightarrow> nat \<Rightarrow> 'g recorder \<Rightarrow> tool_run \<times> os" where
  "benchmark_finish rate show_seconds opt platform warmup begun windows ended r =
    (case benchmark_result rate opt warmup begun windows ended r of (b, s) \<Rightarrow>
     case open_trunc (bo_artifact_path opt) s of (is_open, s1) \<Rightarrow>
     if \<not> is_open then
       (\<lparr>tr_code = 1, tr_stdout = [], tr_stderr = ''failed to open benchmark artifact: '' @ bo_artifact_path opt @ newline\<rparr>, s1)
     else case pwrite (bo_artifact_path opt) (map of_char (benchmark_artifact show_seconds opt platform b)) 0 s1 of (_, s2) \<Rightarrow>
       (\<lparr>tr_code = (if br_valid b then 0 else 2), tr_stdout = benchmark_line show_seconds opt b, tr_stderr = []\<rparr>, s2))"

section \<open>What the exit code says\<close>

text \<open>The recorder that a stage leaves running has been launched by it, from sequence number zero.\<close>

lemma start_sequence_0 [simp]: "set_start_sequence 0 (make_recorder m c s) = make_recorder m c s"
  by (simp add: set_start_sequence_def make_recorder_def)

lemma benchmark_measure_launched:
  assumes "benchmark_measure m opt warmup = Bench_Goes_On (stats, replay, r)"
  shows "\<exists>s. validate (warmup_path opt) (rc_os warmup) = (replay, s) \<and> stats = recorder_statistics warmup \<and>
    warmup_ok stats replay \<and> launched m (bench_config opt (bo_output_path opt)) s 0 r"
  using assms
  by (auto simp: benchmark_measure_def launched_def bench_fails_def Let_def split: prod.splits if_splits option.splits)

lemma benchmark_start_launched:
  assumes "benchmark_start m h message args s = Bench_Goes_On (opt, platform, r)"
  shows "\<exists>s'. (\<forall>path\<in>set (bench_paths opt). os_files s' path = None) \<and> pi_build_type platform = ''Release'' \<and>
    launched m (bench_config opt (warmup_path opt)) s' 0 r"
  using assms
  by (auto simp: benchmark_start_def launched_def bench_fails_def path_exists_def Let_def
      split: prod.splits if_splits option.splits)

lemma bench_config_simps [simp]:
  "cf_output_path (bench_config opt path) = path" "cf_fault_config (bench_config opt path) = no_fault_config"
  by (simp_all add: bench_config_def default_recorder_config_def)

text \<open>What a recorder that ran on a new log and stopped without an error leaves there, and how it is
  validated.\<close>

lemma clean_run_log:
  assumes "os_script s = []" and "os_files s path = None" and "os_files s (journal_path_for_log path) = None"
    and "length (rc_pushed r) + 1 < 2 ^ 32" and "compute_checkpoint_crc (make_slot 2 (os_now s) 24 0 0) \<noteq> 0"
    and launch: "launched m (bench_config opt path) s 0 r0"
    and run: "recorder_run m (r0\<lparr>rc_os := (rc_os r0)\<lparr>os_script := script\<rparr>\<rparr>) r"
    and "rc_exit r = None" and "rc_writer_thread r = W_Off" and "os_script (rc_os r) = []" and ok: "\<not> rc_writer_error r"
  defines "n \<equiv> length (concat (rc_appended r))"
  shows "n \<le> length (rc_pushed r)"
    and "rc_total_records_written r = word_of_nat n" and "rc_total_records_committed r = word_of_nat n"
    and "os_files (rc_os r) path = Some (enc_file_header (new_file_header (os_now s)) @
      enc_frames (batch_frames (number_from 0 (take n (rc_pushed r)))))"
    and "\<exists>rep. validate path (rc_os r) = (rep, rc_os r) \<and> rr_healthy rep \<and> rr_valid_records rep = n"
proof -
  let ?c = "bench_config opt path" and ?h = "new_file_header (os_now s)"
  let ?fs = "batch_frames (number_from 0 (take n (rc_pushed r)))"
  have start: "startable (length (rc_pushed r)) (cf_output_path ?c) s ?h []"
    using assms(2-5) by (simp add: startable_def)
  have ack: "\<forall>a. fc_acknowledgement_fd (cf_fault_config ?c) = Some a \<longrightarrow>
      a \<noteq> cf_output_path ?c \<and> a \<noteq> journal_path_for_log (cf_output_path ?c)"
    by (simp add: no_fault_config_def)
  have goes: "goes_on [] 0" by (simp add: goes_on_def)
  note log = clean_stop_log [OF assms(1) start ack launch goes run _ _ assms(8,9) ok, folded n_def]
  have log: "n \<le> length (rc_pushed r)" "file_header_ok ?h" "chain_ok None ?fs"
    "os_files (rc_os r) path = Some (enc_file_header ?h @ enc_frames ?fs)"
    "unat (rc_total_records_committed r) = n" "unat (rc_total_records_written r) = n"
    using log assms(4) by simp_all
  then show "n \<le> length (rc_pushed r)" and "os_files (rc_os r) path = Some (enc_file_header ?h @ enc_frames ?fs)" by simp_all
  show "rc_total_records_written r = word_of_nat n" and "rc_total_records_committed r = word_of_nat n"
    using arg_cong [OF log(5), of "word_of_nat :: nat \<Rightarrow> u64"] arg_cong [OF log(6), of "word_of_nat :: nat \<Rightarrow> u64"] by simp_all
  let ?log = "enc_file_header ?h @ enc_frames ?fs"
  have frames: "log_frames ?log = ?fs" by (rule log_frames_whole [OF log(3)])
  have len: "length ?fs = n" using log(1) by (simp add: batch_frames_def)
  have ok_header: "log_header_ok ?log" using log(2) by (simp add: log_header_ok_def codec_simps)
  from scan_file_ok [OF assms(10) log(4) ok_header, of False] obtain rep md es where
    scan: "scan_file path False (rc_os r) = ((rep, md, es), rc_os r)" "reports_prefix ?log rep" by auto
  have "log_valid_bytes ?log = length ?log" unfolding log_valid_bytes_def frames by (simp add: codec_simps)
  then have "rr_healthy rep" "rr_valid_records rep = n"
    using scan(2) unfolding reports_prefix_def frames len by blast+
  then show "\<exists>rep. validate path (rc_os r) = (rep, rc_os r) \<and> rr_healthy rep \<and> rr_valid_records rep = n"
    by (simp add: validate_def scan(1))
qed

text \<open>The size of such a log is what the counter of written records promises.\<close>

lemma exact_size_frames:
  assumes "os_files s path = Some (enc_file_header h @ enc_frames fs)"
    and "st_total_records_written stats = word_of_nat (length fs)"
  shows "exact_size path stats s"
proof -
  have "stat_size path s = 24 + 84 * length fs" by (simp add: stat_size_def file_bytes_def assms(1) codec_simps)
  then show ?thesis by (simp add: exact_size_def path_exists_def assms mult.commute)
qed

text \<open>The measured run is valid when nothing was dropped, nothing failed and every sample pushed was
  written; the size of the file and the replay then agree with the counters.\<close>

lemma clean_run_valid:
  assumes "os_script s = []" and "os_files s path = None" and "os_files s (journal_path_for_log path) = None"
    and "length (rc_pushed r) + 1 < 2 ^ 32" and "compute_checkpoint_crc (make_slot 2 (os_now s) 24 0 0) \<noteq> 0"
    and launch: "launched m (bench_config opt path) s 0 r0"
    and run: "recorder_run m (r0\<lparr>rc_os := (rc_os r0)\<lparr>os_script := script\<rparr>\<rparr>) r"
    and "rc_exit r = None" and "rc_writer_thread r = W_Off" and "os_script (rc_os r) = []" and ok: "\<not> rc_writer_error r"
    and path: "bo_output_path opt = path"
  defines "n \<equiv> length (concat (rc_appended r))"
  shows "snd (benchmark_result rate opt warmup begun windows ended r) = rc_os r"
    and "br_valid (fst (benchmark_result rate opt warmup begun windows ended r)) \<longleftrightarrow>
      rc_dropped_records r = 0 \<and> n = length (rc_pushed r) \<and> ws_failures (w_stats (rc_writer r)) = 0"
proof -
  note log = clean_run_log [OF assms(1-11), folded n_def]
  have small: "length (rc_pushed r) < 2 ^ 32" using assms(4) by simp
  obtain rep where rep: "validate path (rc_os r) = (rep, rc_os r)" "rr_healthy rep" "rr_valid_records rep = n"
    using log(5) by blast
  then show "snd (benchmark_result rate opt warmup begun windows ended r) = rc_os r"
    by (simp add: benchmark_result_def Let_def path)
  have size: "exact_size path (recorder_statistics r) (rc_os r)"
    by (rule exact_size_frames [OF log(4)]) (use log(1,2) in \<open>simp add: recorder_statistics_def batch_frames_def\<close>)
  have "ledger 0 [] (r0\<lparr>rc_os := (rc_os r0)\<lparr>os_script := script\<rparr>\<rparr>)"
    by (rule ledger_frame [OF launched_ledger [OF launch]]) (simp_all add: in_hand_def)
  from ledger_run [OF run this] small obtain lost where "ledger 0 lost r" by auto
  then have gen: "rc_total_records_generated r = word_of_nat (length (rc_pushed r)) + rc_dropped_records r"
    by (simp add: ledger_def)
  have same: "(word_of_nat (length (rc_pushed r)) :: u64) = word_of_nat n \<longleftrightarrow> n = length (rc_pushed r)"
    and u: "unat (rc_total_records_written r) = n"
    using small log(1,2) by (auto simp: word_of_nat_eq_iff take_bit_nat_eq_self unat_of_nat)
  have "rc_total_records_written r = rc_total_records_committed r" using log(2,3) by simp
  with ok rep size u have "br_valid (fst (benchmark_result rate opt warmup begun windows ended r)) \<longleftrightarrow>
      rc_dropped_records r = 0 \<and> rc_total_records_generated r = rc_total_records_written r \<and>
      ws_failures (w_stats (rc_writer r)) = 0"
    by (simp add: benchmark_result_def valid_run_def Let_def path recorder_statistics_def)
  then show "br_valid (fst (benchmark_result rate opt warmup begun windows ended r)) \<longleftrightarrow>
      rc_dropped_records r = 0 \<and> n = length (rc_pushed r) \<and> ws_failures (w_stats (rc_writer r)) = 0"
    using gen same log(2) by auto
qed

lemma validate_calm: "os_script s = [] \<Longrightarrow> \<exists>rep. validate path s = (rep, s)"
  by (simp add: validate_def scan_file_def open_read_def succeeds_nil split: prod.split)

section \<open>Properties\<close>

text \<open>C40. The measured recorder of the benchmark, launched on a new log, run in any order on a system that
  may fail, and stopped: the benchmark exits with zero exactly when no writer error was reported, the
  writer counted no failure, nothing was dropped and every sample pushed was written; then the log is
  exactly the samples pushed, numbered from one.\<close>

theorem benchmark_exit_code:
  assumes "os_script s = []" and "os_files s (bo_output_path opt) = None"
    and "os_files s (journal_path_for_log (bo_output_path opt)) = None"
    and "length (rc_pushed r) + 1 < 2 ^ 32" and "compute_checkpoint_crc (make_slot 2 (os_now s) 24 0 0) \<noteq> 0"
    and "launched m (bench_config opt (bo_output_path opt)) s 0 r0"
    and "recorder_run m (r0\<lparr>rc_os := (rc_os r0)\<lparr>os_script := script\<rparr>\<rparr>) r"
    and "rc_exit r = None" and "rc_writer_thread r = W_Off" and "os_script (rc_os r) = []"
  shows "tr_code (fst (benchmark_finish rate show_seconds opt platform warmup begun windows ended r)) =
      (if \<not> rc_writer_error r \<and> ws_failures (w_stats (rc_writer r)) = 0 \<and> rc_dropped_records r = 0 \<and>
        length (concat (rc_appended r)) = length (rc_pushed r) then 0 else 2) \<and>
    (\<not> rc_writer_error r \<and> length (concat (rc_appended r)) = length (rc_pushed r) \<longrightarrow>
      os_files (rc_os r) (bo_output_path opt) = Some (enc_file_header (new_file_header (os_now s)) @
        enc_frames (batch_frames (number_from 0 (rc_pushed r)))))"
proof (cases "rc_writer_error r")
  case True
  obtain rep where "validate (bo_output_path opt) (rc_os r) = (rep, rc_os r)"
    using validate_calm [OF assms(10)] by blast
  with True obtain b where b: "benchmark_result rate opt warmup begun windows ended r = (b, rc_os r)" "\<not> br_valid b"
    by (simp add: benchmark_result_def valid_run_def recorder_statistics_def Let_def)
  with True assms(10) show ?thesis by (simp add: benchmark_finish_def open_trunc_def succeeds_nil split: prod.split)
next
  case False
  obtain b s1 where b: "benchmark_result rate opt warmup begun windows ended r = (b, s1)" by force
  note valid = clean_run_valid [OF assms False refl, of rate warmup begun windows ended, unfolded b]
  show ?thesis
    using False b valid clean_run_log(4) [OF assms False] assms(10)
    by (auto simp: benchmark_finish_def open_trunc_def succeeds_nil split: prod.split)
qed

text \<open>The witness is the run of \<open>stop_can_lose_last_sample\<close>, which the benchmark reports as invalid.\<close>

theorem benchmark_exit_code_witness:
  "\<exists>opt (r0 :: unit recorder) r. bench_parse [''--output'', ''log'', ''--artifact'', ''a'', ''--buffer-size'', ''256'',
      ''--batch-size'', ''64'', ''--sync-every-batches'', ''1'', ''--preallocation-bytes'', ''4194304''] default_bench_options = Some opt \<and>
    launched zero_machine (bench_config opt ''log'') sample_os 0 r0 \<and> recorder_run zero_machine r0 r \<and>
    rc_writer_thread r = W_Off \<and> \<not> rc_writer_error r \<and> rc_dropped_records r = 0 \<and>
    (\<forall>rate show_seconds platform warmup begun windows ended.
      tr_code (fst (benchmark_finish rate show_seconds opt platform warmup begun windows ended r)) = 2)"
proof -
  let ?o = "default_bench_options\<lparr>bo_output_path := ''log'', bo_artifact_path := ''a'', bo_buffer_size := 256,
    bo_batch_size := 64, bo_sync_every_batches := 1, bo_preallocation_bytes := 4194304\<rparr>"
  have numbers: "stoull ''256'' = Some 256" "stoull ''64'' = Some 64" "stoull ''1'' = Some 1" "stoull ''4194304'' = Some 4194304"
    by (simp_all add: stoull_def is_space_def is_digit_def digits_value_def)
  have parsed: "bench_parse [''--output'', ''log'', ''--artifact'', ''a'', ''--buffer-size'', ''256'',
      ''--batch-size'', ''64'', ''--sync-every-batches'', ''1'', ''--preallocation-bytes'', ''4194304''] default_bench_options = Some ?o"
    by (simp add: bench_option_def bench_number_def numbers)
       (simp add: bench_options_ok_def default_bench_options_def word_less_nat_alt word_le_nat_alt)
  have plain: "plain_config (bench_config ?o ''log'')"
    by (simp add: plain_config_def bench_config_def sample_config_def default_recorder_config_def default_bench_options_def)
  obtain r0 :: "unit recorder" where launch: "launched zero_machine (bench_config ?o ''log'') sample_os 0 r0"
    using plain_launched [OF plain] by blast
  obtain r x where run: "recorder_run zero_machine r0 r" "rc_pushed r = [x]" "rc_exit r = None" "rc_writer_thread r = W_Off"
    "\<not> rc_writer_error r" "rc_dropped_records r = 0" "rc_os r = rc_os r0" "rc_appended r = []"
    using plain_stopped [OF plain launch] by blast
  have calm: "os_script (rc_os r0) = []" by (rule plain_calm [OF plain launch])
  then have "r0\<lparr>rc_os := (rc_os r0)\<lparr>os_script := []\<rparr>\<rparr> = r0" by simp
  with run(1) have run': "recorder_run zero_machine (r0\<lparr>rc_os := (rc_os r0)\<lparr>os_script := []\<rparr>\<rparr>) r" by (simp only:)
  have path: "bo_output_path ?o = ''log''" by simp
  note fresh = sample_startable [of 1, unfolded startable_def]
  have "tr_code (fst (benchmark_finish rate show_seconds ?o platform warmup begun windows ended r)) = 2"
    for rate show_seconds platform warmup begun windows ended
    using benchmark_exit_code [of sample_os ?o r zero_machine r0 "[]" rate show_seconds platform warmup begun windows ended,
        unfolded path, OF _ _ _ _ _ launch run' run(3,4)] run calm sample_crc
    by (simp add: sample_os_def)
  with parsed launch run show ?thesis by blast
qed

end
