(* ===== verification/Ring_Atomic.thy ===== *)
theory Ring_Atomic
  imports Ring_Concurrent
begin

text \<open>
  What the interleaved queue looks like from outside: a bounded list on which each call has its
  effect in one step, somewhere between the call and its return.
\<close>

section \<open>The atomic queue\<close>

datatype push_call =
    Push_Idle "push_status option"
  | Pushing wait_mode flight_record
  | Has_Pushed

datatype pop_call =
    Pop_Idle "pop_status option" "flight_record list"
  | Popping wait_mode
  | Popping_Batch nat
  | Taking nat
  | Has_Popped "flight_record list"

record atomic_queue =
  aq_items :: "flight_record list"
  aq_closed :: bool
  aq_push :: push_call
  aq_pop :: pop_call

text \<open>A push takes effect when there is room, a pop takes the oldest records. Only a call that does
  not wait may be refused for no reason; a timed one gives up on a full, or empty, open queue.\<close>

inductive atomic_step :: "nat \<Rightarrow> atomic_queue \<Rightarrow> atomic_queue \<Rightarrow> bool" for capacity where
  a_push: "aq_push a = Push_Idle res \<Longrightarrow> atomic_step capacity a (a\<lparr>aq_push := Pushing mode x\<rparr>)"
| a_enqueue: "aq_push a = Pushing mode x \<Longrightarrow> length (aq_items a) < capacity \<Longrightarrow>
    atomic_step capacity a (a\<lparr>aq_push := Has_Pushed, aq_items := aq_items a @ [x]\<rparr>)"
| a_pushed: "aq_push a = Has_Pushed \<Longrightarrow> atomic_step capacity a (a\<lparr>aq_push := Push_Idle (Some Pushed)\<rparr>)"
| a_push_closed: "aq_push a = Pushing mode x \<Longrightarrow> aq_closed a \<Longrightarrow>
    atomic_step capacity a (a\<lparr>aq_push := Push_Idle (Some Push_Closed)\<rparr>)"
| a_push_refused: "aq_push a = Pushing No_Wait x \<Longrightarrow>
    atomic_step capacity a (a\<lparr>aq_push := Push_Idle (Some Push_Timeout)\<rparr>)"
| a_push_timeout: "aq_push a = Pushing Wait_For x \<Longrightarrow> \<not> aq_closed a \<Longrightarrow> length (aq_items a) = capacity \<Longrightarrow>
    atomic_step capacity a (a\<lparr>aq_push := Push_Idle (Some Push_Timeout)\<rparr>)"
| a_pop: "aq_pop a = Pop_Idle res xs \<Longrightarrow> atomic_step capacity a (a\<lparr>aq_pop := Popping mode\<rparr>)"
| a_batch: "aq_pop a = Pop_Idle res xs \<Longrightarrow> 0 < n \<Longrightarrow> atomic_step capacity a (a\<lparr>aq_pop := Popping_Batch n\<rparr>)"
| a_take: "aq_pop a = Popping mode \<Longrightarrow> aq_items a \<noteq> [] \<Longrightarrow> atomic_step capacity a (a\<lparr>aq_pop := Taking 1\<rparr>)"
| a_take_batch: "aq_pop a = Popping_Batch n \<Longrightarrow> k \<le> n \<Longrightarrow> k \<le> length (aq_items a) \<Longrightarrow>
    atomic_step capacity a (a\<lparr>aq_pop := Taking k\<rparr>)"
| a_dequeue: "aq_pop a = Taking k \<Longrightarrow> 0 < k \<Longrightarrow> k \<le> length (aq_items a) \<Longrightarrow>
    atomic_step capacity a (a\<lparr>aq_pop := Has_Popped (take k (aq_items a)), aq_items := drop k (aq_items a)\<rparr>)"
| a_popped: "aq_pop a = Has_Popped xs \<Longrightarrow> atomic_step capacity a (a\<lparr>aq_pop := Pop_Idle (Some Popped) xs\<rparr>)"
| a_batch_none: "aq_pop a = Taking 0 \<Longrightarrow> atomic_step capacity a (a\<lparr>aq_pop := Pop_Idle None []\<rparr>)"
| a_pop_closed: "aq_pop a = Popping mode \<Longrightarrow> aq_closed a \<Longrightarrow>
    atomic_step capacity a (a\<lparr>aq_pop := Pop_Idle (Some Pop_Closed) []\<rparr>)"
| a_pop_refused: "aq_pop a = Popping No_Wait \<Longrightarrow> atomic_step capacity a (a\<lparr>aq_pop := Pop_Idle (Some Pop_Timeout) []\<rparr>)"
| a_pop_timeout: "aq_pop a = Popping Wait_For \<Longrightarrow> \<not> aq_closed a \<Longrightarrow> aq_items a = [] \<Longrightarrow>
    atomic_step capacity a (a\<lparr>aq_pop := Pop_Idle (Some Pop_Timeout) []\<rparr>)"
| a_close: "atomic_step capacity a (a\<lparr>aq_closed := True\<rparr>)"

definition atomic_start :: atomic_queue where
  "atomic_start = \<lparr>aq_items = [], aq_closed = False, aq_push = Push_Idle None, aq_pop = Pop_Idle None []\<rparr>"

inductive atomic_reachable :: "nat \<Rightarrow> atomic_queue \<Rightarrow> bool" for capacity where
  at_start: "atomic_reachable capacity atomic_start"
| at_step: "atomic_reachable capacity a \<Longrightarrow> atomic_step capacity a a' \<Longrightarrow> atomic_reachable capacity a'"

section \<open>The abstraction\<close>

definition push_abs :: "conc \<Rightarrow> push_call" where
  "push_abs s = (case cs_producer s of
       P_Idle \<Rightarrow> Push_Idle (cs_push_result s)
     | P_Closed x \<Rightarrow> Pushing (cs_producer_wait s) x
     | P_Tail x \<Rightarrow> Pushing (cs_producer_wait s) x
     | P_Head x _ \<Rightarrow> Pushing (cs_producer_wait s) x
     | P_Slot x _ _ \<Rightarrow> Pushing (cs_producer_wait s) x
     | P_Lock x _ _ \<Rightarrow> Pushing (cs_producer_wait s) x
     | P_Publish x _ _ \<Rightarrow> Pushing (cs_producer_wait s) x
     | P_Want x \<Rightarrow> Pushing (cs_producer_wait s) x
     | P_Check x \<Rightarrow> Pushing (cs_producer_wait s) x
     | P_Asleep x \<Rightarrow> Pushing (cs_producer_wait s) x
     | _ \<Rightarrow> Has_Pushed)"

definition idle_pop :: "conc \<Rightarrow> pop_call" where
  "idle_pop s = Pop_Idle (cs_pop_result s) (if cs_pop_result s = Some Popped then cs_out s else [])"

definition pop_abs :: "conc \<Rightarrow> pop_call" where
  "pop_abs s = (case cs_consumer s of
       C_Idle \<Rightarrow> idle_pop s
     | C_Read _ \<Rightarrow> Taking 1
     | C_Batch_Head n \<Rightarrow> Popping_Batch (unat n)
     | C_Batch_Tail n _ \<Rightarrow> Popping_Batch (unat n)
     | C_Batch_Read _ n _ \<Rightarrow> Taking (unat n)
     | C_Lock _ n \<Rightarrow> Taking (unat n)
     | C_Publish _ n \<Rightarrow> Taking (unat n)
     | C_Unlock \<Rightarrow> Has_Popped (cs_out s)
     | C_Notify \<Rightarrow> Has_Popped (cs_out s)
     | _ \<Rightarrow> Popping (cs_consumer_wait s))"

definition queue_abs :: "conc \<Rightarrow> atomic_queue" where
  "queue_abs s = \<lparr>aq_items = ring_items (cs_ring s), aq_closed = rb_closed (cs_ring s),
     aq_push = push_abs s, aq_pop = pop_abs s\<rparr>"

lemma start_abs: "queue_abs (start_state capacity) = atomic_start"
  by (simp add: queue_abs_def push_abs_def pop_abs_def idle_pop_def start_state_def make_ring_def atomic_start_def ring_items_def)

text \<open>What the ring holds follows from what was sent and received.\<close>

lemma items_same:
  assumes "core_inv capacity s" and "core_inv capacity s'" and "cs_sent s' = cs_sent s" and "cs_received s' = cs_received s"
  shows "ring_items (cs_ring s') = ring_items (cs_ring s)"
  using core_ring_items(1) [OF assms(1)] core_ring_items(1) [OF assms(2)] assms(3,4) by simp

lemma items_count: "core_inv capacity s \<Longrightarrow> length (ring_items (cs_ring s)) = length (cs_sent s) - length (cs_received s)"
  using core_ring_items(1) [of capacity s] by (metis add_diff_cancel_left' length_append)

lemma full_items:
  assumes "core_inv capacity s" and "ring_full (cs_ring s)"
  shows "length (ring_items (cs_ring s)) = unat capacity"
proof -
  have "rb_capacity (cs_ring s) = capacity" using assms(1) by (simp add: core_inv_def)
  with assms(2) have "unat capacity \<le> length (ring_items (cs_ring s))"
    by (simp add: ring_full_def ring_items_def word_le_nat_alt)
  with core_ring_items(2) [OF assms(1)] show ?thesis by simp
qed

lemma empty_items: "ring_empty (cs_ring s) \<Longrightarrow> ring_items (cs_ring s) = []"
  by (simp add: ring_empty_def ring_items_def)

section \<open>Simulation\<close>

lemmas push_view = queue_abs_def push_abs_def
lemmas pop_view = queue_abs_def pop_abs_def idle_pop_def

text \<open>One step of the atomic queue, or none.\<close>

definition atomic_or_none :: "nat \<Rightarrow> atomic_queue \<Rightarrow> atomic_queue \<Rightarrow> bool" where
  "atomic_or_none capacity a a' \<longleftrightarrow> a' = a \<or> atomic_step capacity a a'"

lemma atomic_or_noneI: "atomic_step capacity a b \<Longrightarrow> a' = b \<Longrightarrow> atomic_or_none capacity a a'"
  by (simp add: atomic_or_none_def)

lemma push_abs_notify [simp]: "push_abs (notify_space s) = push_abs s"
  by (simp add: push_abs_def notify_space_def split: producer_pc.split)

lemma pop_abs_notify [simp]: "pop_abs (notify_data s) = pop_abs s"
  by (simp add: pop_abs_def notify_data_def split: consumer_pc.split)

lemma pop_abs_cong:
  "cs_consumer s' = cs_consumer s \<Longrightarrow> cs_pop_result s' = cs_pop_result s \<Longrightarrow> cs_out s' = cs_out s \<Longrightarrow>
    cs_consumer_wait s' = cs_consumer_wait s \<Longrightarrow> pop_abs s' = pop_abs s"
  by (simp only: pop_abs_def idle_pop_def)

lemma push_abs_cong:
  "cs_producer s' = cs_producer s \<Longrightarrow> cs_push_result s' = cs_push_result s \<Longrightarrow>
    cs_producer_wait s' = cs_producer_wait s \<Longrightarrow> push_abs s' = push_abs s"
  by (simp only: push_abs_def)

lemma producer_pop_abs:
  assumes "producer_step s s'"
  shows "pop_abs s' = pop_abs s"
  using assms
proof (cases rule: producer_step.cases)
  case p_notify
  then have "pop_abs s' = pop_abs (notify_data s)" by (intro pop_abs_cong) simp_all
  then show ?thesis by simp
qed (rule pop_abs_cong; simp)+

lemma consumer_push_abs:
  assumes "consumer_step s s'"
  shows "push_abs s' = push_abs s"
  using assms
proof (cases rule: consumer_step.cases)
  case c_notify
  then have "push_abs s' = push_abs (notify_space s)" by (intro push_abs_cong) simp_all
  then show ?thesis by simp
qed (rule push_abs_cong; simp)+

lemma closer_abs:
  assumes "closer_step s s'"
  shows "push_abs s' = push_abs s" and "pop_abs s' = pop_abs s"
proof -
  have data: "push_abs (notify_data s) = push_abs s" by (rule push_abs_cong) (simp_all add: notify_data_def)
  have space: "pop_abs (notify_space s) = pop_abs s"
    by (rule pop_abs_cong) (simp_all add: notify_space_def split: producer_pc.split)
  have k: "push_abs (t\<lparr>cs_closer := k\<rparr>) = push_abs t" "pop_abs (t\<lparr>cs_closer := k\<rparr>) = pop_abs t" for t k
    by (rule push_abs_cong pop_abs_cong; simp)+
  have r: "push_abs (t\<lparr>cs_closer := k, cs_ring := ring\<rparr>) = push_abs t" "pop_abs (t\<lparr>cs_closer := k, cs_ring := ring\<rparr>) = pop_abs t"
    "push_abs (t\<lparr>cs_closer := k, cs_owner := owner\<rparr>) = push_abs t" "pop_abs (t\<lparr>cs_closer := k, cs_owner := owner\<rparr>) = pop_abs t" for t k ring owner
    by (rule push_abs_cong pop_abs_cong; simp)+
  show "push_abs s' = push_abs s"
    using assms by (cases rule: closer_step.cases) (simp_all add: k r data)
  show "pop_abs s' = pop_abs s"
    using assms by (cases rule: closer_step.cases) (simp_all add: k r space)
qed

text \<open>A pop that has not returned has no result, and one that has decided takes at least one record.\<close>

definition pop_pending :: "conc \<Rightarrow> bool" where
  "pop_pending s \<longleftrightarrow> (cs_consumer s \<noteq> C_Idle \<longrightarrow> cs_pop_result s = None) \<and>
     (case cs_consumer s of C_Lock _ n \<Rightarrow> n \<noteq> 0 | C_Publish _ n \<Rightarrow> n \<noteq> 0 | _ \<Rightarrow> True)"

lemma pop_pending_producer: "producer_step s s' \<Longrightarrow> pop_pending s \<Longrightarrow> pop_pending s'"
  by (induction rule: producer_step.induct) (auto simp: pop_pending_def notify_data_def)

lemma pop_pending_consumer: "consumer_step s s' \<Longrightarrow> pop_pending s \<Longrightarrow> pop_pending s'"
  by (induction rule: consumer_step.induct) (auto simp: pop_pending_def notify_space_def split: producer_pc.split)

lemma pop_pending_closer: "closer_step s s' \<Longrightarrow> pop_pending s \<Longrightarrow> pop_pending s'"
  by (induction rule: closer_step.induct)
    (auto simp: pop_pending_def notify_space_def notify_data_def split: producer_pc.split)

lemma reachable_pop_pending: "reachable capacity s \<Longrightarrow> pop_pending s"
proof (induction rule: reachable.induct)
  case reach_start
  show ?case by (simp add: pop_pending_def start_state_def)
qed (blast intro: pop_pending_producer pop_pending_consumer pop_pending_closer)+

lemma producer_step_abs:
  assumes step: "producer_step s s'" and c: "core_inv capacity s" "core_inv capacity s'"
  shows "atomic_or_none (unat capacity) (queue_abs s) (queue_abs s')"
proof (cases "cs_sent s' = cs_sent s")
  case True
  note pop = producer_pop_abs [OF step]
  have same: "ring_items (cs_ring s') = ring_items (cs_ring s)"
    by (rule items_same [OF c True]) (use producer_step_frame [OF step] in simp)
  show ?thesis
    using step
  proof (cases rule: producer_step.cases)
    case (p_call x mode)
    with same pop show ?thesis
      by (intro atomic_or_noneI [OF a_push]) (auto simp: push_view)
  next
    case (p_closed x)
    with same pop show ?thesis
      by (intro atomic_or_noneI [OF a_push_closed]) (auto simp: push_view)
  next
    case (p_refused x)
    with same pop show ?thesis
      by (intro atomic_or_noneI [OF a_push_refused]) (auto simp: push_view)
  next
    case (p_give_up x)
    with same pop full_items [OF c(1)] show ?thesis
      by (intro atomic_or_noneI [OF a_push_timeout]) (auto simp: push_view)
  next
    case p_notify
    with same pop show ?thesis
      by (intro atomic_or_noneI [OF a_pushed]) (auto simp: push_view)
  qed (use True same pop in \<open>auto simp: push_view atomic_or_none_def\<close>)
next
  case False
  with step obtain x tail head where pc: "cs_producer s = P_Publish x tail head"
    and s': "s' = s\<lparr>cs_producer := P_Unlock tail head, cs_ring := (cs_ring s)\<lparr>rb_tail := tail + 1\<rparr>, cs_sent := cs_sent s @ [x]\<rparr>"
    by (cases rule: producer_step.cases) auto
  have "ring_items (cs_ring s') = ring_items (cs_ring s) @ [x]"
    using core_ring_items(1) [OF c(1)] core_ring_items(1) [OF c(2)] by (simp add: s')
  moreover from this have "length (ring_items (cs_ring s)) < unat capacity"
    using core_ring_items(2) [OF c(2)] by simp
  ultimately show ?thesis using producer_pop_abs [OF step]
    by (intro atomic_or_noneI [OF a_enqueue]) (auto simp: push_view pc s')
qed

lemma consumer_publish_abs:
  assumes step: "consumer_step s s'" and c: "core_inv capacity s" "core_inv capacity s'" and res: "pop_pending s"
    and pc: "cs_consumer s = C_Publish head count"
  shows "atomic_or_none (unat capacity) (queue_abs s) (queue_abs s')"
proof -
  from step pc have s': "s' = s\<lparr>cs_consumer := C_Unlock, cs_ring := (cs_ring s)\<lparr>rb_head := head + count\<rparr>,
      cs_received := cs_received s @ cs_out s\<rparr>"
    by (cases rule: consumer_step.cases) auto
  have out: "ring_items (cs_ring s) = cs_out s @ ring_items (cs_ring s')"
    using core_ring_items(1) [OF c(1)] core_ring_items(1) [OF c(2)] by (simp add: s')
  have "holds_records s head (unat count) (unat count)" using c(1) pc by (simp add: core_inv_def consumer_ok_def)
  moreover from this have "length (cs_received s) + unat count \<le> length (cs_sent s)"
    using c(1) by (simp add: holds_records_def core_inv_def counts_ok_def)
  ultimately have len: "length (cs_out s) = unat count" by (simp add: holds_records_def)
  have "0 < unat count" using res pc by (simp add: pop_pending_def unat_gt_0)
  with out len consumer_push_abs [OF step] show ?thesis
    by (intro atomic_or_noneI [OF a_dequeue [where k = "unat count"]]) (auto simp: pop_view pc s')
qed

lemma consumer_other_abs:
  assumes step: "consumer_step s s'" and c: "core_inv capacity s" "core_inv capacity s'" and res: "pop_pending s"
    and pc: "\<nexists>head count. cs_consumer s = C_Publish head count"
  shows "atomic_or_none (unat capacity) (queue_abs s) (queue_abs s')"
proof -
  note push = consumer_push_abs [OF step]
  have same: "ring_items (cs_ring s') = ring_items (cs_ring s)"
  proof (rule items_same [OF c])
    show "cs_sent s' = cs_sent s" by (rule consumer_step_sent [OF step])
    show "cs_received s' = cs_received s" using step pc by (cases rule: consumer_step.cases) auto
  qed
  note items = items_count [OF c(1)]
  show ?thesis
    using step
  proof (cases rule: consumer_step.cases)
    case (c_call mode)
    with same push show ?thesis
      by (intro atomic_or_noneI [OF a_pop]) (auto simp: pop_view)
  next
    case (c_batch_call n)
    with same push show ?thesis
      by (intro atomic_or_noneI [OF a_batch]) (auto simp: pop_view unat_gt_0)
  next
    case (c_some head tail)
    with c(2) have "length (cs_received s) < length (cs_sent s)"
      by (simp add: core_inv_def consumer_ok_def counts_ok_def)
    with core_ring_items(1) [OF c(1)] have "ring_items (cs_ring s) \<noteq> []"
      by (metis append.right_neutral less_irrefl)
    with c_some same push show ?thesis
      by (intro atomic_or_noneI [OF a_take]) (auto simp: pop_view)
  next
    case (c_batch_tail n head tail)
    let ?k = "min n (tail - head)"
    have "holds_records s' head 0 (unat ?k)" using c(2) c_batch_tail by (simp add: core_inv_def consumer_ok_def)
    then have "length (cs_received s') + unat ?k \<le> unat (cs_seen_tail s')" unfolding holds_records_def by blast
    also have "\<dots> \<le> length (cs_sent s')" using c(2) by (simp add: core_inv_def counts_ok_def)
    finally have "length (cs_received s') + unat ?k \<le> length (cs_sent s')" .
    with items c_batch_tail(1) have "unat ?k \<le> length (ring_items (cs_ring s))" by simp
    moreover have "unat ?k \<le> unat n" by (simp add: word_le_nat_alt [symmetric])
    ultimately show ?thesis
      using c_batch_tail same push
      by (intro atomic_or_noneI [OF a_take_batch [where k = "unat ?k" and n = "unat n"]]) (auto simp: pop_view)
  next
    case c_closed
    with same push show ?thesis
      by (intro atomic_or_noneI [OF a_pop_closed]) (auto simp: pop_view)
  next
    case c_refused
    with same push show ?thesis
      by (intro atomic_or_noneI [OF a_pop_refused]) (auto simp: pop_view)
  next
    case (c_batch_none head count index)
    with res have "cs_pop_result s = None" by (simp add: pop_pending_def)
    with c_batch_none same push show ?thesis
      by (intro atomic_or_noneI [OF a_batch_none]) (auto simp: pop_view)
  next
    case c_notify
    with same push show ?thesis
      by (intro atomic_or_noneI [OF a_popped]) (auto simp: pop_view)
  next
    case c_give_up
    with same push empty_items [of s] show ?thesis
      by (intro atomic_or_noneI [OF a_pop_timeout]) (auto simp: pop_view)
  qed (use pc same push in \<open>auto simp: pop_view atomic_or_none_def\<close>)
qed

lemma consumer_step_abs:
  "consumer_step s s' \<Longrightarrow> core_inv capacity s \<Longrightarrow> core_inv capacity s' \<Longrightarrow> pop_pending s \<Longrightarrow>
    atomic_or_none (unat capacity) (queue_abs s) (queue_abs s')"
  using consumer_publish_abs consumer_other_abs by blast

lemma closer_step_abs:
  assumes step: "closer_step s s'" and c: "core_inv capacity s" "core_inv capacity s'"
  shows "atomic_or_none (unat capacity) (queue_abs s) (queue_abs s')"
proof -
  have "cs_received s' = cs_received s" using step by (cases rule: closer_step.cases) auto
  then have same: "ring_items (cs_ring s') = ring_items (cs_ring s)"
    by (rule items_same [OF c closer_step_sent [OF step]])
  have "rb_closed (cs_ring s') = rb_closed (cs_ring s) \<or> rb_closed (cs_ring s')"
    using step by (cases rule: closer_step.cases) auto
  then have "queue_abs s' = queue_abs s \<or> queue_abs s' = (queue_abs s)\<lparr>aq_closed := True\<rparr>"
    using same closer_abs [OF step] by (auto simp: queue_abs_def)
  then show ?thesis using a_close by (auto simp: atomic_or_none_def)
qed

section \<open>Properties\<close>

text \<open>A step of any thread.\<close>

definition conc_step :: "conc \<Rightarrow> conc \<Rightarrow> bool" where
  "conc_step s s' \<longleftrightarrow> producer_step s s' \<or> consumer_step s s' \<or> closer_step s s'"

lemma conc_step_reachable: "reachable capacity s \<Longrightarrow> conc_step s s' \<Longrightarrow> reachable capacity s'"
  by (auto simp: conc_step_def intro: reachable.intros)

lemma conc_step_sent: "conc_step s s' \<Longrightarrow> length (cs_sent s) \<le> length (cs_sent s')"
  using producer_step_sent consumer_step_sent closer_step_sent by (fastforce simp: conc_step_def)



end
