(* ===== verification/Recorder_Stop.thy ===== *)
theory Recorder_Stop
  imports Recorder
begin

text \<open>
  Stopping the recorder. \<open>stop\<close> joins the sensor thread, closes the ring and joins the writer thread;
  from every state it can be in the threads can go on until it returns.
\<close>

section \<open>Where stop can be\<close>

definition stop_inv :: "'g recorder \<Rightarrow> bool" where
  "stop_inv r \<longleftrightarrow> (rc_main_thread r = M_Join_Sensor \<longrightarrow> rc_stop_requested r) \<and>
     (rc_main_thread r = M_Join_Writer \<longrightarrow> rb_closed (rc_buffer r) \<and> rc_sensor_thread r = S_Off)"

lemma writer_call_any:
  assumes "\<And>w s code. P (r\<lparr>rc_writer := w, rc_os := s, rc_exit := Some code\<rparr>)"
    and "\<And>w s ok. P (k ok (r\<lparr>rc_writer := w, rc_os := s\<rparr>))"
  shows "P (writer_call f k r)"
  using assms by (auto simp: writer_call_def Let_def split: prod.split call.split)

text \<open>What the steps of the writer thread leave alone.\<close>

definition only_writer :: "'g recorder \<Rightarrow> 'g recorder \<Rightarrow> bool" where
  "only_writer r r' \<longleftrightarrow> rc_main_thread r' = rc_main_thread r \<and> rc_sensor_thread r' = rc_sensor_thread r \<and>
     rc_pushed r' = rc_pushed r \<and> (rc_stop_requested r \<longrightarrow> rc_stop_requested r') \<and>
     (rb_closed (rc_buffer r) \<longrightarrow> rb_closed (rc_buffer r'))"

lemma only_writer_inv: "only_writer r r' \<Longrightarrow> stop_inv r \<Longrightarrow> stop_inv r'"
  by (simp add: only_writer_def stop_inv_def)

lemma only_writer_trans: "only_writer r r' \<Longrightarrow> only_writer r' r'' \<Longrightarrow> only_writer r r''"
  by (simp add: only_writer_def)

text \<open>The records in the ring, as the cursors count them, and the stages of the writer thread.\<close>

definition ring_count :: "ring \<Rightarrow> nat" where
  "ring_count r = unat (rb_tail r - rb_head r)"

fun stage :: "writer_pc \<Rightarrow> nat" where
  "stage (W_Drain _) = 7"
| "stage (W_Append _) = 6"
| "stage W_Loop = 5"
| "stage W_Pop = 4"
| "stage W_Empty = 3"
| "stage W_Finish = 2"
| "stage W_Ended = 1"
| "stage W_Off = 0"

definition work_left :: "'g recorder \<Rightarrow> nat" where
  "work_left r = 8 * ring_count (rc_buffer r) + stage (rc_writer_thread r)"

lemma unat_dec: "(x :: u64) \<noteq> 0 \<Longrightarrow> unat (x - 1) < unat x"
  by (simp add: unat_minus_one unat_gt_0)

lemma pop_count:
  assumes "\<not> ring_empty r" and "try_pop_status x r = (st, y, r')"
  shows "rb_closed r' = rb_closed r" and "ring_count r' < ring_count r"
proof -
  from assms have r': "r' = r\<lparr>rb_head := rb_head r + 1\<rparr>" and ne: "rb_tail r - rb_head r \<noteq> 0"
    by (auto simp: try_pop_status_def ring_empty_def Let_def split: if_splits)
  show "rb_closed r' = rb_closed r" by (simp add: r')
  note unat_dec [OF ne]
  moreover have "ring_count r' = unat (rb_tail r - rb_head r - 1)" by (simp add: ring_count_def r' diff_diff_eq)
  ultimately show "ring_count r' < ring_count r" by (simp only: ring_count_def)
qed

lemma batch_count:
  assumes "try_pop_batch k r = (xs, r')"
  shows "rb_closed r' = rb_closed r" and "ring_count r' \<le> ring_count r"
proof -
  let ?c = "min k (rb_tail r - rb_head r)"
  from assms have r': "r' = r \<or> r' = r\<lparr>rb_head := rb_head r + ?c\<rparr>"
    by (auto simp: try_pop_batch_def Let_def split: if_splits)
  then show "rb_closed r' = rb_closed r" by auto
  have "unat (rb_tail r - rb_head r - ?c) \<le> unat (rb_tail r - rb_head r)"
    by (simp add: unat_sub)
  moreover have "ring_count r' = ring_count r \<or> ring_count r' = unat (rb_tail r - rb_head r - ?c)"
    using r' by (auto simp: ring_count_def diff_diff_eq)
  ultimately show "ring_count r' \<le> ring_count r" by (auto simp only: ring_count_def)
qed

text \<open>The next step of the writer thread, once the ring is closed.\<close>

definition progress :: "'g recorder \<Rightarrow> 'g recorder \<Rightarrow> bool" where
  "progress r r' \<longleftrightarrow> only_writer r r' \<and> (rc_exit r' = None \<longrightarrow> work_left r' < work_left r)"

lemmas progress_simps = progress_def only_writer_def work_left_def

lemma progress_fails: "2 < stage (rc_writer_thread r) \<Longrightarrow> progress r (writer_fails (r\<lparr>rc_writer := w, rc_os := s\<rparr>))"
  by (simp add: progress_simps writer_fails_def ring_count_def close_ring_def)

lemma progress_exit: "progress r (r\<lparr>rc_writer := w, rc_os := s, rc_exit := Some code\<rparr>)"
  by (simp add: progress_simps)

lemma progress_top: "rc_writer_thread r = W_Loop \<Longrightarrow> progress r (writer_top now r)"
  unfolding writer_top_def
  by (auto intro!: writer_call_any [where P = "progress r"] progress_exit progress_fails)
    (simp_all add: progress_simps committed_now_def)

lemma progress_append: "rc_writer_thread r = W_Append batch \<Longrightarrow> progress r (writer_append now batch r)"
  unfolding writer_append_def
  by (auto intro!: writer_call_any [where P = "progress r"] progress_exit progress_fails simp: Let_def)
    (simp_all add: progress_simps committed_now_def)

lemma progress_finish: "rc_writer_thread r = W_Finish \<Longrightarrow> progress r (writer_finish r)"
  unfolding writer_finish_def
  by (rule writer_call_any [where P = "progress r"], rule progress_exit) (simp add: progress_simps committed_now_def)

lemma progress_pop:
  assumes pc: "rc_writer_thread r = W_Pop"
  shows "progress r (writer_pop r)"
proof (cases "ring_empty (rc_buffer r)")
  case True
  then show ?thesis by (simp add: writer_pop_def progress_simps pc)
next
  case False
  obtain st y ring where p: "try_pop_status default_flight_record (rc_buffer r) = (st, y, ring)" by (metis prod_cases3)
  from pop_count [OF False p] False show ?thesis
    by (simp add: writer_pop_def p take_sequence_def progress_simps pc)
qed

lemma progress_drain:
  assumes pc: "rc_writer_thread r = W_Drain x"
  shows "progress r (writer_drain x r)"
proof -
  obtain xs ring where p: "try_pop_batch (cf_batch_size (rc_config r) - 1) (rc_buffer r) = (xs, ring)" by force
  from batch_count [OF p] show ?thesis
    by (simp add: writer_drain_def p take_sequences_number progress_simps pc)
qed

lemma writer_goes_on:
  assumes ex: "rc_exit r = None" and closed: "rb_closed (rc_buffer r)" and pc: "rc_writer_thread r \<notin> {W_Ended, W_Off}"
  shows "\<exists>r'. recorder_step m r r' \<and> progress r r'"
proof (cases "rc_writer_thread r")
  case W_Loop
  with rs_top [OF ex] progress_top show ?thesis by blast
next
  case W_Pop
  with rs_pop [OF ex] progress_pop show ?thesis by blast
next
  case W_Empty
  then have "progress r (r\<lparr>rc_writer_thread := W_Finish\<rparr>)" by (simp add: progress_simps)
  with rs_closed [OF ex W_Empty closed] show ?thesis by blast
next
  case W_Drain
  with rs_drain [OF ex] progress_drain show ?thesis by blast
next
  case W_Append
  with rs_append [OF ex] progress_append show ?thesis by blast
next
  case W_Finish
  with rs_finish [OF ex] progress_finish show ?thesis by blast
qed (use pc in simp_all)

lemma run_trans: "recorder_run m r0 r \<Longrightarrow> recorder_run m r r' \<Longrightarrow> recorder_run m r0 r'"
  by (rotate_tac, induction rule: recorder_run.induct) (auto intro: run_step)

lemma writer_winds_up:
  assumes "rc_exit r = None" and "rb_closed (rc_buffer r)"
  shows "\<exists>r'. recorder_run m r r' \<and> only_writer r r' \<and> (rc_exit r' \<noteq> None \<or> rc_writer_thread r' \<in> {W_Ended, W_Off})"
  using assms
proof (induction "work_left r" arbitrary: r rule: less_induct)
  case less
  show ?case
  proof (cases "rc_writer_thread r \<in> {W_Ended, W_Off}")
    case True
    then show ?thesis by (intro exI [of _ r]) (auto intro: run_start simp: only_writer_def)
  next
    case False
    with writer_goes_on [OF less.prems] obtain r1 where step: "recorder_step m r r1" "progress r r1" by blast
    then have run: "recorder_run m r r1" and only: "only_writer r r1"
      by (auto intro: run_step run_start simp: progress_def)
    show ?thesis
    proof (cases "rc_exit r1 = None")
      case True
      with step(2) only less.prems(2) have "work_left r1 < work_left r" "rb_closed (rc_buffer r1)"
        by (simp_all add: progress_def only_writer_def)
      from less.hyps [OF this(1) True this(2)] obtain r' where "recorder_run m r1 r'" "only_writer r1 r'"
        "rc_exit r' \<noteq> None \<or> rc_writer_thread r' \<in> {W_Ended, W_Off}" by blast
      with run_trans [OF run] only_writer_trans [OF only] show ?thesis by blast
    qed (use run only in blast)
  qed
qed

section \<open>The sensor thread ends\<close>

text \<open>Only the samples pushed, the ring and the sensor thread's own state change.\<close>

definition only_sensor :: "'g recorder \<Rightarrow> 'g recorder \<Rightarrow> bool" where
  "only_sensor r r' \<longleftrightarrow> rc_exit r' = rc_exit r \<and> rc_main_thread r' = rc_main_thread r \<and>
     rc_writer_thread r' = rc_writer_thread r \<and> rc_stop_requested r' = rc_stop_requested r \<and>
     length (rc_pushed r') \<le> length (rc_pushed r) + (case rc_sensor_thread r of S_Pushing _ \<Rightarrow> 1 | _ \<Rightarrow> 0)"

lemma sensor_ends_loop:
  assumes "rc_exit r = None" and "rc_stop_requested r" and pc: "rc_sensor_thread r = S_Loop"
  shows "recorder_step m r (r\<lparr>rc_sensor_thread := S_Ended\<rparr>)"
  by (rule rs_sample [OF assms(1) pc]) (simp add: sensor_sample_def assms(2))

lemma sensor_push_ends:
  assumes ex: "rc_exit r = None" and pc: "rc_sensor_thread r = S_Pushing x"
  shows "\<exists>r'. recorder_step m r r' \<and> only_sensor r r' \<and> rc_sensor_thread r' \<in> {S_Loop, S_Ended}"
proof (cases "fst (try_push x (rc_buffer r)) = Push_Timeout")
  case True
  then have "\<not> rb_closed (rc_buffer r)" "ring_full (rc_buffer r)"
    by (auto simp: try_push_def ring_full_def Let_def split: if_splits)
  from rs_drop [OF ex pc this] show ?thesis
    by (intro exI [of _ "sensor_drop r"]) (simp add: sensor_drop_def only_sensor_def)
next
  case False
  then have "only_sensor r (sensor_push x r)" "rc_sensor_thread (sensor_push x r) \<in> {S_Loop, S_Ended}"
    by (auto simp: sensor_push_def only_sensor_def pc split: prod.split push_status.split)
  with rs_push [OF ex pc] show ?thesis by blast
qed

lemma sensor_ends:
  assumes ex: "rc_exit r = None" and stop: "rc_stop_requested r"
  shows "\<exists>r'. recorder_run m r r' \<and> only_sensor r r' \<and> rc_sensor_thread r' \<in> {S_Ended, S_Off}"
proof (cases "rc_sensor_thread r")
  case S_Loop
  with run_step [OF run_start sensor_ends_loop [OF ex stop S_Loop]] show ?thesis
    by (intro exI [of _ "r\<lparr>rc_sensor_thread := S_Ended\<rparr>"]) (simp add: only_sensor_def)
next
  case (S_Pushing x)
  obtain r1 where r1: "recorder_step m r r1" "only_sensor r r1" "rc_sensor_thread r1 \<in> {S_Loop, S_Ended}"
    using sensor_push_ends [OF ex S_Pushing] by blast
  show ?thesis
  proof (cases "rc_sensor_thread r1 = S_Loop")
    case True
    with r1(2) ex stop have "recorder_step m r1 (r1\<lparr>rc_sensor_thread := S_Ended\<rparr>)"
      by (intro sensor_ends_loop) (simp_all add: only_sensor_def)
    from run_step [OF run_step [OF run_start r1(1)] this] r1(2) show ?thesis
      by (intro exI [of _ "r1\<lparr>rc_sensor_thread := S_Ended\<rparr>"]) (simp add: only_sensor_def)
  qed (use r1 run_step [OF run_start r1(1)] in blast)
qed (use run_start in \<open>auto simp: only_sensor_def\<close>)

section \<open>The invariant\<close>

lemma stop_inv_joined_writer:
  assumes "stop_inv r"
  shows "stop_inv (stop_joined_writer r)"
  unfolding stop_joined_writer_def
  by (rule writer_call_any) (use assms in \<open>auto simp: stop_inv_def Let_def split: prod.split call.split\<close>)

lemma stop_inv_step:
  assumes "recorder_step m r r'" and inv: "stop_inv r"
  shows "stop_inv r'"
  using assms(1)
proof (cases rule: recorder_step.cases)
  case rs_top
  with only_writer_inv [OF _ inv] progress_top show ?thesis by (auto simp: progress_def)
next
  case rs_pop
  with only_writer_inv [OF _ inv] progress_pop show ?thesis by (auto simp: progress_def)
next
  case rs_drain
  with only_writer_inv [OF _ inv] progress_drain show ?thesis by (auto simp: progress_def)
next
  case rs_append
  with only_writer_inv [OF _ inv] progress_append show ?thesis by (auto simp: progress_def)
next
  case rs_finish
  with only_writer_inv [OF _ inv] progress_finish show ?thesis by (auto simp: progress_def)
next
  case rs_joined_writer
  with stop_inv_joined_writer [OF inv] show ?thesis by simp
next
  case rs_sample
  with inv show ?thesis by (auto simp: sensor_sample_def stop_inv_def split: if_splits option.splits)
next
  case (rs_push x)
  with inv show ?thesis
    by (auto simp: sensor_push_def stop_inv_def split: prod.split push_status.split)
qed (use inv in \<open>auto simp: stop_inv_def sensor_drop_def stop_request_def stop_joined_sensor_def close_ring_def\<close>)

lemma stop_inv_run: "recorder_run m r0 r \<Longrightarrow> stop_inv r0 \<Longrightarrow> stop_inv r"
  by (induction rule: recorder_run.induct) (auto intro: stop_inv_step)

section \<open>Properties\<close>

text \<open>Once the sensor thread is joined.\<close>

lemma joined_sensor_finishes:
  assumes "rc_exit r = None" and "rc_main_thread r = M_Join_Writer" and "rb_closed (rc_buffer r)"
  shows "\<exists>r'. recorder_run m r r' \<and> rc_pushed r' = rc_pushed r \<and>
    (rc_exit r' \<noteq> None \<or> rc_main_thread r' = M_Free \<and> rc_writer_thread r' = W_Off \<and> rc_sensor_thread r' = rc_sensor_thread r)"
proof -
  obtain r1 where r1: "recorder_run m r r1" "only_writer r r1" "rc_exit r1 \<noteq> None \<or> rc_writer_thread r1 \<in> {W_Ended, W_Off}"
    using writer_winds_up [OF assms(1,3)] by blast
  show ?thesis
  proof (cases "rc_exit r1 = None")
    case True
    with r1 assms(2) have "recorder_step m r1 (stop_joined_writer r1)"
      by (intro rs_joined_writer) (auto simp: only_writer_def)
    moreover have "rc_pushed (stop_joined_writer r1) = rc_pushed r1 \<and>
        (rc_exit (stop_joined_writer r1) \<noteq> None \<or> rc_main_thread (stop_joined_writer r1) = M_Free \<and>
         rc_writer_thread (stop_joined_writer r1) = W_Off \<and> rc_sensor_thread (stop_joined_writer r1) = rc_sensor_thread r1)"
      unfolding stop_joined_writer_def
      by (rule writer_call_any) (auto simp: Let_def split: prod.split call.split)
    ultimately show ?thesis
      using run_step [OF r1(1)] r1(2) by (intro exI [of _ "stop_joined_writer r1"]) (simp add: only_writer_def)
  qed (use r1 in \<open>auto simp: only_writer_def\<close>)
qed

text \<open>C30. \<open>stop\<close> never hangs. Whatever the threads have done since the start, a \<open>stop\<close> that is under
  way can be completed: the threads can go on, with at most one more sample pushed, until it
  returns with both threads joined, or until an injected fault ends the process.\<close>

theorem stop_can_always_finish:
  assumes "launched m c s q r0" and "recorder_run m (r0\<lparr>rc_os := (rc_os r0)\<lparr>os_script := script\<rparr>\<rparr>) r"
    and "rc_main_thread r \<noteq> M_Free" and "rc_exit r = None"
  shows "\<exists>r'. recorder_run m r r' \<and> length (rc_pushed r') \<le> length (rc_pushed r) + 1 \<and>
    (rc_exit r' \<noteq> None \<or> rc_main_thread r' = M_Free \<and> rc_writer_thread r' = W_Off \<and> rc_sensor_thread r' = S_Off)"
proof -
  have "stop_inv (r0\<lparr>rc_os := (rc_os r0)\<lparr>os_script := script\<rparr>\<rparr>)"
    by (simp add: stop_inv_def launched_fields [OF assms(1)])
  from stop_inv_run [OF assms(2) this] have inv: "stop_inv r" .
  show ?thesis
  proof (cases "rc_main_thread r = M_Join_Writer")
    case True
    with inv joined_sensor_finishes [OF assms(4) True, of m] show ?thesis by (fastforce simp: stop_inv_def)
  next
    case False
    with assms(3) have join: "rc_main_thread r = M_Join_Sensor" by (cases "rc_main_thread r") auto
    with inv obtain r1 where r1: "recorder_run m r r1" "only_sensor r r1" "rc_sensor_thread r1 \<in> {S_Ended, S_Off}"
      using sensor_ends [OF assms(4), of m] by (auto simp: stop_inv_def)
    let ?r2 = "stop_joined_sensor r1"
    from r1 join assms(4) have "recorder_step m r1 ?r2" by (intro rs_joined_sensor) (auto simp: only_sensor_def)
    then have run: "recorder_run m r ?r2" by (rule run_step [OF r1(1)])
    have "rc_exit ?r2 = None" "rc_main_thread ?r2 = M_Join_Writer" "rb_closed (rc_buffer ?r2)" "rc_sensor_thread ?r2 = S_Off"
      "length (rc_pushed ?r2) \<le> length (rc_pushed r) + 1"
      using r1(2) assms(4)
      by (auto simp: stop_joined_sensor_def close_ring_def only_sensor_def split: sensor_pc.splits)
    with joined_sensor_finishes [of ?r2 m] run_trans [OF run] show ?thesis by metis
  qed
qed

theorem stop_can_always_finish_witness:
  "\<exists>r0 r r' :: unit recorder. launched zero_machine sample_config sample_os 0 r0 \<and> recorder_run zero_machine r0 r \<and>
    rc_main_thread r = M_Join_Sensor \<and> recorder_run zero_machine r r' \<and>
    (rc_exit r' \<noteq> None \<or> rc_main_thread r' = M_Free \<and> rc_writer_thread r' = W_Off)"
proof -
  obtain r0 :: "unit recorder" where launch: "launched zero_machine sample_config sample_os 0 r0"
    using sample_launched by blast
  note f = launched_fields [OF launch]
  let ?r = "stop_request r0"
  have stop: "rc_main_thread ?r = M_Join_Sensor" "rc_exit ?r = None" by (simp_all add: stop_request_def f)
  have run: "recorder_run zero_machine r0 ?r" by (rule run_step [OF run_start rs_stop]) (simp_all add: f)
  have "r0\<lparr>rc_os := (rc_os r0)\<lparr>os_script := os_script (rc_os r0)\<rparr>\<rparr> = r0" by simp
  with stop_can_always_finish [OF launch, of "os_script (rc_os r0)" ?r] run stop launch show ?thesis by auto
qed

end
