(* ===== verification/Restart.thy ===== *)
theory Restart
  imports Cli
begin

text \<open>
  One log, many runs of the program. Every run recovers the log, goes on numbering where it ended
  and appends; any run may be killed, and the next one starts from what the disk then holds.
\<close>

section \<open>The numbering across runs\<close>

lemma seq_or_0_numbered: "seq_or_0 (batch_frames (number_from 0 xs)) = word_of_nat (length xs)"
proof (cases xs rule: rev_cases)
  case (snoc ys y)
  then show ?thesis by (simp add: number_from_append batch_frames_def seq_or_0_def last_seq_def add.commute)
qed (simp add: batch_frames_def seq_or_0_def last_seq_def)

lemma numbered_goes_on:
  assumes "length xs < 2 ^ 64"
  shows "goes_on (batch_frames (number_from 0 xs)) (word_of_nat (length xs))"
  using number_from_chain [of 0 xs None] assms seq_or_0_numbered [of xs] by (simp add: goes_on_def follows_def)

lemma numbered_append:
  "batch_frames (number_from 0 (xs @ ys)) =
    batch_frames (number_from 0 xs) @ batch_frames (number_from (word_of_nat (length xs)) ys)"
  by (simp add: number_from_append batch_frames_append)

section \<open>Runs of the program\<close>

text \<open>What is remembered of a run: the samples its sensor thread pushed, and its last committed
  counter.\<close>

type_synonym run_log = "flight_record list \<times> nat"

definition run_log :: "'g recorder \<Rightarrow> run_log" where
  "run_log r = (rc_pushed r, unat (rc_total_records_committed r))"

text \<open>The checkpoint generation that recovery finds; it may not reach \<open>2\<^sup>3\<^sup>2\<close>.\<close>

definition generation_found :: "string \<Rightarrow> os \<Rightarrow> u64" where
  "generation_found path s = sr_checkpoint_generation (fst (recover_startup_state path s))"

text \<open>\<open>program_runs m path s0 s past\<close>: from the system \<open>s0\<close>, a number of runs of the program have led to
  \<open>s\<close>. Each started and recorded into \<open>path\<close>; then its threads ran in some order, with any answers of
  the system, and stopped somewhere. A further run needs a disk on which no checkpoint is torn.\<close>

inductive program_runs :: "'g machine \<Rightarrow> string \<Rightarrow> os \<Rightarrow> os \<Rightarrow> run_log list \<Rightarrow> bool" for m path s0 where
  no_run: "program_runs m path s0 s0 []"
| one_run: "program_runs m path s0 s past \<Longrightarrow> past = [] \<or> intact path s \<Longrightarrow>
    main_start m args (s\<lparr>os_script := []\<rparr>) = Recording out c r0 \<Longrightarrow> cf_output_path (cl_config c) = path \<Longrightarrow>
    recorder_run m (r0\<lparr>rc_os := (rc_os r0)\<lparr>os_script := script\<rparr>\<rparr>) r \<Longrightarrow>
    unat (generation_found path (s\<lparr>os_script := []\<rparr>)) + length (rc_pushed r) + 1 < 2 ^ 32 \<Longrightarrow>
    program_runs m path s0 (rc_os r) (past @ [run_log r])"

definition samples_pushed :: "run_log list \<Rightarrow> nat" where
  "samples_pushed past = length (concat (map fst past))"

lemma samples_pushed_simps [simp]:
  "samples_pushed [] = 0" "samples_pushed (past @ [l]) = samples_pushed past + length (fst l)"
  by (simp_all add: samples_pushed_def)

text \<open>What is kept of a run: a prefix of its samples, no shorter than its committed counter said.\<close>

definition kept_of :: "run_log \<Rightarrow> flight_record list \<Rightarrow> bool" where
  "kept_of l xs \<longleftrightarrow> (\<exists>k\<le>length (fst l). snd l \<le> k \<and> xs = take k (fst l))"

lemma kept_length: "list_all2 kept_of past kept \<Longrightarrow> length (concat kept) \<le> samples_pushed past"
  by (induction rule: list_all2_induct) (auto simp: kept_of_def samples_pushed_def intro: add_mono)

text \<open>The condition on the first run: there is no log, and the checkpoint it will write first can be
  told from an unused slot.\<close>

definition no_log_yet :: "string \<Rightarrow> os \<Rightarrow> bool" where
  "no_log_yet path s \<longleftrightarrow> os_files s path = None \<and> os_files s (journal_path_for_log path) = None \<and>
     compute_checkpoint_crc (make_slot 2 (os_now s) 24 0 0) \<noteq> 0"

text \<open>Where a run begins: on what recovery has kept of the runs before it.\<close>

definition begins :: "'g machine \<Rightarrow> string \<Rightarrow> persisted_file_header \<Rightarrow> nat \<Rightarrow> flight_record list \<Rightarrow> recorder_config \<Rightarrow> os \<Rightarrow> 'g recorder \<Rightarrow> bool" where
  "begins m path h b kept c s r \<longleftrightarrow> os_script s = [] \<and> cf_output_path c = path \<and>
     fc_acknowledgement_fd (cf_fault_config c) = None \<and>
     startable b path s h (batch_frames (number_from 0 kept)) \<and> launched m c s (word_of_nat (length kept)) r"

text \<open>The disk before a run: recovery keeps \<open>kept\<close> and the run can start.\<close>

definition ready :: "string \<Rightarrow> persisted_file_header \<Rightarrow> os \<Rightarrow> flight_record list \<Rightarrow> bool" where
  "ready path h s kept \<longleftrightarrow> (kept = [] \<and> no_log_yet path s \<and> h = new_file_header (os_now s) \<or>
     intact path s \<and> restores path s h (batch_frames (number_from 0 kept)) \<and>
     compute_checkpoint_crc (make_slot 2 (fh_recorder_start_time_us h) 24 0 0) \<noteq> 0)"

lemma ready_recovers:
  assumes "ready path h s kept" and rec: "recover_startup_state path (s\<lparr>os_script := []\<rparr>) = (report, s1)"
  shows "sr_healthy report" and "os_script s1 = []" and "sr_last_sequence report = word_of_nat (length kept)"
    and "no_log_yet path s1 \<and> h = new_file_header (os_now s1) \<and> kept = [] \<or>
      committed_disk path (os_files s1) h (batch_frames (number_from 0 kept)) (sr_checkpoint_generation report) \<and>
      compute_checkpoint_crc (make_slot 2 (fh_recorder_start_time_us h) 24 0 0) \<noteq> 0"
proof -
  have "sr_healthy report \<and> os_script s1 = [] \<and> sr_last_sequence report = word_of_nat (length kept) \<and>
    (no_log_yet path s1 \<and> h = new_file_header (os_now s1) \<and> kept = [] \<or>
      committed_disk path (os_files s1) h (batch_frames (number_from 0 kept)) (sr_checkpoint_generation report) \<and>
      compute_checkpoint_crc (make_slot 2 (fh_recorder_start_time_us h) 24 0 0) \<noteq> 0)"
    using assms(1) unfolding ready_def
  proof (elim disjE conjE)
    assume fresh: "kept = []" "no_log_yet path s" "h = new_file_header (os_now s)"
    with recovery_of_nothing [of "s\<lparr>os_script := []\<rparr>" path] rec
    have "s1 = s\<lparr>os_script := []\<rparr>" "sr_last_sequence report = 0" "sr_healthy report" by (auto simp: no_log_yet_def)
    with fresh show ?thesis by (simp add: no_log_yet_def)
  next
    assume disk: "intact path s" "restores path s h (batch_frames (number_from 0 kept))"
      "compute_checkpoint_crc (make_slot 2 (fh_recorder_start_time_us h) 24 0 0) \<noteq> 0"
    from disk(2) rec have "sr_healthy report" "os_script s1 = []" "sr_last_sequence report = word_of_nat (length kept)"
      by (auto simp: restores_def seq_or_0_numbered)
    with intact_resumes(1) [OF disk(1,2) rec] disk(3) show ?thesis by simp
  qed
  then show "sr_healthy report" and "os_script s1 = []" and "sr_last_sequence report = word_of_nat (length kept)"
    and "no_log_yet path s1 \<and> h = new_file_header (os_now s1) \<and> kept = [] \<or>
      committed_disk path (os_files s1) h (batch_frames (number_from 0 kept)) (sr_checkpoint_generation report) \<and>
      compute_checkpoint_crc (make_slot 2 (fh_recorder_start_time_us h) 24 0 0) \<noteq> 0" by simp_all
qed

lemma ready_begins:
  assumes "ready path h s kept" and start: "main_start m args (s\<lparr>os_script := []\<rparr>) = Recording out c r0"
    and path: "cf_output_path (cl_config c) = path"
    and "unat (generation_found path (s\<lparr>os_script := []\<rparr>)) + b + 1 < 2 ^ 32"
  shows "\<exists>s1. begins m path h b kept (cl_config c) s1 r0"
proof -
  obtain report s1 where rec: "recover_startup_state path (s\<lparr>os_script := []\<rparr>) = (report, s1)"
    and launch: "launched m (cl_config c) s1 (sr_last_sequence report) r0"
    and ack: "fc_acknowledgement_fd (cf_fault_config (cl_config c)) = None"
    using main_start_recording [OF start] path by auto
  note r = ready_recovers [OF assms(1) rec]
  have "unat (sr_checkpoint_generation report) + b + 1 < 2 ^ 32" using assms(4) by (simp add: generation_found_def rec)
  with r(4) have "startable b path s1 h (batch_frames (number_from 0 kept))"
    by (auto simp: startable_def no_log_yet_def batch_frames_def)
  with r(2,3) launch ack path show ?thesis by (auto simp: begins_def)
qed

lemma begun_run:
  assumes begins: "begins m path h (length (rc_pushed r)) kept c s r0"
    and run: "recorder_run m (r0\<lparr>rc_os := (rc_os r0)\<lparr>os_script := script\<rparr>\<rparr>) r"
    and size: "24 + 84 * (length kept + length (rc_pushed r)) < 2 ^ 64"
  shows "\<exists>xs. kept_of (run_log r) xs \<and> restores path (rc_os r) h (batch_frames (number_from 0 (kept @ xs)))"
    and "rc_exit r = None \<Longrightarrow> \<not> rc_writer_error r \<Longrightarrow> intact path (rc_os r)"
proof -
  let ?q = "word_of_nat (length kept) :: u64" and ?base = "batch_frames (number_from 0 kept)"
  from begins have s: "os_script s = []" and path: "cf_output_path c = path"
    and start: "startable (length (rc_pushed r)) (cf_output_path c) s h ?base" and launch: "launched m c s ?q r0"
    and ack: "\<forall>a. fc_acknowledgement_fd (cf_fault_config c) = Some a \<longrightarrow>
      a \<noteq> cf_output_path c \<and> a \<noteq> journal_path_for_log (cf_output_path c)"
    by (auto simp: begins_def)
  have goes: "goes_on ?base ?q" by (rule numbered_goes_on) (use size in simp)
  have seqs: "unat ?q + length (rc_pushed r) < 2 ^ 64" using size by (simp add: unat_of_nat_len)
  have bytes: "24 + 84 * (length ?base + length (rc_pushed r)) < 2 ^ 64" using size by (simp add: batch_frames_def)
  note run = s start ack launch goes run seqs bytes
  from run_recovered [OF run] obtain k where k: "k \<le> length (rc_pushed r)" "unat (rc_total_records_committed r) \<le> k"
    "restores path (rc_os r) h (?base @ batch_frames (number_from ?q (take k (rc_pushed r))))"
    by (auto simp: recovered_to_def take_number_from path)
  then show "\<exists>xs. kept_of (run_log r) xs \<and> restores path (rc_os r) h (batch_frames (number_from 0 (kept @ xs)))"
    by (intro exI [of _ "take k (rc_pushed r)"]) (auto simp: kept_of_def run_log_def numbered_append)
  show "rc_exit r = None \<Longrightarrow> \<not> rc_writer_error r \<Longrightarrow> intact path (rc_os r)"
    using run_intact [OF run] by (simp add: path)
qed

text \<open>After any number of runs.\<close>

lemma program_runs_kept:
  assumes "program_runs m path s0 s past" and "no_log_yet path s0" and "24 + 84 * samples_pushed past < 2 ^ 64"
  defines "h \<equiv> new_file_header (os_now s0)"
  shows "\<exists>kept. list_all2 kept_of past kept \<and> (if past = [] then s = s0 else restores path s h (batch_frames (number_from 0 (concat kept))))"
  using assms(1-3)
proof (induction rule: program_runs.induct)
  case (one_run s past args out c r0 script r)
  have size: "24 + 84 * (samples_pushed past + length (rc_pushed r)) < 2 ^ 64"
    using one_run.prems(2) by (simp add: run_log_def)
  with one_run obtain kept where kept: "list_all2 kept_of past kept"
    "if past = [] then s = s0 else restores path s h (batch_frames (number_from 0 (concat kept)))" by fastforce
  have "ready path h s (concat kept)"
    using one_run.hyps(2) one_run.prems(1) kept by (auto simp: ready_def h_def no_log_yet_def new_file_header_def split: if_splits)
  from ready_begins [OF this one_run.hyps(3,4), of "length (rc_pushed r)"] one_run.hyps(6)
  obtain s1 where "begins m path h (length (rc_pushed r)) (concat kept) (cl_config c) s1 r0" by blast
  from begun_run(1) [OF this one_run.hyps(5)] kept_length [OF kept(1)] size
  obtain xs where "kept_of (run_log r) xs" "restores path (rc_os r) h (batch_frames (number_from 0 (concat kept @ xs)))"
    by fastforce
  with kept(1) show ?case by (intro exI [of _ "kept @ [xs]"]) (simp add: list_all2_appendI)
qed simp

lemma program_runs_ready:
  assumes "program_runs m path s0 s past" and "no_log_yet path s0" and "24 + 84 * samples_pushed past < 2 ^ 64"
    and "past = [] \<or> intact path s"
  obtains kept where "list_all2 kept_of past kept" "ready path (new_file_header (os_now s0)) s (concat kept)"
proof -
  from program_runs_kept [OF assms(1-3)] obtain kept where "list_all2 kept_of past kept"
    "if past = [] then s = s0 else restores path s (new_file_header (os_now s0)) (batch_frames (number_from 0 (concat kept)))" by blast
  with assms(2,4) show ?thesis by (intro that [of kept]) (auto simp: ready_def no_log_yet_def new_file_header_def split: if_splits)
qed

section \<open>Starting again\<close>

text \<open>The arguments name the log and are accepted.\<close>

definition accepts :: "string list \<Rightarrow> string \<Rightarrow> cli \<Rightarrow> bool" where
  "accepts args path c \<longleftrightarrow> parse_arguments args default_cli = Parsed c \<and> cli_refused c = None \<and>
     cf_output_path (cl_config c) = path \<and> path \<noteq> [] \<and> options_ok (config_writer_options (cl_config c))"

lemma launch_exists:
  assumes "open_writer (make_writer (cf_output_path c) (cf_fault_config c) (config_writer_options c)) s = (Returns True, w, s1)"
    and "cf_output_path c \<noteq> []"
    and "cf_buffer_size c \<noteq> 0" "cf_sample_rate_hz c \<noteq> 0" "cf_batch_size c \<noteq> 0" "cf_sync_every_batches c \<noteq> 0"
  shows "\<exists>r. launched m c s q r"
  using assms by (simp add: launched_def start_recorder_def set_start_sequence_def make_recorder_def Let_def)

lemma main_starts:
  assumes acc: "accepts args path c" and s: "os_script s = []"
    and rec: "recover_startup_state path s = (report, s1)" "sr_healthy report"
    and opens: "\<exists>w s2. open_writer (make_writer path (cf_fault_config (cl_config c)) (config_writer_options (cl_config c))) s1 =
      (Returns True, w, s2)"
  shows "\<exists>out r. main_start m args s = Recording out c r"
proof -
  from acc have path: "cf_output_path (cl_config c) = path" by (simp add: accepts_def)
  have "cf_buffer_size (cl_config c) \<noteq> 0 \<and> cf_sample_rate_hz (cl_config c) \<noteq> 0 \<and> cf_batch_size (cl_config c) \<noteq> 0 \<and>
      cf_sync_every_batches (cl_config c) \<noteq> 0"
    using acc by (auto simp: accepts_def cli_refused_def Let_def split: if_splits)
  with launch_exists [of "cl_config c" s1 _ _ m "sr_last_sequence report"] acc opens path
  obtain r where launch: "launched m (cl_config c) s1 (sr_last_sequence report) r" by (auto simp: accepts_def)
  have ok: "succeeds s = (True, s)" using s by (rule succeeds_nil)
  from launch launched_fields(11) [OF launch]
  have "main_record m c s = Recording (startup_text report @ recording_text c) c r"
    by (simp add: main_record_def path rec launched_def)
  with acc ok show ?thesis by (auto simp: main_start_def accepts_def)
qed

text \<open>Where there is no log yet, and where recovery restores one.\<close>

lemma main_starts_fresh:
  assumes "no_log_yet path s" and acc: "accepts args path c"
  shows "\<exists>out r. main_start m args (s\<lparr>os_script := []\<rparr>) = Recording out c r"
proof -
  let ?s = "s\<lparr>os_script := []\<rparr>"
  from assms(1) have none: "os_files ?s path = None" "os_files ?s (journal_path_for_log path) = None"
    by (simp_all add: no_log_yet_def)
  from acc have opt: "path \<noteq> []" "options_ok (config_writer_options (cl_config c))" by (simp_all add: accepts_def)
  from recovery_of_nothing [OF none] obtain report where rec: "recover_startup_state path ?s = (report, ?s)" "sr_healthy report"
    by blast
  from open_new_log [OF _ none opt refl, of "cf_fault_config (cl_config c)"] show ?thesis
    by (intro main_starts [OF acc _ rec]) fastforce+
qed

lemma main_starts_restored:
  assumes "restores path s h fs" and acc: "accepts args path c"
  shows "\<exists>out r. main_start m args (s\<lparr>os_script := []\<rparr>) = Recording out c r"
proof -
  from assms(1) obtain report s1 where rec: "recover_startup_state path (s\<lparr>os_script := []\<rparr>) = (report, s1)" "sr_healthy report"
    and "opens_again path s1"
    unfolding restores_def by blast
  moreover have "path \<noteq> []" "options_ok (config_writer_options (cl_config c))" using acc by (simp_all add: accepts_def)
  ultimately have "\<exists>w s2. open_writer (make_writer path (cf_fault_config (cl_config c)) (config_writer_options (cl_config c))) s1 =
      (Returns True, w, s2)"
    unfolding opens_again_def by blast
  then show ?thesis by (intro main_starts [OF acc _ rec]) simp_all
qed

text \<open>A run that ends between two steps, without a writer error, leaves no half-written checkpoint.\<close>

lemma run_leaves_intact:
  assumes runs: "program_runs m path s0 s past" and "past = [] \<or> intact path s"
    and start: "main_start m args (s\<lparr>os_script := []\<rparr>) = Recording out c r0" and path: "cf_output_path (cl_config c) = path"
    and run: "recorder_run m (r0\<lparr>rc_os := (rc_os r0)\<lparr>os_script := script\<rparr>\<rparr>) r"
    and gen: "unat (generation_found path (s\<lparr>os_script := []\<rparr>)) + length (rc_pushed r) + 1 < 2 ^ 32"
    and "no_log_yet path s0" and "24 + 84 * samples_pushed (past @ [run_log r]) < 2 ^ 64"
    and "rc_exit r = None" and "\<not> rc_writer_error r"
  shows "intact path (rc_os r)"
proof -
  let ?h = "new_file_header (os_now s0)"
  have size: "24 + 84 * (samples_pushed past + length (rc_pushed r)) < 2 ^ 64" using assms(8) by (simp add: run_log_def)
  obtain kept where kept: "list_all2 kept_of past kept" "ready path ?h s (concat kept)"
    by (rule program_runs_ready [OF runs assms(7) _ assms(2)]) (use size in simp)
  from ready_begins [OF kept(2) start path, of "length (rc_pushed r)"] gen
  obtain s1 where begins: "begins m path ?h (length (rc_pushed r)) (concat kept) (cl_config c) s1 r0" by blast
  have "24 + 84 * (length (concat kept) + length (rc_pushed r)) < 2 ^ 64" using kept_length [OF kept(1)] size by simp
  from begun_run(2) [OF begins run this assms(9,10)] show ?thesis .
qed

section \<open>Two sample runs\<close>

lemma sample_accepts: "accepts [''--output'', ''log''] ''log'' (default_cli\<lparr>cl_config := sample_config\<rparr>)"
  unfolding accepts_def
  by (intro conjI, rule sample_parsed)
    (simp_all add: sample_hypotheses, simp add: cli_refused_def default_cli_def sample_config_def default_recorder_config_def)

lemma sample_no_log: "no_log_yet ''log'' sample_os"
  using sample_crc by (simp add: no_log_yet_def sample_os_def)

lemma sample_os_script: "sample_os\<lparr>os_script := []\<rparr> = sample_os"
  using sample_hypotheses(4) by simp

lemma sample_generation: "generation_found ''log'' sample_os = 0"
  using recovery_of_nothing [of sample_os "''log''"] by (auto simp: generation_found_def sample_os_def)

text \<open>The journal that the first run leaves behind when it has written nothing.\<close>

lemma sample_journal:
  assumes "launched zero_machine sample_config sample_os 0 r0"
  shows "os_files (rc_os r0) (journal_path_for_log ''log'') =
    Some (enc_checkpoint_slot (make_slot 1 7 24 0 0) @ replicate 52 0)"
proof -
  note h = sample_hypotheses
  from launched_writer [OF assms] obtain w s1 where
    o: "open_writer (make_writer ''log'' (cf_fault_config sample_config) (config_writer_options sample_config)) sample_os = (Returns True, w, s1)"
    and r0: "rc_os r0 = s1" by (auto simp: h)
  from open_new_log [OF h(4) _ _ _ h(1) refl, of "''log''" "cf_fault_config sample_config"] o
  show ?thesis unfolding r0 by (auto simp: sample_os_def)
qed

text \<open>The program is stopped with a sample in the ring, and started again.\<close>

lemma sample_first_run:
  "\<exists>out c (r0 :: unit recorder) r x. main_start zero_machine [''--output'', ''log''] sample_os = Recording out c r0 \<and>
    cf_output_path (cl_config c) = ''log'' \<and>
    recorder_run zero_machine (r0\<lparr>rc_os := (rc_os r0)\<lparr>os_script := []\<rparr>\<rparr>) r \<and> rc_pushed r = [x] \<and>
    rc_exit r = None \<and> \<not> rc_writer_error r \<and> rc_total_records_committed r = 0 \<and>
    os_files (rc_os r) (journal_path_for_log ''log'') = Some (enc_checkpoint_slot (make_slot 1 7 24 0 0) @ replicate 52 0)"
proof -
  obtain out and r0 :: "unit recorder" where start: "main_start zero_machine [''--output'', ''log''] sample_os =
      Recording out (default_cli\<lparr>cl_config := sample_config\<rparr>) r0"
    and launch: "launched zero_machine sample_config sample_os 0 r0"
    using sample_main_start by blast
  obtain r x where "recorder_run zero_machine r0 r" "rc_pushed r = [x]" "rc_exit r = None" "\<not> rc_writer_error r" "rc_os r = rc_os r0"
    "rc_total_records_committed r = 0"
    using sample_stopped [OF launch] by blast
  with start show ?thesis
    by (intro exI [of _ out] exI [of _ "default_cli\<lparr>cl_config := sample_config\<rparr>"] exI [of _ r0] exI [of _ r] exI [of _ x])
      (simp add: sample_journal [OF launch] sample_hypotheses(2) sample_script [OF launch])
qed

lemma sample_now: "os_now sample_os = 7"
  by (simp add: sample_os_def)

lemma zero_generation: "ck_generation (dec_checkpoint_slot (replicate 52 0)) = 0"
  by code_simp

lemma sample_second_generation:
  assumes runs: "program_runs m ''log'' sample_os s [l]" and intact: "intact ''log'' s" and l: "l = ([x], 0)"
    and journal: "os_files s (journal_path_for_log ''log'') = Some (enc_checkpoint_slot (make_slot 1 7 24 0 0) @ replicate 52 0)"
  shows "unat (generation_found ''log'' (s\<lparr>os_script := []\<rparr>)) \<le> 1"
proof -
  obtain report s1 where rec: "recover_startup_state ''log'' (s\<lparr>os_script := []\<rparr>) = (report, s1)" by force
  from program_runs_kept [OF runs sample_no_log] l obtain kept where
    "restores ''log'' s (new_file_header (os_now sample_os)) (batch_frames (number_from 0 (concat kept)))"
    by (auto simp: samples_pushed_def)
  from intact_resumes(2) [OF intact this rec] journal obtain i where "i < 2" and
    g: "sr_checkpoint_generation report = ck_generation (dec_checkpoint_slot
      (slot_at i (enc_checkpoint_slot (make_slot 1 7 24 0 0) @ replicate 52 0)))" by auto
  then consider "i = 0" | "i = 1" by linarith
  then show ?thesis
    using g by cases (simp_all add: generation_found_def rec slot_at_def codec_simps make_slot_def seal_slot_def zero_generation)
qed

section \<open>Properties\<close>





end
